(* ===== verification/Prelude.thy ===== *)
theory Prelude
  imports Main "HOL-Library.Word" "HOL-Library.Code_Target_Nat" "HOL-Library.Code_Target_Int"
begin

text \<open>
  Shared vocabulary of the development: the machine integers of the C sources, the
  collections of facts the component theories add to, generic lemmas on bits, bytes and
  big-endian integers, and the interface of a byte codec (an encoder and a decoder that
  reads one value from the front of a byte string) with the consequences every codec of
  the sources inherits.
\<close>

unbundle bit_operations_syntax

section \<open>Machine integers\<close>

type_synonym u8 = "8 word"
type_synonym u16 = "16 word"
type_synonym u32 = "32 word"
type_synonym u64 = "64 word"

text \<open>
  A \<^verbatim>\<open>size_t\<close> of the 64-bit targets is a \<^typ>\<open>nat\<close> below \<^term>\<open>SIZE_MAX_1\<close>; sums that
  may wrap around are reduced by \<^term>\<open>size_add\<close>.
\<close>

definition SIZE_MAX_1 :: nat where
  "SIZE_MAX_1 = 2 ^ 64"

definition size_add :: "nat \<Rightarrow> nat \<Rightarrow> nat" where
  "size_add a b = (a + b) mod SIZE_MAX_1"

definition INT_MAX :: nat where
  "INT_MAX = 2147483647"

named_theorems codec_simps \<open>encoders and decoders of the sources on concrete shapes\<close>
named_theorems inv_intros \<open>operations that keep a component's invariant\<close>

lemma size_add_eq: "a + b < SIZE_MAX_1 \<Longrightarrow> size_add a b = a + b"
  by (simp add: size_add_def)

text \<open>The wrap-around test of the sources, \<^verbatim>\<open>a + b < a\<close>, detects exactly the overflow.\<close>

lemma size_add_overflow_iff:
  assumes "a < SIZE_MAX_1" and "b < SIZE_MAX_1"
  shows "size_add a b < a \<longleftrightarrow> SIZE_MAX_1 \<le> a + b"
proof (cases "a + b < SIZE_MAX_1")
  case True
  then show ?thesis by (simp add: size_add_def)
next
  case False
  then have "(a + b) mod SIZE_MAX_1 = a + b - SIZE_MAX_1"
    using assms by (simp add: le_mod_geq)
  with False assms show ?thesis by (simp add: size_add_def)
qed

text \<open>The error code that the components of \<^verbatim>\<open>libuv\<close> share.\<close>

definition UV_EINVAL :: int where
  "UV_EINVAL = - 22"

section \<open>Fallible operations on a state\<close>

text \<open>
  A C function that returns an \<^verbatim>\<open>int\<close> flag and changes an object maps a state to a flag and a
  state. \<open>and_then\<close> is the chain \<^verbatim>\<open>if (!f(..)) return 0; g(..)\<close>.
\<close>

definition and_then :: "bool \<times> 's \<Rightarrow> ('s \<Rightarrow> bool \<times> 's) \<Rightarrow> bool \<times> 's" where
  "and_then r g = (case r of (ok, s) \<Rightarrow> if ok then g s else (False, s))"

lemma and_then_simps [simp]:
  "and_then (True, s) g = g s" "and_then (False, s) g = (False, s)"
  by (simp_all add: and_then_def)

lemma and_then_True_iff:
  "and_then r g = (True, s') \<longleftrightarrow> (\<exists>s. r = (True, s) \<and> g s = (True, s'))"
  by (cases r) (auto simp: and_then_def)

lemma and_then_assoc: "and_then (and_then r f) g = and_then r (\<lambda>s. and_then (f s) g)"
  by (simp add: and_then_def split: prod.split)

lemma and_then_done: "and_then r (\<lambda>s. (True, s)) = r"
  by (cases r) (auto simp: and_then_def)

section \<open>Blocks of memory\<close>

text \<open>\<^verbatim>\<open>memcpy\<close> and \<^verbatim>\<open>memmove\<close> on the list of bytes of a block.\<close>

definition mem_write :: "'a list \<Rightarrow> nat \<Rightarrow> 'a list \<Rightarrow> 'a list" where
  "mem_write m off data = take off m @ data @ drop (off + length data) m"

definition mem_move :: "'a list \<Rightarrow> nat \<Rightarrow> nat \<Rightarrow> nat \<Rightarrow> 'a list" where
  "mem_move m dst src n = mem_write m dst (take n (drop src m))"

lemma mem_write_append [simp]:
  "\<lbrakk>length a = off; length b = length data\<rbrakk> \<Longrightarrow> mem_write (a @ b @ c) off data = a @ data @ c"
  by (simp add: mem_write_def)

section \<open>Bits and arithmetic\<close>

lemma nat_push_bit_or:
  "y < 2 ^ n \<Longrightarrow> push_bit n x OR y = x * 2 ^ n + (y::nat)"
proof -
  assume y: "y < 2 ^ n"
  have "push_bit n x AND y = 0"
  proof (rule bit_eqI)
    fix m
    have "bit y m \<Longrightarrow> m < n"
      using y by (metis bit_take_bit_iff take_bit_nat_eq_self)
    then show "bit (push_bit n x AND y) m = bit (0::nat) m"
      by (auto simp: bit_simps)
  qed
  then have "push_bit n x OR y = push_bit n x + y"
    by (simp add: disjunctive_add_eq_or)
  then show ?thesis by (simp add: push_bit_eq_mult)
qed

lemma word_xor_eq_0_iff [simp]: "a XOR b = 0 \<longleftrightarrow> a = (b :: 'a::len word)"
  by (auto simp: bit_eq_iff bit_simps)

lemma unat_push_bit:
  "unat (push_bit n (w::'a::len word)) = (unat w * 2 ^ n) mod 2 ^ LENGTH('a)"
  by (simp only: unsigned_push_bit_eq) (simp add: push_bit_eq_mult take_bit_eq_mod)

lemma unat_push_bit_less:
  "unat (w::'a::len word) * 2 ^ n < 2 ^ LENGTH('a) \<Longrightarrow> unat (push_bit n w) = unat w * 2 ^ n"
  by (simp add: unat_push_bit)

lemma unat_shift_or:
  fixes w v :: "'a::len word"
  assumes "unat v < 2 ^ n" and "unat w * 2 ^ n < 2 ^ LENGTH('a)"
  shows "unat (push_bit n w OR v) = unat w * 2 ^ n + unat v"
proof -
  have "unat (push_bit n w OR v) = push_bit n (unat w) OR unat v"
    using unat_push_bit_less [OF assms(2)] by (simp only: unsigned_or_eq push_bit_eq_mult)
  with assms(1) show ?thesis by (simp add: nat_push_bit_or)
qed

lemma word_shift_or:
  fixes a b :: "'a::len word"
  assumes "unat b < 2 ^ n"
  shows "push_bit n a OR b = a * 2 ^ n + b"
proof -
  have "push_bit n a AND b = 0"
  proof (rule bit_eqI)
    fix m
    have "bit b m \<Longrightarrow> m < n"
    proof -
      assume "bit b m"
      then have "bit (unat b) m" by (simp add: bit_unsigned_iff)
      with assms show "m < n" by (metis bit_take_bit_iff take_bit_nat_eq_self)
    qed
    then show "bit (push_bit n a AND b) m = bit (0::'a word) m"
      by (auto simp: bit_simps)
  qed
  then show ?thesis by (simp add: disjunctive_add_eq_or push_bit_eq_mult)
qed

lemma unat_drop_bit: "unat (drop_bit n (w::'a::len word)) = unat w div 2 ^ n"
  by (simp only: unat_drop_bit_eq) (simp only: drop_bit_eq_div)

lemma unat_and_mask: "unat (w AND mask n) = unat (w::'a::len word) mod 2 ^ n"
  by (simp add: unsigned_and_eq take_bit_eq_mod flip: take_bit_eq_mask)
     (metis take_bit_eq_mask take_bit_eq_mod unsigned_take_bit_eq)

lemma unat_and_push_mask:
  "unat (w AND push_bit m (mask n)) = (unat (w::'a::len word) div 2 ^ m mod 2 ^ n) * 2 ^ m"
proof -
  have "w AND push_bit m (mask n) = push_bit m (drop_bit m w AND mask n)"
    by (rule bit_eqI) (auto simp: bit_simps)
  moreover have "unat (drop_bit m w AND mask n) = unat w div 2 ^ m mod 2 ^ n"
    by (simp only: unat_and_mask unat_drop_bit)
  moreover have "(unat w div 2 ^ m mod 2 ^ n) * 2 ^ m < 2 ^ LENGTH('a)"
  proof -
    have "(unat w div 2 ^ m mod 2 ^ n) * 2 ^ m \<le> unat w div 2 ^ m * 2 ^ m"
      by (intro mult_le_mono1) (rule mod_less_eq_dividend)
    also have "\<dots> \<le> unat w" by simp
    finally show ?thesis using unsigned_less [of w, where 'a = nat] by (rule order_le_less_trans)
  qed
  ultimately show ?thesis by (simp only: unat_push_bit_less)
qed

lemma unat_ucast: "unat (ucast (w::'a::len word) :: 'b::len word) = unat w mod 2 ^ LENGTH('b)"
  by (simp add: unsigned_ucast_eq take_bit_eq_mod)

lemma unat_ucast_up:
  "LENGTH('a) \<le> LENGTH('b) \<Longrightarrow> unat (ucast (w::'a::len word) :: 'b::len word) = unat w"
proof -
  assume "LENGTH('a) \<le> LENGTH('b)"
  then have "unat w < 2 ^ LENGTH('b)"
    by (meson order_less_le_trans unsigned_less power_increasing one_le_numeral)
  then show ?thesis by (simp add: unat_ucast)
qed

lemma u8_bound [simp]: "unat (b::u8) < 256"
  using unsigned_less [of b, where 'a = nat] by simp

lemma u8_le: "unat (b::u8) \<le> 255"
  using u8_bound [of b] by linarith

lemma u32_bound: "unat (w::u32) < 4294967296"
  using unsigned_less [of w, where 'a = nat] by simp

lemma u64_bound: "unat (w::u64) < 18446744073709551616"
  using unsigned_less [of w, where 'a = nat] by simp

lemma unat_of_nat_u8: "n < 256 \<Longrightarrow> unat (of_nat n :: u8) = n"
  by (simp add: unat_of_nat)

lemma eq_of_nat: "unat w = n \<Longrightarrow> w = of_nat n"
  by auto

lemma unat_of_nat_u32: "n < 2 ^ 32 \<Longrightarrow> unat (of_nat n :: u32) = n"
  by (simp add: unat_of_nat)

lemma unat_of_nat_u64: "n < 2 ^ 64 \<Longrightarrow> unat (of_nat n :: u64) = n"
  by (simp add: unat_of_nat)

lemma u8_unat_ucast64 [simp]: "unat (ucast (b::u8) :: u64) = unat b"
  by (rule unat_ucast_up) simp

lemma u8_unat_ucast32 [simp]: "unat (ucast (b::u8) :: u32) = unat b"
  by (rule unat_ucast_up) simp

section \<open>Big-endian integers\<close>

text \<open>\<open>be_nat\<close> reads a byte string as a big-endian integer; \<open>be_bytes n v\<close> is the
  \<open>n\<close>-byte big-endian form of \<open>v\<close> (its low \<open>8 * n\<close> bits).\<close>

definition be_nat :: "u8 list \<Rightarrow> nat" where
  "be_nat bs = foldl (\<lambda>acc b. acc * 256 + unat b) 0 bs"

fun be_bytes :: "nat \<Rightarrow> nat \<Rightarrow> u8 list" where
  "be_bytes 0 v = []"
| "be_bytes (Suc n) v = be_bytes n (v div 256) @ [of_nat v]"

lemma be_nat_Nil [simp]: "be_nat [] = 0"
  by (simp add: be_nat_def)

lemma be_nat_snoc [simp]: "be_nat (bs @ [b]) = be_nat bs * 256 + unat b"
  by (simp add: be_nat_def)

lemma be_nat_foldl: "foldl (\<lambda>acc b. acc * 256 + unat b) a bs = a * 256 ^ length bs + be_nat bs"
proof (induction bs rule: rev_induct)
  case Nil
  show ?case by simp
next
  case (snoc b bs)
  then show ?case by (simp add: algebra_simps)
qed

lemma be_nat_Cons: "be_nat (b # bs) = unat b * 256 ^ length bs + be_nat bs"
  using be_nat_foldl [of "unat b" bs] by (simp add: be_nat_def)

lemma be_nat_bound: "be_nat bs < 256 ^ length bs"
proof (induction bs rule: rev_induct)
  case Nil
  show ?case by simp
next
  case (snoc b bs)
  have "be_nat bs * 256 + unat b < (be_nat bs + 1) * 256"
    using u8_bound [of b] by simp
  also have "\<dots> \<le> 256 ^ length bs * 256"
    using snoc by (intro mult_le_mono1) simp
  finally show ?case by simp
qed

lemma length_be_bytes [simp]: "length (be_bytes n v) = n"
  by (induction n v rule: be_bytes.induct) auto

lemma be_nat_be_bytes: "be_nat (be_bytes n v) = v mod 256 ^ n"
proof (induction n v rule: be_bytes.induct)
  case (1 v)
  then show ?case by simp
next
  case (2 n v)
  have "be_nat (be_bytes (Suc n) v) = (v div 256 mod 256 ^ n) * 256 + v mod 256"
    using 2 by (simp add: unat_of_nat)
  also have "\<dots> = v mod 256 ^ Suc n"
    by (metis add.commute mod_mult2_eq mult.commute power_Suc)
  finally show ?case .
qed

lemma be_bytes_be_nat: "length bs = n \<Longrightarrow> be_bytes n (be_nat bs) = bs"
proof (induction bs arbitrary: n rule: rev_induct)
  case Nil
  then show ?case by simp
next
  case (snoc b bs)
  have "(of_nat (be_nat bs * 256 + unat b) :: u8) = of_nat (unat b)"
    by (rule word_unat_eq_iff [THEN iffD2]) (simp only: unat_of_nat, simp)
  moreover have "(be_nat bs * 256 + unat b) div 256 = be_nat bs"
    using u8_bound [of b] by simp
  ultimately show ?case using snoc by auto
qed

text \<open>The number of bytes of the shortest big-endian form.\<close>

fun byte_len :: "nat \<Rightarrow> nat" where
  "byte_len n = (if n = 0 then 0 else Suc (byte_len (n div 256)))"

declare byte_len.simps [simp del]

lemma byte_len_0 [simp]: "byte_len 0 = 0"
  by (subst byte_len.simps) simp

lemma byte_len_pos: "0 < n \<Longrightarrow> byte_len n = Suc (byte_len (n div 256))"
  by (subst byte_len.simps) simp

lemma byte_len_le_iff: "byte_len n \<le> k \<longleftrightarrow> n < 256 ^ k"
proof (induction k arbitrary: n)
  case 0
  show ?case by (cases "n = 0") (auto simp: byte_len_pos)
next
  case (Suc k)
  show ?case
  proof (cases "n = 0")
    case True
    then show ?thesis by simp
  next
    case False
    then have "byte_len n \<le> Suc k \<longleftrightarrow> n div 256 < 256 ^ k"
      using Suc by (simp add: byte_len_pos)
    also have "\<dots> \<longleftrightarrow> n < 256 ^ Suc k"
      by (simp add: div_less_iff_less_mult mult.commute)
    finally show ?thesis .
  qed
qed

lemma byte_len_less_iff: "k < byte_len n \<longleftrightarrow> 256 ^ k \<le> n"
  using byte_len_le_iff [of n k] by linarith

lemma byte_len_eqI: "\<lbrakk>n < 256 ^ Suc k; 256 ^ k \<le> n\<rbrakk> \<Longrightarrow> byte_len n = Suc k"
  by (simp add: byte_len_le_iff byte_len_less_iff Suc_leI le_antisym)

section \<open>Bits of a byte\<close>

lemma bit_word_iff_odd: "bit (w::'a::len word) n \<longleftrightarrow> odd (unat w div 2 ^ n)"
proof -
  have "bit w n = bit (unat w) n" by (simp add: bit_unsigned_iff)
  then show ?thesis by (simp only: bit_iff_odd)
qed

lemma u8_and_0x80: "b AND 0x80 = 0 \<longleftrightarrow> unat (b::u8) < 128"
proof -
  have "b AND 0x80 = 0 \<longleftrightarrow> \<not> bit b 7"
    using and_exp_eq_0_iff_not_bit [of b 7] by simp
  also have "\<dots> \<longleftrightarrow> unat b div 128 = 0"
  proof -
    have "unat b div 128 < 2" using u8_bound [of b] by linarith
    then show ?thesis by (auto simp: bit_word_iff_odd less_2_cases_iff)
  qed
  finally show ?thesis by (simp add: div_eq_0_iff)
qed

lemma u8_and_0x7f: "unat (b AND 0x7f) = unat (b::u8) mod 128"
proof -
  have "(0x7f :: u8) = mask 7" by (simp add: mask_eq_exp_minus_1)
  then show ?thesis by (simp only: unat_and_mask) simp
qed

section \<open>Decimal numerals\<close>

text \<open>What \<^verbatim>\<open>snprintf\<close> prints for an unsigned number in decimal.\<close>

fun decimal :: "nat \<Rightarrow> u8 list" where
  "decimal n = (if n < 10 then [of_nat (48 + n)] else decimal (n div 10) @ [of_nat (48 + n mod 10)])"

declare decimal.simps [simp del]

lemma decimal_small: "n < 10 \<Longrightarrow> decimal n = [of_nat (48 + n)]"
  by (subst decimal.simps) simp

lemma decimal_step: "\<lbrakk>0 < v; c < 10\<rbrakk> \<Longrightarrow> decimal (v * 10 + c) = decimal v @ [of_nat (48 + c)]"
  by (subst decimal.simps) simp

lemma decimal_not_Nil [simp]: "decimal n \<noteq> []"
  by (subst decimal.simps) simp

lemma digit_range: "\<not> u < (48::u8) \<and> \<not> 57 < u \<longleftrightarrow> (\<exists>c<10. u = of_nat (48 + c))"
proof
  assume "\<not> u < (48::u8) \<and> \<not> 57 < u"
  then have "48 \<le> unat u" "unat u \<le> 57" by (auto simp: word_less_nat_alt)
  then have "u = of_nat (48 + (unat u - 48))" "unat u - 48 < 10" by (auto simp del: of_nat_add)
  then show "\<exists>c<10. u = of_nat (48 + c)" by blast
next
  assume "\<exists>c<10. u = of_nat (48 + c)"
  then obtain c where "c < 10" "u = of_nat (48 + c)" by blast
  then have "unat u = 48 + c" by (simp add: unat_of_nat_u8 del: of_nat_add)
  with \<open>c < 10\<close> show "\<not> u < (48::u8) \<and> \<not> 57 < u" by (simp add: word_less_nat_alt)
qed

lemma length_decimal: "\<lbrakk>n < 10 ^ k; 0 < k\<rbrakk> \<Longrightarrow> length (decimal n) \<le> k"
proof (induction k arbitrary: n)
  case (Suc k)
  show ?case
  proof (cases "n < 10")
    case False
    then have "k \<noteq> 0" using Suc.prems by (cases k) auto
    moreover have "n div 10 < 10 ^ k" using Suc.prems by (simp add: less_mult_imp_div_less mult.commute)
    ultimately show ?thesis using Suc.IH [of "n div 10"] False by (subst decimal.simps) simp
  qed (simp add: decimal_small)
qed simp

section \<open>Byte codecs\<close>

text \<open>
  A decoder reads one value from the front of a byte string and returns it with the bytes
  that follow, or fails. \<open>decode_seq\<close> runs it a given number of times.
\<close>

fun decode_seq :: "(u8 list \<Rightarrow> ('a \<times> u8 list) option) \<Rightarrow> nat \<Rightarrow> u8 list \<Rightarrow> ('a list \<times> u8 list) option" where
  "decode_seq dec 0 s = Some ([], s)"
| "decode_seq dec (Suc n) s =
     (case dec s of
        None \<Rightarrow> None
      | Some (x, s') \<Rightarrow>
          (case decode_seq dec n s' of
             None \<Rightarrow> None
           | Some (xs, s'') \<Rightarrow> Some (x # xs, s'')))"

text \<open>The interface of a codec: what is encoded is read back and nothing after it is touched.\<close>

locale prefix_codec =
  fixes valid :: "'a \<Rightarrow> bool"
    and enc :: "'a \<Rightarrow> u8 list"
    and dec :: "u8 list \<Rightarrow> ('a \<times> u8 list) option"
  assumes dec_enc: "valid x \<Longrightarrow> dec (enc x @ rest) = Some (x, rest)"
begin

lemma enc_prefix_free:
  assumes "valid x" and "valid y" and "enc x @ r = enc y @ t"
  shows "x = y \<and> r = t"
proof -
  have "Some (x, r) = Some (y, t)"
    unfolding dec_enc [OF assms(1), symmetric] dec_enc [OF assms(2), symmetric] assms(3) ..
  then show ?thesis by simp
qed

lemma enc_inj: "\<lbrakk>valid x; valid y; enc x = enc y\<rbrakk> \<Longrightarrow> x = y"
  by (rule enc_prefix_free [of x y "[]" "[]", THEN conjunct1]) simp_all

lemma decode_seq_concat:
  "list_all valid xs \<Longrightarrow>
    decode_seq dec (length xs) (concat (map enc xs) @ rest) = Some (xs, rest)"
  by (induction xs) (simp_all add: dec_enc)

lemma concat_enc_inj:
  assumes "list_all valid xs" and "list_all valid ys" and "length xs = length ys"
    and "concat (map enc xs) = concat (map enc ys)"
  shows "xs = ys"
proof -
  have "Some (xs, []) = decode_seq dec (length ys) (concat (map enc ys) @ [])"
    using decode_seq_concat [OF assms(1), of "[]"] assms(3,4) by simp
  also have "\<dots> = Some (ys, [])"
    using decode_seq_concat [OF assms(2)] .
  finally have "Some (xs, []) = Some (ys, [] :: u8 list)" .
  then show ?thesis by simp
qed

end

text \<open>A canonical codec accepts nothing but its own encodings.\<close>

locale canonical_codec = prefix_codec +
  assumes dec_canonical: "dec s = Some (x, r) \<Longrightarrow> valid x \<and> s = enc x @ r"
begin

lemma dec_iff: "dec s = Some (x, r) \<longleftrightarrow> valid x \<and> s = enc x @ r"
  using dec_enc dec_canonical by blast

lemma dec_unique:
  "\<lbrakk>dec s = Some (x, r); dec t = Some (x, r)\<rbrakk> \<Longrightarrow> s = t"
  by (simp add: dec_iff)

lemma decode_seq_canonical:
  "decode_seq dec n s = Some (xs, r) \<Longrightarrow>
    length xs = n \<and> list_all valid xs \<and> s = concat (map enc xs) @ r"
proof (induction n arbitrary: s xs)
  case 0
  then show ?case by simp
next
  case (Suc n)
  then show ?case by (auto simp: dec_iff split: option.splits)
qed

end

end
