(* ===== verification/Der_Spec.thy ===== *)
theory Der_Spec
  imports Prelude
begin

text \<open>
  The abstract specification of the DER wire format that the parser \<^verbatim>\<open>cbs.c\<close> and the
  builder \<^verbatim>\<open>cbb.c\<close> of \<^verbatim>\<open>BoringSSL-GRPC/src/crypto/bytestring\<close> are proved against: base-128
  integers, identifier octets, length octets, elements and INTEGER contents, stated over
  unbounded naturals. Nothing here models code; the theories \<^verbatim>\<open>Cbs\<close> and \<^verbatim>\<open>Cbb\<close> translate
  the sources and refer to these functions in their theorems.
\<close>

section \<open>Base-128 integers\<close>

text \<open>Groups of seven bits, most significant first; every group but the last carries the
  continuation bit.\<close>

fun base128_hi :: "nat \<Rightarrow> u8 list" where
  "base128_hi n = (if n = 0 then [] else base128_hi (n div 128) @ [of_nat (128 + n mod 128)])"

declare base128_hi.simps [simp del]

definition base128 :: "nat \<Rightarrow> u8 list" where
  "base128 n = base128_hi (n div 128) @ [of_nat (n mod 128)]"

lemma base128_hi_0 [simp]: "base128_hi 0 = []"
  by (subst base128_hi.simps) simp

lemma base128_hi_pos:
  "0 < n \<Longrightarrow> base128_hi n = base128_hi (n div 128) @ [of_nat (128 + n mod 128)]"
  by (subst base128_hi.simps) simp

lemma base128_hi_step:
  "\<lbrakk>0 < v * 128 + d; d < 128\<rbrakk> \<Longrightarrow> base128_hi (v * 128 + d) = base128_hi v @ [of_nat (128 + d)]"
  by (simp add: base128_hi_pos)

lemma base128_step: "d < 128 \<Longrightarrow> base128 (v * 128 + d) = base128_hi v @ [of_nat d]"
  by (simp add: base128_def)

lemma base128_small: "n < 128 \<Longrightarrow> base128 n = [of_nat n]"
  by (simp add: base128_def)

lemma base128_not_Nil [simp]: "base128 n \<noteq> []"
  by (simp add: base128_def)

section \<open>Identifier octets\<close>

text \<open>A tag is a 32-bit word: class and constructed bit in the top three bits, the tag number
  in the other 29. Numbers from 31 on use the high-tag-number form.\<close>

definition tag_class :: "u32 \<Rightarrow> nat" where
  "tag_class t = unat t div 2 ^ 29"

definition tag_num :: "u32 \<Rightarrow> nat" where
  "tag_num t = unat t mod 2 ^ 29"

definition der_tag :: "u32 \<Rightarrow> u8 list" where
  "der_tag t =
     (if tag_num t < 31 then [of_nat (tag_class t * 32 + tag_num t)]
      else of_nat (tag_class t * 32 + 31) # base128 (tag_num t))"

lemma tag_class_less: "tag_class t < 8"
  using u32_bound [of t] by (simp add: tag_class_def less_mult_imp_div_less)

lemma tag_num_less: "tag_num t < 2 ^ 29"
  by (simp add: tag_num_def)

lemma tag_split: "unat t = tag_class t * 2 ^ 29 + tag_num t"
  by (simp add: tag_class_def tag_num_def)

lemma tag_eqI: "\<lbrakk>tag_class t = tag_class u; tag_num t = tag_num u\<rbrakk> \<Longrightarrow> t = u"
  by (simp add: word_unat_eq_iff tag_split)

lemma der_tag_not_Nil [simp]: "der_tag t \<noteq> []"
  by (simp add: der_tag_def)

section \<open>Length octets and elements\<close>

definition der_length :: "nat \<Rightarrow> u8 list" where
  "der_length n = (if n < 128 then [of_nat n] else of_nat (128 + byte_len n) # be_bytes (byte_len n) n)"

definition der_header :: "u32 \<Rightarrow> nat \<Rightarrow> u8 list" where
  "der_header t n = der_tag t @ der_length n"

definition der_element :: "u32 \<Rightarrow> u8 list \<Rightarrow> u8 list" where
  "der_element t body = der_header t (length body) @ body"

section \<open>INTEGER contents\<close>

text \<open>The minimal two's complement big-endian form of a natural number: the shortest
  big-endian form, with a zero byte in front when the top bit would read as a sign; zero is
  one zero byte.\<close>

definition der_uint :: "nat \<Rightarrow> u8 list" where
  "der_uint v =
     (if v = 0 then [0]
      else if 128 \<le> unat (hd (be_bytes (byte_len v) v)) then 0 # be_bytes (byte_len v) v
      else be_bytes (byte_len v) v)"

text \<open>A negative integer \<open>v\<close> is the bitwise complement of the form of \<open>- v - 1\<close>.\<close>

definition der_int :: "int \<Rightarrow> u8 list" where
  "der_int v = (if 0 \<le> v then der_uint (nat v) else map (\<lambda>b. NOT b) (der_uint (nat (- v - 1))))"

end
