(* ===== verification/Mem.thy ===== *)
theory Mem
  imports Prelude
begin

text \<open>
  The memory and string helpers of \<^verbatim>\<open>BoringSSL-GRPC/src/crypto/mem.c\<close>. The C allocator is a
  parameter: an allocation policy \<open>al\<close> says for each size whether \<^verbatim>\<open>malloc\<close> succeeds. A block of
  memory is the list of its bytes; bytes the sources leave uninitialised are zero in the model
  and every caller overwrites them. A C string is the list of its bytes before the
  terminating NUL, and a \<^verbatim>\<open>char\<close> is signed, as on the targets of the application.
\<close>

type_synonym alloc = "nat \<Rightarrow> bool"

definition OPENSSL_MALLOC_PREFIX :: nat where
  "OPENSSL_MALLOC_PREFIX = 8"

definition OPENSSL_malloc :: "alloc \<Rightarrow> nat \<Rightarrow> u8 list option" where
  "OPENSSL_malloc al sz =
     (if size_add sz OPENSSL_MALLOC_PREFIX < sz then None
      else if al (size_add sz OPENSSL_MALLOC_PREFIX) then Some (replicate sz 0) else None)"

text \<open>\<^verbatim>\<open>None\<close> as the first argument is the null pointer. The block keeps its first
  \<^verbatim>\<open>min old_size new_size\<close> bytes.\<close>

definition OPENSSL_realloc :: "alloc \<Rightarrow> u8 list option \<Rightarrow> nat \<Rightarrow> u8 list option" where
  "OPENSSL_realloc al orig new_size =
     (case orig of
        None \<Rightarrow> OPENSSL_malloc al new_size
      | Some old \<Rightarrow>
          (case OPENSSL_malloc al new_size of
             None \<Rightarrow> None
           | Some ret \<Rightarrow>
               (let to_copy = (if length old < new_size then length old else new_size)
                in Some (take to_copy old @ drop to_copy ret))))"

definition OPENSSL_memdup :: "alloc \<Rightarrow> u8 list \<Rightarrow> u8 list option" where
  "OPENSSL_memdup al data =
     (if length data = 0 then None
      else case OPENSSL_malloc al (length data) of None \<Rightarrow> None | Some _ \<Rightarrow> Some data)"

fun memcmp_loop :: "u8 \<Rightarrow> u8 list \<Rightarrow> u8 list \<Rightarrow> u8" where
  "memcmp_loop x (a # as) (b # bs) = memcmp_loop (x OR (a XOR b)) as bs"
| "memcmp_loop x _ _ = x"

definition CRYPTO_memcmp :: "u8 list \<Rightarrow> u8 list \<Rightarrow> nat \<Rightarrow> u8" where
  "CRYPTO_memcmp in_a in_b len = memcmp_loop 0 (take len in_a) (take len in_b)"

definition OPENSSL_hash32 :: "u8 list \<Rightarrow> u32" where
  "OPENSSL_hash32 bs = foldl (\<lambda>h b. (h XOR ucast b) * 16777619) 2166136261 bs"

definition OPENSSL_strhash :: "u8 list \<Rightarrow> u32" where
  "OPENSSL_strhash s = OPENSSL_hash32 s"

text \<open>The loop reads at most \<open>len\<close> bytes and stops at the first zero byte.\<close>

fun OPENSSL_strnlen :: "u8 list \<Rightarrow> nat \<Rightarrow> nat" where
  "OPENSSL_strnlen (c # s) (Suc len) = (if c = 0 then 0 else Suc (OPENSSL_strnlen s len))"
| "OPENSSL_strnlen [] (Suc len) = 0"
| "OPENSSL_strnlen s 0 = 0"

text \<open>The results of \<^verbatim>\<open>OPENSSL_strdup\<close> and \<^verbatim>\<open>OPENSSL_strndup\<close> are whole blocks, the
  terminating NUL included.\<close>

definition OPENSSL_strdup :: "alloc \<Rightarrow> u8 list option \<Rightarrow> u8 list option" where
  "OPENSSL_strdup al s =
     (case s of
        None \<Rightarrow> None
      | Some str \<Rightarrow>
          (case OPENSSL_malloc al (size_add (length str) 1) of None \<Rightarrow> None | Some _ \<Rightarrow> Some (str @ [0])))"

definition OPENSSL_strndup :: "alloc \<Rightarrow> u8 list \<Rightarrow> nat \<Rightarrow> u8 list option" where
  "OPENSSL_strndup al str sz0 =
     (let sz = OPENSSL_strnlen str sz0; alloc_size = size_add sz 1
      in if alloc_size < sz then None
         else case OPENSSL_malloc al alloc_size of
                None \<Rightarrow> None
              | Some _ \<Rightarrow> Some (take sz str @ [0]))"

definition OPENSSL_tolower :: "int \<Rightarrow> int" where
  "OPENSSL_tolower c = (if 65 \<le> c \<and> c \<le> 90 then c + 32 else c)"

text \<open>\<open>char_at s\<close> is the byte a string pointer reads, as an \<^verbatim>\<open>int\<close>: the terminating NUL at the end.\<close>

definition char_at :: "u8 list \<Rightarrow> int" where
  "char_at s = (case s of [] \<Rightarrow> 0 | c # _ \<Rightarrow> sint c)"

fun OPENSSL_strcasecmp :: "u8 list \<Rightarrow> u8 list \<Rightarrow> int" where
  "OPENSSL_strcasecmp a b =
     (let aa = OPENSSL_tolower (char_at a); bb = OPENSSL_tolower (char_at b)
      in if aa < bb then - 1 else if bb < aa then 1
         else if aa = 0 then 0
         else case a of [] \<Rightarrow> 0 | _ # a' \<Rightarrow> OPENSSL_strcasecmp a' (tl b))"

fun OPENSSL_strncasecmp :: "u8 list \<Rightarrow> u8 list \<Rightarrow> nat \<Rightarrow> int" where
  "OPENSSL_strncasecmp a b 0 = 0"
| "OPENSSL_strncasecmp a b (Suc n) =
     (let aa = OPENSSL_tolower (char_at a); bb = OPENSSL_tolower (char_at b)
      in if aa < bb then - 1 else if bb < aa then 1
         else if aa = 0 then 0
         else OPENSSL_strncasecmp (tl a) (tl b) n)"

text \<open>The destination is the block of \<open>dst_size\<close> bytes at \<open>dst\<close>; the result is the block
  afterwards and the returned length.\<close>

fun strlcpy_loop :: "u8 list \<Rightarrow> u8 list \<Rightarrow> nat \<Rightarrow> nat \<Rightarrow> u8 list \<times> nat" where
  "strlcpy_loop dst (c # src) (Suc (Suc n)) l =
     (let (rest, r) = strlcpy_loop (tl dst) src (Suc n) (l + 1) in (c # rest, r))"
| "strlcpy_loop dst src dst_size l =
     ((if dst_size = 0 then dst else 0 # tl dst), l + length src)"

definition OPENSSL_strlcpy :: "u8 list \<Rightarrow> u8 list \<Rightarrow> nat \<Rightarrow> u8 list \<times> nat" where
  "OPENSSL_strlcpy dst src dst_size = strlcpy_loop dst src dst_size 0"

fun OPENSSL_strlcat :: "u8 list \<Rightarrow> u8 list \<Rightarrow> nat \<Rightarrow> u8 list \<times> nat" where
  "OPENSSL_strlcat (d # dst) src (Suc n) =
     (if d \<noteq> 0 then let (rest, r) = OPENSSL_strlcat dst src n in (d # rest, Suc r)
      else OPENSSL_strlcpy (d # dst) src (Suc n))"
| "OPENSSL_strlcat dst src dst_size = OPENSSL_strlcpy dst src dst_size"

declare OPENSSL_strcasecmp.simps [simp del]

section \<open>Comparison\<close>

lemma memcmp_loop_zero_iff:
  "length as = length bs \<Longrightarrow> memcmp_loop x as bs = 0 \<longleftrightarrow> x = 0 \<and> as = bs"
proof (induction x as bs rule: memcmp_loop.induct)
  case (1 x a as b bs)
  then show ?case by (auto simp: or_eq_0_iff)
qed auto

lemma CRYPTO_memcmp_zero_iff:
  "\<lbrakk>len \<le> length a; len \<le> length b\<rbrakk> \<Longrightarrow> CRYPTO_memcmp a b len = 0 \<longleftrightarrow> take len a = take len b"
  by (simp add: CRYPTO_memcmp_def memcmp_loop_zero_iff)

section \<open>Strings\<close>

lemma strnlen_eq: "OPENSSL_strnlen s len = length (takeWhile (\<lambda>c. c \<noteq> 0) (take len s))"
  by (induction s len rule: OPENSSL_strnlen.induct) auto

lemma strlcpy_loop_eq:
  "\<lbrakk>length dst = dst_size; 0 < dst_size\<rbrakk> \<Longrightarrow>
    strlcpy_loop dst src dst_size l =
      (take (dst_size - 1) src @ 0 # drop (min (length src) (dst_size - 1) + 1) dst, l + length src)"
  by (induction dst src dst_size l rule: strlcpy_loop.induct) (auto simp: length_Suc_conv drop_Suc)

lemma strlcat_walk:
  "0 \<notin> set a \<Longrightarrow> OPENSSL_strlcat (a @ dst) src (length a + n) =
    (let (rest, r) = OPENSSL_strlcat dst src n in (a @ rest, length a + r))"
  by (induction a) (auto split: prod.split)

lemma strlcpy_eq:
  "\<lbrakk>length dst = dst_size; 0 < dst_size\<rbrakk> \<Longrightarrow>
    OPENSSL_strlcpy dst src dst_size =
      (take (dst_size - 1) src @ 0 # drop (min (length src) (dst_size - 1) + 1) dst, length src)"
  by (simp add: OPENSSL_strlcpy_def strlcpy_loop_eq)

section \<open>Properties\<close>

text \<open>\<^verbatim>\<open>CRYPTO_memcmp\<close> returns zero exactly when the two regions agree, although it looks at every byte.\<close>

lemma memcmp_zero_iff_equal:
  assumes "len \<le> length a" and "len \<le> length b"
  shows "CRYPTO_memcmp a b len = 0 \<longleftrightarrow> take len a = take len b"
  using assms by (rule CRYPTO_memcmp_zero_iff)

text \<open>\<^verbatim>\<open>OPENSSL_strlcat\<close> on a buffer of \<open>dst_size\<close> bytes that holds the string \<open>a\<close>: the buffer keeps its size,
  holds the concatenation cut to \<open>dst_size - 1\<close> bytes with its terminating zero, what lies behind is not touched, and
  the return value is the length the whole concatenation has, so that truncation can be detected. The same holds
  for \<^verbatim>\<open>OPENSSL_strlcpy\<close>.\<close>

lemma strlcat_bounded:
  assumes "0 \<notin> set a" and "0 \<notin> set src" and "length (a @ 0 # r) = dst_size"
  shows "OPENSSL_strlcat (a @ 0 # r) src dst_size =
      (take (dst_size - 1) (a @ src) @ 0 # drop (min (length (a @ src)) (dst_size - 1) + 1) (a @ 0 # r),
       length (a @ src)) \<and>
    OPENSSL_strlcpy (a @ 0 # r) src dst_size =
      (take (dst_size - 1) src @ 0 # drop (min (length src) (dst_size - 1) + 1) (a @ 0 # r), length src)"
proof -
  have n: "dst_size = length a + Suc (length r)" using assms(3) by simp
  have "OPENSSL_strlcat (a @ 0 # r) src dst_size =
      (let (rest, l) = OPENSSL_strlcpy (0 # r) src (Suc (length r)) in (a @ rest, length a + l))"
    unfolding n strlcat_walk [OF assms(1)] by simp
  also have "\<dots> = (a @ take (length r) src @ 0 # drop (min (length src) (length r) + 1) (0 # r), length a + length src)"
    by (simp add: strlcpy_eq)
  finally have "OPENSSL_strlcat (a @ 0 # r) src dst_size = \<dots>" .
  then show ?thesis using strlcpy_eq [OF assms(3), of src] n by (simp add: min_def Suc_diff_le)
qed

end
