(* ===== verification/Cbs.thy ===== *)
theory Cbs
  imports Der_Spec Mem
begin

text \<open>
  The byte-string parser \<^verbatim>\<open>BoringSSL-GRPC/src/crypto/bytestring/cbs.c\<close>. A \<^verbatim>\<open>CBS\<close> is a pointer
  and a length over memory the parser never writes: the model keeps the bytes it denotes. A
  function that takes \<^verbatim>\<open>CBS *cbs\<close> and out-parameters returns \<^term>\<open>Some\<close> of its outputs and the
  advanced \<^verbatim>\<open>CBS\<close> where the C returns one, and \<^term>\<open>None\<close> where it returns zero; a caller may not
  use outputs or cursor of a failed call. An output the C makes optional with a null pointer
  is always returned here.
\<close>

type_synonym cbs = "u8 list"

section \<open>Model\<close>

subsection \<open>Constants of \<^verbatim>\<open>bytestring.h\<close>\<close>

definition CBS_ASN1_TAG_SHIFT :: nat where
  "CBS_ASN1_TAG_SHIFT = 24"

definition CBS_ASN1_CONSTRUCTED :: u32 where
  "CBS_ASN1_CONSTRUCTED = push_bit CBS_ASN1_TAG_SHIFT 0x20"

definition CBS_ASN1_TAG_NUMBER_MASK :: u32 where
  "CBS_ASN1_TAG_NUMBER_MASK = push_bit (5 + CBS_ASN1_TAG_SHIFT) 1 - 1"

definition CBS_ASN1_BOOLEAN :: u32 where "CBS_ASN1_BOOLEAN = 0x1"

definition CBS_ASN1_INTEGER :: u32 where "CBS_ASN1_INTEGER = 0x2"

definition CBS_ASN1_OCTETSTRING :: u32 where "CBS_ASN1_OCTETSTRING = 0x4"

subsection \<open>Bytes\<close>

definition CBS_init :: "u8 list \<Rightarrow> nat \<Rightarrow> cbs" where
  "CBS_init data len = take len data"

definition cbs_get :: "cbs \<Rightarrow> nat \<Rightarrow> (u8 list \<times> cbs) option" where
  "cbs_get cbs n = (if length cbs < n then None else Some (take n cbs, drop n cbs))"

definition CBS_skip :: "cbs \<Rightarrow> nat \<Rightarrow> cbs option" where
  "CBS_skip cbs len = (case cbs_get cbs len of None \<Rightarrow> None | Some (_, cbs') \<Rightarrow> Some cbs')"

definition CBS_data :: "cbs \<Rightarrow> u8 list" where
  "CBS_data cbs = cbs"

definition CBS_len :: "cbs \<Rightarrow> nat" where
  "CBS_len cbs = length cbs"

definition CBS_stow :: "alloc \<Rightarrow> cbs \<Rightarrow> u8 list option" where
  "CBS_stow al cbs = (if length cbs = 0 then Some [] else OPENSSL_memdup al cbs)"

definition CBS_strdup :: "alloc \<Rightarrow> cbs \<Rightarrow> u8 list option" where
  "CBS_strdup al cbs = OPENSSL_strndup al cbs (length cbs)"

text \<open>\<^verbatim>\<open>memchr\<close> returns the position of the first match.\<close>

fun OPENSSL_memchr :: "u8 list \<Rightarrow> u8 \<Rightarrow> nat option" where
  "OPENSSL_memchr [] c = None"
| "OPENSSL_memchr (x # xs) c =
     (if x = c then Some 0 else map_option Suc (OPENSSL_memchr xs c))"

definition CBS_contains_zero_byte :: "cbs \<Rightarrow> bool" where
  "CBS_contains_zero_byte cbs \<longleftrightarrow> OPENSSL_memchr cbs 0 \<noteq> None"

definition CBS_mem_equal :: "cbs \<Rightarrow> u8 list \<Rightarrow> nat \<Rightarrow> bool" where
  "CBS_mem_equal cbs data len =
     (if len \<noteq> length cbs then False else CRYPTO_memcmp cbs data len = 0)"

subsection \<open>Integers\<close>

fun cbs_get_u_loop :: "u64 \<Rightarrow> u8 list \<Rightarrow> u64" where
  "cbs_get_u_loop result [] = result"
| "cbs_get_u_loop result (b # data) = cbs_get_u_loop (push_bit 8 result OR ucast b) data"

definition cbs_get_u :: "cbs \<Rightarrow> nat \<Rightarrow> (u64 \<times> cbs) option" where
  "cbs_get_u cbs len =
     (case cbs_get cbs len of
        None \<Rightarrow> None
      | Some (data, cbs') \<Rightarrow> Some (cbs_get_u_loop 0 data, cbs'))"

definition CRYPTO_bswap2 :: "u16 \<Rightarrow> u16" where
  "CRYPTO_bswap2 x = drop_bit 8 x OR push_bit 8 x"

definition CRYPTO_bswap4 :: "u32 \<Rightarrow> u32" where
  "CRYPTO_bswap4 x0 =
     (let x = drop_bit 16 x0 OR push_bit 16 x0
      in drop_bit 8 (x AND 0xff00ff00) OR push_bit 8 (x AND 0x00ff00ff))"

definition CRYPTO_bswap8 :: "u64 \<Rightarrow> u64" where
  "CRYPTO_bswap8 x =
     ucast (CRYPTO_bswap4 (ucast (drop_bit 32 x))) OR push_bit 32 (ucast (CRYPTO_bswap4 (ucast x)))"

definition CBS_get_u8 :: "cbs \<Rightarrow> (u8 \<times> cbs) option" where
  "CBS_get_u8 cbs =
     (case cbs_get cbs 1 of None \<Rightarrow> None | Some (v, cbs') \<Rightarrow> Some (hd v, cbs'))"

definition CBS_get_u16 :: "cbs \<Rightarrow> (u16 \<times> cbs) option" where
  "CBS_get_u16 cbs =
     (case cbs_get_u cbs 2 of None \<Rightarrow> None | Some (v, cbs') \<Rightarrow> Some (ucast v, cbs'))"

definition CBS_get_u16le :: "cbs \<Rightarrow> (u16 \<times> cbs) option" where
  "CBS_get_u16le cbs =
     (case CBS_get_u16 cbs of None \<Rightarrow> None | Some (out, cbs') \<Rightarrow> Some (CRYPTO_bswap2 out, cbs'))"

definition CBS_get_u24 :: "cbs \<Rightarrow> (u32 \<times> cbs) option" where
  "CBS_get_u24 cbs =
     (case cbs_get_u cbs 3 of None \<Rightarrow> None | Some (v, cbs') \<Rightarrow> Some (ucast v, cbs'))"

definition CBS_get_u32 :: "cbs \<Rightarrow> (u32 \<times> cbs) option" where
  "CBS_get_u32 cbs =
     (case cbs_get_u cbs 4 of None \<Rightarrow> None | Some (v, cbs') \<Rightarrow> Some (ucast v, cbs'))"

definition CBS_get_u32le :: "cbs \<Rightarrow> (u32 \<times> cbs) option" where
  "CBS_get_u32le cbs =
     (case CBS_get_u32 cbs of None \<Rightarrow> None | Some (out, cbs') \<Rightarrow> Some (CRYPTO_bswap4 out, cbs'))"

definition CBS_get_u64 :: "cbs \<Rightarrow> (u64 \<times> cbs) option" where
  "CBS_get_u64 cbs = cbs_get_u cbs 8"

definition CBS_get_u64le :: "cbs \<Rightarrow> (u64 \<times> cbs) option" where
  "CBS_get_u64le cbs =
     (case cbs_get_u cbs 8 of None \<Rightarrow> None | Some (out, cbs') \<Rightarrow> Some (CRYPTO_bswap8 out, cbs'))"

definition CBS_get_last_u8 :: "cbs \<Rightarrow> (u8 \<times> cbs) option" where
  "CBS_get_last_u8 cbs =
     (if length cbs = 0 then None else Some (cbs ! (length cbs - 1), take (length cbs - 1) cbs))"

definition CBS_get_bytes :: "cbs \<Rightarrow> nat \<Rightarrow> (cbs \<times> cbs) option" where
  "CBS_get_bytes cbs len =
     (case cbs_get cbs len of None \<Rightarrow> None | Some (v, cbs') \<Rightarrow> Some (CBS_init v len, cbs'))"

definition CBS_copy_bytes :: "cbs \<Rightarrow> nat \<Rightarrow> (u8 list \<times> cbs) option" where
  "CBS_copy_bytes cbs len =
     (case cbs_get cbs len of None \<Rightarrow> None | Some (v, cbs') \<Rightarrow> Some (v, cbs'))"

definition cbs_get_length_prefixed :: "cbs \<Rightarrow> nat \<Rightarrow> (cbs \<times> cbs) option" where
  "cbs_get_length_prefixed cbs len_len =
     (case cbs_get_u cbs len_len of
        None \<Rightarrow> None
      | Some (len, cbs') \<Rightarrow> CBS_get_bytes cbs' (unat len))"

definition CBS_get_u8_length_prefixed :: "cbs \<Rightarrow> (cbs \<times> cbs) option" where
  "CBS_get_u8_length_prefixed cbs = cbs_get_length_prefixed cbs 1"

definition CBS_get_u16_length_prefixed :: "cbs \<Rightarrow> (cbs \<times> cbs) option" where
  "CBS_get_u16_length_prefixed cbs = cbs_get_length_prefixed cbs 2"

definition CBS_get_u24_length_prefixed :: "cbs \<Rightarrow> (cbs \<times> cbs) option" where
  "CBS_get_u24_length_prefixed cbs = cbs_get_length_prefixed cbs 3"

definition CBS_get_until_first :: "cbs \<Rightarrow> u8 \<Rightarrow> (cbs \<times> cbs) option" where
  "CBS_get_until_first cbs c =
     (case OPENSSL_memchr (CBS_data cbs) c of
        None \<Rightarrow> None
      | Some split \<Rightarrow> CBS_get_bytes cbs split)"

subsection \<open>Tags and elements\<close>

text \<open>The \<^verbatim>\<open>do ... while\<close> loop of \<^verbatim>\<open>parse_base128_integer\<close>, with the value read so far.\<close>

fun parse_base128_loop :: "u64 \<Rightarrow> cbs \<Rightarrow> (u64 \<times> cbs) option" where
  "parse_base128_loop v [] = None"
| "parse_base128_loop v (b # cbs) =
     (if drop_bit (64 - 7) v \<noteq> 0 then None
      else if v = 0 \<and> b = 0x80 then None
      else let v' = push_bit 7 v OR ucast (b AND 0x7f)
           in if b AND 0x80 \<noteq> 0 then parse_base128_loop v' cbs else Some (v', cbs))"

definition parse_base128_integer :: "cbs \<Rightarrow> (u64 \<times> cbs) option" where
  "parse_base128_integer cbs = parse_base128_loop 0 cbs"

definition parse_asn1_tag :: "cbs \<Rightarrow> (u32 \<times> cbs) option" where
  "parse_asn1_tag cbs =
     (case CBS_get_u8 cbs of
        None \<Rightarrow> None
      | Some (tag_byte, cbs1) \<Rightarrow>
          (let tag = push_bit CBS_ASN1_TAG_SHIFT (ucast tag_byte AND 0xe0);
               tag_number = ucast (tag_byte AND 0x1f)
           in if tag_number = 0x1f
              then (case parse_base128_integer cbs1 of
                      None \<Rightarrow> None
                    | Some (v, cbs2) \<Rightarrow>
                        if ucast CBS_ASN1_TAG_NUMBER_MASK < v \<or> v < 0x1f then None
                        else Some (tag OR ucast v, cbs2))
              else Some (tag OR tag_number, cbs1)))"

text \<open>The result is the element (header included), its tag, the length of its header and
  whether a BER-only form was seen.\<close>

definition cbs_get_any_asn1_element ::
    "cbs \<Rightarrow> bool \<Rightarrow> ((cbs \<times> u32 \<times> nat \<times> bool) \<times> cbs) option" where
  "cbs_get_any_asn1_element cbs ber_ok =
     (case parse_asn1_tag cbs of
        None \<Rightarrow> None
      | Some (tag, header1) \<Rightarrow>
     (case CBS_get_u8 header1 of
        None \<Rightarrow> None
      | Some (length_byte, header) \<Rightarrow>
     (let header_len = CBS_len cbs - CBS_len header
      in if length_byte AND 0x80 = 0
         then (case CBS_get_bytes cbs (size_add (unat length_byte) header_len) of
                 None \<Rightarrow> None
               | Some (out, cbs') \<Rightarrow> Some ((out, tag, header_len, False), cbs'))
         else
         (let num_bytes = unat (length_byte AND 0x7f)
          in if ber_ok \<and> tag AND CBS_ASN1_CONSTRUCTED \<noteq> 0 \<and> num_bytes = 0
             then (case CBS_get_bytes cbs header_len of
                     None \<Rightarrow> None
                   | Some (out, cbs') \<Rightarrow> Some ((out, tag, header_len, True), cbs'))
             else if num_bytes = 0 \<or> 4 < num_bytes then None
             else
             (case cbs_get_u header num_bytes of
                None \<Rightarrow> None
              | Some (len64, _) \<Rightarrow>
                  if len64 < 128 \<and> \<not> ber_ok then None
                  else if drop_bit ((num_bytes - 1) * 8) len64 = 0 \<and> \<not> ber_ok then None
                  else
                  (let ber_found = (len64 < 128 \<or> drop_bit ((num_bytes - 1) * 8) len64 = 0);
                       len = unat len64
                   in if size_add (size_add len header_len) num_bytes < len then None
                      else
                      (case CBS_get_bytes cbs (size_add len (size_add header_len num_bytes)) of
                         None \<Rightarrow> None
                       | Some (out, cbs') \<Rightarrow>
                           Some ((out, tag, size_add header_len num_bytes, ber_found), cbs'))))))))"

definition CBS_get_any_asn1_element :: "cbs \<Rightarrow> ((cbs \<times> u32 \<times> nat) \<times> cbs) option" where
  "CBS_get_any_asn1_element cbs =
     (case cbs_get_any_asn1_element cbs False of
        None \<Rightarrow> None
      | Some ((out, tag, header_len, _), cbs') \<Rightarrow> Some ((out, tag, header_len), cbs'))"

definition CBS_get_any_ber_asn1_element :: "cbs \<Rightarrow> ((cbs \<times> u32 \<times> nat \<times> bool) \<times> cbs) option" where
  "CBS_get_any_ber_asn1_element cbs = cbs_get_any_asn1_element cbs True"

definition CBS_get_any_asn1 :: "cbs \<Rightarrow> ((cbs \<times> u32) \<times> cbs) option" where
  "CBS_get_any_asn1 cbs =
     (case CBS_get_any_asn1_element cbs of
        None \<Rightarrow> None
      | Some ((out, tag, header_len), cbs') \<Rightarrow>
          (case CBS_skip out header_len of None \<Rightarrow> None | Some out' \<Rightarrow> Some ((out', tag), cbs')))"

definition cbs_get_asn1 :: "cbs \<Rightarrow> u32 \<Rightarrow> bool \<Rightarrow> (cbs \<times> cbs) option" where
  "cbs_get_asn1 cbs tag_value skip_header =
     (case CBS_get_any_asn1_element cbs of
        None \<Rightarrow> None
      | Some ((out, tag, header_len), cbs') \<Rightarrow>
          if tag \<noteq> tag_value then None
          else if skip_header
          then (case CBS_skip out header_len of None \<Rightarrow> None | Some out' \<Rightarrow> Some (out', cbs'))
          else Some (out, cbs'))"

definition CBS_get_asn1 :: "cbs \<Rightarrow> u32 \<Rightarrow> (cbs \<times> cbs) option" where
  "CBS_get_asn1 cbs tag_value = cbs_get_asn1 cbs tag_value True"

definition CBS_get_asn1_element :: "cbs \<Rightarrow> u32 \<Rightarrow> (cbs \<times> cbs) option" where
  "CBS_get_asn1_element cbs tag_value = cbs_get_asn1 cbs tag_value False"

definition CBS_peek_asn1_tag :: "cbs \<Rightarrow> u32 \<Rightarrow> bool" where
  "CBS_peek_asn1_tag cbs tag_value =
     (if CBS_len cbs < 1 then False
      else case parse_asn1_tag cbs of
             None \<Rightarrow> False
           | Some (actual_tag, _) \<Rightarrow> tag_value = actual_tag)"

subsection \<open>Values\<close>

text \<open>The result is whether the contents are a valid INTEGER and whether it is negative; the C
  leaves \<^verbatim>\<open>*out_is_negative\<close> unset for empty contents.\<close>

definition CBS_is_valid_asn1_integer :: "cbs \<Rightarrow> bool \<times> bool" where
  "CBS_is_valid_asn1_integer cbs =
     (case CBS_get_u8 cbs of
        None \<Rightarrow> (False, False)
      | Some (first_byte, copy) \<Rightarrow>
          (let is_negative = (first_byte AND 0x80 \<noteq> 0)
           in case CBS_get_u8 copy of
                None \<Rightarrow> (True, is_negative)
              | Some (second_byte, _) \<Rightarrow>
                  if (first_byte = 0x00 \<and> second_byte AND 0x80 = 0) \<or>
                     (first_byte = 0xff \<and> second_byte AND 0x80 \<noteq> 0)
                  then (False, is_negative)
                  else (True, is_negative)))"

definition CBS_is_unsigned_asn1_integer :: "cbs \<Rightarrow> bool" where
  "CBS_is_unsigned_asn1_integer cbs =
     (case CBS_is_valid_asn1_integer cbs of (ok, is_negative) \<Rightarrow> ok \<and> \<not> is_negative)"

fun asn1_uint64_loop :: "u64 \<Rightarrow> u8 list \<Rightarrow> u64 option" where
  "asn1_uint64_loop out [] = Some out"
| "asn1_uint64_loop out (b # data) =
     (if drop_bit 56 out \<noteq> 0 then None else asn1_uint64_loop (push_bit 8 out OR ucast b) data)"

definition CBS_get_asn1_uint64 :: "cbs \<Rightarrow> (u64 \<times> cbs) option" where
  "CBS_get_asn1_uint64 cbs =
     (case CBS_get_asn1 cbs CBS_ASN1_INTEGER of
        None \<Rightarrow> None
      | Some (bytes, cbs') \<Rightarrow>
          if \<not> CBS_is_unsigned_asn1_integer bytes then None
          else case asn1_uint64_loop 0 bytes of None \<Rightarrow> None | Some out \<Rightarrow> Some (out, cbs'))"

text \<open>The union of \<^verbatim>\<open>CBS_get_asn1_int64\<close> on a little-endian machine: the value of eight bytes,
  least significant first.\<close>

definition le64 :: "u8 list \<Rightarrow> u64" where
  "le64 bs = foldr (\<lambda>b acc. push_bit 8 acc OR ucast b) bs 0"

definition CBS_get_asn1_int64 :: "cbs \<Rightarrow> (u64 \<times> cbs) option" where
  "CBS_get_asn1_int64 cbs =
     (case CBS_get_asn1 cbs CBS_ASN1_INTEGER of
        None \<Rightarrow> None
      | Some (bytes, cbs') \<Rightarrow>
          (case CBS_is_valid_asn1_integer bytes of
             (ok, is_negative) \<Rightarrow>
               if \<not> ok then None
               else if 8 < length bytes then None
               else Some (le64 (rev bytes @ replicate (8 - length bytes) (if is_negative then 0xff else 0)), cbs')))"

definition CBS_get_asn1_bool :: "cbs \<Rightarrow> (bool \<times> cbs) option" where
  "CBS_get_asn1_bool cbs =
     (case CBS_get_asn1 cbs CBS_ASN1_BOOLEAN of
        None \<Rightarrow> None
      | Some (bytes, cbs') \<Rightarrow>
          if CBS_len bytes \<noteq> 1 then None
          else let v = hd bytes
               in if v \<noteq> 0 \<and> v \<noteq> 0xff then None else Some (v \<noteq> 0, cbs'))"

text \<open>The first component is \<^verbatim>\<open>out\<close>, set only when the element is present.\<close>

definition CBS_get_optional_asn1 :: "cbs \<Rightarrow> u32 \<Rightarrow> (cbs option \<times> cbs) option" where
  "CBS_get_optional_asn1 cbs tag =
     (if CBS_peek_asn1_tag cbs tag
      then (case CBS_get_asn1 cbs tag of None \<Rightarrow> None | Some (out, cbs') \<Rightarrow> Some (Some out, cbs'))
      else Some (None, cbs))"

definition CBS_get_optional_asn1_octet_string :: "cbs \<Rightarrow> u32 \<Rightarrow> ((cbs \<times> bool) \<times> cbs) option" where
  "CBS_get_optional_asn1_octet_string cbs tag =
     (case CBS_get_optional_asn1 cbs tag of
        None \<Rightarrow> None
      | Some (Some child, cbs') \<Rightarrow>
          (case CBS_get_asn1 child CBS_ASN1_OCTETSTRING of
             None \<Rightarrow> None
           | Some (out, child') \<Rightarrow> if CBS_len child' \<noteq> 0 then None else Some ((out, True), cbs'))
      | Some (None, cbs') \<Rightarrow> Some (([], False), cbs'))"

definition CBS_get_optional_asn1_uint64 :: "cbs \<Rightarrow> u32 \<Rightarrow> u64 \<Rightarrow> (u64 \<times> cbs) option" where
  "CBS_get_optional_asn1_uint64 cbs tag default_value =
     (case CBS_get_optional_asn1 cbs tag of
        None \<Rightarrow> None
      | Some (Some child, cbs') \<Rightarrow>
          (case CBS_get_asn1_uint64 child of
             None \<Rightarrow> None
           | Some (out, child') \<Rightarrow> if CBS_len child' \<noteq> 0 then None else Some (out, cbs'))
      | Some (None, cbs') \<Rightarrow> Some (default_value, cbs'))"

text \<open>The output is an \<^verbatim>\<open>int\<close>: zero, one or the caller's default.\<close>

definition CBS_get_optional_asn1_bool :: "cbs \<Rightarrow> u32 \<Rightarrow> int \<Rightarrow> (int \<times> cbs) option" where
  "CBS_get_optional_asn1_bool cbs tag default_value =
     (case CBS_get_optional_asn1 cbs tag of
        None \<Rightarrow> None
      | Some (Some child, cbs') \<Rightarrow>
          (case CBS_get_asn1 child CBS_ASN1_BOOLEAN of
             None \<Rightarrow> None
           | Some (child2, child') \<Rightarrow>
               if CBS_len child2 \<noteq> 1 \<or> CBS_len child' \<noteq> 0 then None
               else let b = CBS_data child2 ! 0
                    in if b = 0 then Some (0, cbs') else if b = 0xff then Some (1, cbs') else None)
      | Some (None, cbs') \<Rightarrow> Some (default_value, cbs'))"

definition CBS_is_valid_asn1_bitstring :: "cbs \<Rightarrow> bool" where
  "CBS_is_valid_asn1_bitstring cbs =
     (case CBS_get_u8 cbs of
        None \<Rightarrow> False
      | Some (num_unused_bits, in1) \<Rightarrow>
          if 7 < num_unused_bits then False
          else if num_unused_bits = 0 then True
          else case CBS_get_last_u8 in1 of
                 None \<Rightarrow> False
               | Some (last_byte, _) \<Rightarrow>
                   last_byte AND (push_bit (unat num_unused_bits) 1 - 1) = 0)"

definition CBS_asn1_bitstring_has_bit :: "cbs \<Rightarrow> u32 \<Rightarrow> bool" where
  "CBS_asn1_bitstring_has_bit cbs bit_index =
     (if \<not> CBS_is_valid_asn1_bitstring cbs then False
      else let byte_num = unat (drop_bit 3 bit_index + 1); bit_num = unat (7 - (bit_index AND 7))
           in byte_num < CBS_len cbs \<and> CBS_data cbs ! byte_num AND push_bit bit_num 1 \<noteq> 0)"

section \<open>The parser against the wire format\<close>

subsection \<open>Big-endian integers\<close>

lemma cbs_get_u_loop_eq:
  "cbs_get_u_loop r data = r * 256 ^ length data + of_nat (be_nat data)"
proof (induction data arbitrary: r)
  case Nil
  show ?case by simp
next
  case (Cons b data)
  have "push_bit 8 r OR ucast b = r * 256 + of_nat (unat b)"
    using word_shift_or [of "ucast b :: u64" 8 r] by simp
  then have "cbs_get_u_loop r (b # data)
      = (r * 256 + of_nat (unat b)) * 256 ^ length data + of_nat (be_nat data)"
    using Cons [of "push_bit 8 r OR ucast b"] by (simp only: cbs_get_u_loop.simps)
  also have "\<dots> = r * 256 ^ length (b # data) + of_nat (be_nat (b # data))"
    by (simp only: be_nat_Cons of_nat_add of_nat_mult of_nat_power of_nat_numeral distrib_right
        mult.assoc add.assoc length_Cons power_Suc)
  finally show ?case .
qed

lemma be_nat_u64_bound: "length bs \<le> 8 \<Longrightarrow> be_nat bs < 2 ^ 64"
proof -
  assume "length bs \<le> 8"
  then have "(256::nat) ^ length bs \<le> 256 ^ 8" by (intro power_increasing) simp_all
  with be_nat_bound [of bs] show ?thesis by simp
qed

lemma unat_cbs_get_u_loop: "length data \<le> 8 \<Longrightarrow> unat (cbs_get_u_loop 0 data) = be_nat data"
  using be_nat_u64_bound [of data] by (simp add: cbs_get_u_loop_eq unat_of_nat)

lemma cbs_get_append [simp]: "length a = n \<Longrightarrow> cbs_get (a @ b) n = Some (a, b)"
  by (simp add: cbs_get_def)

lemma cbs_get_SomeD: "cbs_get s n = Some (a, b) \<Longrightarrow> s = a @ b \<and> length a = n"
  by (auto simp: cbs_get_def split: if_splits)

lemma CBS_get_u8_simps [simp]: "CBS_get_u8 [] = None" "CBS_get_u8 (b # s) = Some (b, s)"
  by (simp_all add: CBS_get_u8_def cbs_get_def)

lemma CBS_get_bytes_append [simp]: "length a = n \<Longrightarrow> CBS_get_bytes (a @ b) n = Some (a, b)"
  by (simp add: CBS_get_bytes_def CBS_init_def)

lemma CBS_get_bytes_SomeD: "CBS_get_bytes s n = Some (a, b) \<Longrightarrow> s = a @ b \<and> length a = n"
  by (auto simp: CBS_get_bytes_def CBS_init_def cbs_get_def split: if_splits)

lemma cbs_get_u_iff:
  "n \<le> 8 \<Longrightarrow> cbs_get_u s n = Some (v, r) \<longleftrightarrow> unat v < 256 ^ n \<and> s = be_bytes n (unat v) @ r"
proof
  assume n: "n \<le> 8" and "cbs_get_u s n = Some (v, r)"
  then obtain d where "cbs_get s n = Some (d, r)" and v: "v = cbs_get_u_loop 0 d"
    by (auto simp: cbs_get_u_def split: option.splits)
  then have s: "s = d @ r" and d: "length d = n" by (auto dest: cbs_get_SomeD)
  have "unat v = be_nat d" using n d by (simp add: v unat_cbs_get_u_loop)
  then show "unat v < 256 ^ n \<and> s = be_bytes n (unat v) @ r"
    using s d be_nat_bound [of d] by (simp add: be_bytes_be_nat)
next
  assume n: "n \<le> 8" and "unat v < 256 ^ n \<and> s = be_bytes n (unat v) @ r"
  then have v: "unat v < 256 ^ n" and s: "s = be_bytes n (unat v) @ r" by auto
  have "unat (cbs_get_u_loop 0 (be_bytes n (unat v))) = unat v"
    using n v by (simp add: unat_cbs_get_u_loop be_nat_be_bytes)
  then have "cbs_get_u_loop 0 (be_bytes n (unat v)) = v"
    by (simp only: word_unat_eq_iff)
  then show "cbs_get_u s n = Some (v, r)"
    by (simp add: s cbs_get_u_def)
qed

subsection \<open>Base-128 integers\<close>

lemma base128_step_unat:
  fixes v :: u64 and b :: u8
  assumes "unat v < 2 ^ 57"
  shows "unat (push_bit 7 v OR ucast (b AND 0x7f)) = unat v * 128 + unat b mod 128"
proof -
  have "unat (ucast (b AND 0x7f) :: u64) = unat b mod 128"
    by (simp only: u8_unat_ucast64 u8_and_0x7f)
  then show ?thesis
    using unat_shift_or [of "ucast (b AND 0x7f) :: u64" 7 v] assms by simp
qed

lemma drop_bit_57_iff: "drop_bit 57 (v::u64) = 0 \<longleftrightarrow> unat v < 2 ^ 57"
  using u64_bound [of v] by (simp add: word_unat_eq_iff unat_drop_bit div_eq_0_iff)

lemma parse_base128_loop_hi:
  "n < 2 ^ 57 \<Longrightarrow> parse_base128_loop 0 (base128_hi n @ t) = parse_base128_loop (of_nat n) t"
proof (induction n arbitrary: t rule: less_induct)
  case (less n)
  show ?case
  proof (cases "n = 0")
    case True
    then show ?thesis by simp
  next
    case False
    let ?b = "of_nat (128 + n mod 128) :: u8" and ?v = "of_nat (n div 128) :: u64"
    have b: "unat ?b = 128 + n mod 128" by (rule unat_of_nat_u8) simp
    have v: "unat ?v = n div 128" using less.prems by (simp add: unat_of_nat)
    have "parse_base128_loop 0 (base128_hi n @ t) = parse_base128_loop ?v (?b # t)"
      using False less.IH [of "n div 128" "?b # t"] less.prems by (simp add: base128_hi_pos)
    also have "\<dots> = parse_base128_loop (push_bit 7 ?v OR ucast (?b AND 0x7f)) t"
    proof -
      have "drop_bit 57 ?v = 0" using v less.prems by (simp add: drop_bit_57_iff)
      moreover have "\<not> (?v = 0 \<and> ?b = 0x80)"
      proof
        assume "?v = 0 \<and> ?b = 0x80"
        then have "unat ?v = 0" and "unat ?b = 128" by simp_all
        with b v False show False by auto
      qed
      moreover have "?b AND 0x80 \<noteq> 0" using b by (simp add: u8_and_0x80)
      ultimately show ?thesis by (simp only: parse_base128_loop.simps Let_def) simp
    qed
    also have "push_bit 7 ?v OR ucast (?b AND 0x7f) = (of_nat n :: u64)"
    proof -
      have "unat (push_bit 7 ?v OR ucast (?b AND 0x7f)) = n"
        using v b less.prems by (subst base128_step_unat) simp_all
      moreover have "unat (of_nat n :: u64) = n" using less.prems by (intro unat_of_nat_u64) simp
      ultimately show ?thesis by (simp only: word_unat_eq_iff)
    qed
    finally show ?thesis .
  qed
qed


lemma parse_base128_loop_last:
  fixes v :: u64
  assumes "unat v < 2 ^ 57" and "unat b < 128"
  shows "parse_base128_loop v (b # t) = Some (of_nat (unat v * 128 + unat b), t)"
proof -
  let ?v' = "push_bit 7 v OR ucast (b AND 0x7f)"
  have "unat ?v' = unat v * 128 + unat b"
    using assms by (subst base128_step_unat) simp_all
  moreover have "unat (of_nat (unat v * 128 + unat b) :: u64) = unat v * 128 + unat b"
    using assms by (intro unat_of_nat_u64) simp
  ultimately have "?v' = of_nat (unat v * 128 + unat b)" by (simp only: word_unat_eq_iff)
  moreover have "b \<noteq> 0x80" using assms(2) by auto
  moreover have "b AND 0x80 = 0" using assms(2) by (simp add: u8_and_0x80)
  ultimately show ?thesis
    using assms(1) by (simp add: drop_bit_57_iff Let_def)
qed

lemma parse_base128_complete: "parse_base128_integer (base128 (unat v) @ t) = Some (v, t)"
proof -
  let ?d = "of_nat (unat v mod 128) :: u8" and ?h = "of_nat (unat v div 128) :: u64"
  have d: "unat ?d = unat v mod 128" by (rule unat_of_nat_u8) simp
  have hb: "unat v div 128 < 2 ^ 57" using u64_bound [of v] by simp
  then have h: "unat ?h = unat v div 128" by (intro unat_of_nat_u64) simp
  have "parse_base128_integer (base128 (unat v) @ t) = parse_base128_loop ?h (?d # t)"
    by (simp only: parse_base128_integer_def base128_def append.assoc append_Cons append_Nil
        parse_base128_loop_hi [OF hb])
  also have "\<dots> = Some (of_nat (unat ?h * 128 + unat ?d), t)"
    using h d hb by (intro parse_base128_loop_last) simp_all
  also have "unat ?h * 128 + unat ?d = unat v" by (simp only: h d div_mult_mod_eq)
  finally show ?thesis by simp
qed

lemma parse_base128_loop_sound:
  "parse_base128_loop v s = Some (w, r) \<Longrightarrow>
    \<exists>p. s = p @ r \<and> base128 (unat w) = base128_hi (unat v) @ p"
proof (induction v s rule: parse_base128_loop.induct)
  case (1 v)
  then show ?case by simp
next
  case (2 v b s)
  let ?v' = "push_bit 7 v OR ucast (b AND 0x7f) :: u64"
  from "2.prems" have vb: "unat v < 2 ^ 57" and nz: "\<not> (v = 0 \<and> b = 0x80)"
    by (auto simp: drop_bit_57_iff split: if_splits)
  have v': "unat ?v' = unat v * 128 + unat b mod 128" using vb by (rule base128_step_unat)
  show ?case
  proof (cases "b AND 0x80 = 0")
    case True
    then have b: "unat b < 128" by (simp add: u8_and_0x80)
    with "2.prems" True nz vb have "w = ?v'" "r = s"
      by (auto simp: drop_bit_57_iff Let_def split: if_splits)
    moreover have "base128 (unat ?v') = base128_hi (unat v) @ [b]"
      using v' b by (simp add: base128_step)
    ultimately show ?thesis by auto
  next
    case False
    then have b: "128 \<le> unat b" by (simp add: u8_and_0x80)
    from "2.prems" False nz vb have rec: "parse_base128_loop ?v' s = Some (w, r)"
      by (auto simp: drop_bit_57_iff Let_def split: if_splits)
    with 2 False nz vb obtain p where p: "s = p @ r" "base128 (unat w) = base128_hi (unat ?v') @ p"
      by (auto simp: drop_bit_57_iff)
    have bm: "128 + unat b mod 128 = unat b" using b u8_bound [of b]
      by (metis le_add_diff_inverse mod_less mod_add_self1 add_less_cancel_left numeral_Bit0)
    have "base128_hi (unat ?v') = base128_hi (unat v) @ [of_nat (128 + unat b mod 128)]"
    proof -
      have "0 < unat v * 128 + unat b mod 128"
      proof (rule ccontr)
        assume "\<not> 0 < unat v * 128 + unat b mod 128"
        then have "unat v = 0" and "unat b = 128" using bm by auto
        then have "v = 0" and "b = 0x80" by (simp_all add: word_unat_eq_iff)
        with nz show False by simp
      qed
      then show ?thesis by (simp only: v') (intro base128_hi_step, simp_all)
    qed
    with p bm show ?thesis by auto
  qed
qed

lemma parse_base128_iff:
  "parse_base128_integer s = Some (v, r) \<longleftrightarrow> s = base128 (unat v) @ r"
proof
  assume "parse_base128_integer s = Some (v, r)"
  then show "s = base128 (unat v) @ r"
    by (auto simp: parse_base128_integer_def dest!: parse_base128_loop_sound)
qed (simp add: parse_base128_complete)

subsection \<open>Identifier octets\<close>

lemma u8_class_bits: "unat (ucast (b::u8) AND 0xe0 :: u32) = unat b div 32 * 32"
proof -
  have "(0xe0 :: u32) = push_bit 5 (mask 3)" by (simp add: mask_eq_exp_minus_1 push_bit_eq_mult)
  then have "unat (ucast b AND 0xe0 :: u32) = (unat b div 32 mod 8) * 32"
    by (simp only: unat_and_push_mask) simp
  moreover have "unat b div 32 < 8" using u8_bound [of b] by (simp add: less_mult_imp_div_less)
  ultimately show ?thesis by simp
qed

lemma u8_number_bits: "unat (b AND 0x1f) = unat (b::u8) mod 32"
proof -
  have "(0x1f :: u8) = mask 5" by (simp add: mask_eq_exp_minus_1)
  then show ?thesis by (simp only: unat_and_mask) simp
qed

lemma tag_or_unat:
  fixes b :: u8 and k :: u32
  assumes "unat k < 2 ^ 29"
  shows "unat (push_bit CBS_ASN1_TAG_SHIFT (ucast b AND 0xe0) OR k) = unat b div 32 * 2 ^ 29 + unat k"
proof -
  have c: "unat b div 32 < 8" using u8_bound [of b] by (simp add: less_mult_imp_div_less)
  have "push_bit CBS_ASN1_TAG_SHIFT (ucast b AND 0xe0) = push_bit 29 (of_nat (unat b div 32) :: u32)"
  proof -
    have "unat (push_bit 24 (ucast b AND 0xe0 :: u32)) = unat b div 32 * 32 * 2 ^ 24"
      using c by (subst unat_push_bit_less) (simp_all only: u8_class_bits, simp_all)
    moreover have "unat (push_bit 29 (of_nat (unat b div 32) :: u32)) = unat b div 32 * 2 ^ 29"
    proof -
      have "unat (of_nat (unat b div 32) :: u32) = unat b div 32"
        using c by (intro unat_of_nat_u32) simp
      with c show ?thesis by (subst unat_push_bit_less) simp_all
    qed
    ultimately show ?thesis by (simp only: word_unat_eq_iff CBS_ASN1_TAG_SHIFT_def) simp
  qed
  moreover have "unat (of_nat (unat b div 32) :: u32) = unat b div 32"
    using c by (intro unat_of_nat_u32) simp
  ultimately show ?thesis
    using unat_shift_or [of k 29 "of_nat (unat b div 32)"] assms c by simp
qed

lemma tag_number_mask: "unat (ucast CBS_ASN1_TAG_NUMBER_MASK :: u64) = 2 ^ 29 - 1"
  by (simp add: CBS_ASN1_TAG_NUMBER_MASK_def CBS_ASN1_TAG_SHIFT_def push_bit_eq_mult)

lemma tag_class_num:
  "\<lbrakk>unat t = c * 2 ^ 29 + k; k < 2 ^ 29\<rbrakk> \<Longrightarrow> tag_class t = c \<and> tag_num t = k"
  by (simp add: tag_class_def tag_num_def)

lemma u8_split: "of_nat (unat b div 32 * 32 + unat b mod 32) = (b::u8)"
  by (simp only: div_mult_mod_eq) simp

lemma parse_asn1_tag_sound: "parse_asn1_tag s = Some (t, r) \<Longrightarrow> s = der_tag t @ r"
proof -
  assume a: "parse_asn1_tag s = Some (t, r)"
  then obtain b s1 where s: "s = b # s1" by (cases s) (auto simp: parse_asn1_tag_def)
  have nb: "(ucast (b AND 0x1f) :: u32) = 0x1f \<longleftrightarrow> unat b mod 32 = 31"
    using u8_number_bits [of b] by (simp add: word_unat_eq_iff)
  show ?thesis
  proof (cases "unat b mod 32 = 31")
    case True
    with a s nb obtain v where p: "parse_base128_integer s1 = Some (v, r)"
      and lo: "\<not> v < 0x1f" and hi: "\<not> ucast CBS_ASN1_TAG_NUMBER_MASK < v"
      and t: "t = push_bit CBS_ASN1_TAG_SHIFT (ucast b AND 0xe0) OR ucast v"
      by (auto simp: parse_asn1_tag_def Let_def split: option.splits if_splits)
    from lo have lo': "31 \<le> unat v" by (simp add: word_less_nat_alt)
    from hi have hi': "unat v < 2 ^ 29"
      using tag_number_mask by (simp add: word_less_nat_alt)
    have uv: "unat (ucast v :: u32) = unat v" using hi' by (simp add: unat_ucast)
    with tag_or_unat [of "ucast v" b] hi' have "unat t = unat b div 32 * 2 ^ 29 + unat v"
      by (simp add: t)
    with hi' have "tag_class t = unat b div 32" "tag_num t = unat v"
      using tag_class_num by blast+
    with lo' True u8_split [of b] have "der_tag t = b # base128 (unat v)"
      by (simp add: der_tag_def)
    with p s show ?thesis by (simp add: parse_base128_iff)
  next
    case False
    with a s nb have r: "r = s1"
      and t: "t = push_bit CBS_ASN1_TAG_SHIFT (ucast b AND 0xe0) OR ucast (b AND 0x1f)"
      by (auto simp: parse_asn1_tag_def Let_def split: if_splits)
    have uk: "unat (ucast (b AND 0x1f) :: u32) = unat b mod 32" by (simp only: u8_unat_ucast32 u8_number_bits)
    have "unat b mod 32 < 32" by simp
    with tag_or_unat [of "ucast (b AND 0x1f)" b] uk have "unat t = unat b div 32 * 2 ^ 29 + unat b mod 32"
      by (simp add: t)
    with \<open>unat b mod 32 < 32\<close> have "tag_class t = unat b div 32" "tag_num t = unat b mod 32"
      using tag_class_num [of t "unat b div 32" "unat b mod 32"] by simp_all
    with False \<open>unat b mod 32 < 32\<close> u8_split [of b] have "der_tag t = [b]"
      by (simp add: der_tag_def)
    with s r show ?thesis by simp
  qed
qed

lemma parse_asn1_tag_complete: "parse_asn1_tag (der_tag t @ r) = Some (t, r)"
proof -
  have c: "tag_class t < 8" by (rule tag_class_less)
  have n: "tag_num t < 2 ^ 29" by (rule tag_num_less)
  show ?thesis
  proof (cases "tag_num t < 31")
    case True
    define b :: u8 where "b = of_nat (tag_class t * 32 + tag_num t)"
    have b: "unat b = tag_class t * 32 + tag_num t"
      unfolding b_def using c True by (intro unat_of_nat_u8) simp
    have uk: "unat (ucast (b AND 0x1f) :: u32) = tag_num t"
      using b True by (simp only: u8_unat_ucast32 u8_number_bits) simp
    have "push_bit CBS_ASN1_TAG_SHIFT (ucast b AND 0xe0) OR ucast (b AND 0x1f) = t"
      using tag_or_unat [of "ucast (b AND 0x1f)" b] uk b True n
      by (simp only: word_unat_eq_iff) (simp add: tag_split)
    moreover have "(ucast (b AND 0x1f) :: u32) \<noteq> 0x1f"
    proof
      assume "(ucast (b AND 0x1f) :: u32) = 0x1f"
      then have "unat (ucast (b AND 0x1f) :: u32) = 31" by simp
      with uk True show False by linarith
    qed
    moreover have "der_tag t = [b]" using True by (simp add: der_tag_def b_def)
    ultimately show ?thesis
      by (simp add: parse_asn1_tag_def Let_def)
  next
    case False
    define b :: u8 where "b = of_nat (tag_class t * 32 + 31)"
    define v :: u64 where "v = of_nat (tag_num t)"
    have b: "unat b = tag_class t * 32 + 31"
      unfolding b_def using c by (intro unat_of_nat_u8) simp
    have v: "unat v = tag_num t" unfolding v_def using n by (intro unat_of_nat_u64) simp
    have "(ucast (b AND 0x1f) :: u32) = 0x1f"
      using u8_number_bits [of b] b by (simp add: word_unat_eq_iff)
    moreover have "\<not> v < 0x1f" using v False by (simp add: word_less_nat_alt)
    moreover have "\<not> ucast CBS_ASN1_TAG_NUMBER_MASK < v"
      using v n tag_number_mask by (simp add: word_less_nat_alt)
    moreover have "push_bit CBS_ASN1_TAG_SHIFT (ucast b AND 0xe0) OR ucast v = t"
    proof -
      have "unat (ucast v :: u32) = tag_num t" using v n by (simp add: unat_ucast)
      then show ?thesis using tag_or_unat [of "ucast v" b] b n
        by (simp only: word_unat_eq_iff) (simp add: tag_split)
    qed
    moreover have "der_tag t = b # base128 (unat v)" using False by (simp add: der_tag_def b_def v)
    ultimately show ?thesis
      by (simp add: parse_asn1_tag_def Let_def parse_base128_complete)
  qed
qed

lemma parse_asn1_tag_iff: "parse_asn1_tag s = Some (t, r) \<longleftrightarrow> s = der_tag t @ r"
  using parse_asn1_tag_sound parse_asn1_tag_complete by auto

subsection \<open>Elements\<close>

lemma length_base128_hi: "n < 128 ^ k \<Longrightarrow> length (base128_hi n) \<le> k"
proof (induction k arbitrary: n)
  case 0
  then show ?case by simp
next
  case (Suc k)
  then have "n div 128 < 128 ^ k" by (simp add: less_mult_imp_div_less mult.commute)
  with Suc.IH [of "n div 128"] show ?case by (cases "n = 0") (simp_all add: base128_hi_pos)
qed

lemma length_der_tag: "length (der_tag t) \<le> 6"
proof -
  have "tag_num t div 128 < 128 ^ 4" using tag_num_less [of t] by simp
  from length_base128_hi [OF this] show ?thesis by (simp add: der_tag_def base128_def)
qed

lemma length_der_length: "n < 2 ^ 32 \<Longrightarrow> length (der_length n) \<le> 5"
  using byte_len_le_iff [of n 4] by (simp add: der_length_def)

lemma length_der_header: "n < 2 ^ 32 \<Longrightarrow> length (der_header t n) \<le> 11"
  using length_der_tag [of t] length_der_length [of n] by (simp add: der_header_def)

text \<open>One step of the parser behind a well-formed tag: the two forms of the length.\<close>

lemma get_element_short:
  assumes "unat lb < 128"
  shows "cbs_get_any_asn1_element (der_tag t @ lb # h) ber_ok =
    (if length h < unat lb then None
     else Some ((der_tag t @ lb # take (unat lb) h, t, Suc (length (der_tag t)), False), drop (unat lb) h))"
proof -
  have hl: "CBS_len (der_tag t @ lb # h) - CBS_len h = Suc (length (der_tag t))"
    by (simp add: CBS_len_def)
  have sz: "size_add (unat lb) (Suc (length (der_tag t))) = unat lb + (Suc (length (der_tag t)))"
    using assms length_der_tag [of t] by (intro size_add_eq) (simp add: SIZE_MAX_1_def)
  show ?thesis
    using assms
    by (simp add: cbs_get_any_asn1_element_def parse_asn1_tag_complete Let_def hl sz u8_and_0x80
        CBS_get_bytes_def cbs_get_def CBS_init_def)
qed

lemma der_length_long:
  assumes "be_nat lb < 2 ^ 32" and "128 \<le> be_nat lb" and "256 ^ (length lb - 1) \<le> be_nat lb"
  shows "der_length (be_nat lb) = of_nat (128 + length lb) # lb"
proof -
  have l: "0 < length lb" using assms(2) by (cases lb) simp_all
  then have "byte_len (be_nat lb) = length lb"
    using assms(3) be_nat_bound [of lb] byte_len_eqI [of "be_nat lb" "length lb - 1"] by simp
  with assms(2) show ?thesis by (simp add: der_length_def be_bytes_be_nat)
qed

lemma get_element_long:
  assumes "128 \<le> unat lb" and k: "k = unat lb - 128"
  shows "cbs_get_any_asn1_element (der_tag t @ lb # h) False =
    (if k = 0 \<or> 4 < k \<or> length h < k then None
     else let n = be_nat (take k h) in
       if n < 128 \<or> n < 256 ^ (k - 1) \<or> length h < k + n then None
       else Some ((der_tag t @ lb # take (k + n) h, t, Suc (length (der_tag t) + k), False), drop (k + n) h))"
proof -
  let ?s = "der_tag t @ lb # h"
  have nb: "unat (lb AND 0x7f) = k"
  proof -
    have "unat lb - 128 < 128" using u8_bound [of lb] by linarith
    with assms show ?thesis by (simp add: u8_and_0x7f le_mod_geq)
  qed
  have nz: "lb AND 0x80 \<noteq> 0" using assms(1) by (simp add: u8_and_0x80)
  show ?thesis
  proof (cases "k = 0 \<or> 4 < k \<or> length h < k")
    case True
    then show ?thesis using nb nz
      by (auto simp: cbs_get_any_asn1_element_def parse_asn1_tag_complete Let_def cbs_get_u_def cbs_get_def)
  next
    case False
    define d where "d = take k h"
    define n where "n = be_nat d"
    have ld: "length d = k" using False by (simp add: d_def)
    have nb32: "n < 2 ^ 32"
    proof -
      have "(256::nat) ^ k \<le> 256 ^ 4" using False by (intro power_increasing) simp_all
      with be_nat_bound [of d] ld show ?thesis by (simp add: n_def)
    qed
    have u: "unat (cbs_get_u_loop 0 d) = n" using False ld by (simp add: unat_cbs_get_u_loop n_def)
    have dz: "drop_bit ((k - Suc 0) * 8) (cbs_get_u_loop 0 d) = 0 \<longleftrightarrow> n < 256 ^ (k - Suc 0)"
    proof -
      have "(2::nat) ^ ((k - Suc 0) * 8) = 256 ^ (k - Suc 0)"
        using power_mult [of "2::nat" 8 "k - Suc 0"] by (simp add: mult.commute)
      then show ?thesis by (simp add: word_unat_eq_iff unat_drop_bit u div_eq_0_iff)
    qed
    have lt: "cbs_get_u_loop 0 d < 128 \<longleftrightarrow> n < 128" by (simp add: word_less_nat_alt u)
    define H where "H = Suc (length (der_tag t))"
    have hH: "CBS_len ?s - CBS_len h = H" by (simp add: CBS_len_def H_def)
    have H: "H \<le> 7" using length_der_tag [of t] by (simp add: H_def)
    have sizes: "size_add H k = H + k" "size_add n (H + k) = n + (H + k)"
      "size_add n H = n + H" "size_add (n + H) k = n + H + k"
      using nb32 False H by (simp_all add: size_add_eq SIZE_MAX_1_def)
    have g: "cbs_get_u h k = Some (cbs_get_u_loop 0 d, drop k h)"
      using False by (simp add: cbs_get_u_def cbs_get_def d_def)
    have b: "CBS_get_bytes ?s (n + (H + k)) =
        (if length h < k + n then None else Some (der_tag t @ lb # take (k + n) h, drop (k + n) h))"
      by (simp add: H_def CBS_get_bytes_def cbs_get_def CBS_init_def add.commute add.left_commute)
    have "cbs_get_any_asn1_element ?s False =
      (if n < 128 \<or> n < 256 ^ (k - Suc 0) \<or> length h < k + n then None
       else Some ((der_tag t @ lb # take (k + n) h, t, H + k, False), drop (k + n) h))"
      using False nz
      by (simp add: cbs_get_any_asn1_element_def parse_asn1_tag_complete Let_def hH nb g u dz lt sizes b)
    then show ?thesis using False by (simp add: d_def n_def H_def Let_def)
  qed
qed


lemma be_nat_u32_bound: "length bs \<le> 4 \<Longrightarrow> be_nat bs < 2 ^ 32"
proof -
  assume "length bs \<le> 4"
  then have "(256::nat) ^ length bs \<le> 256 ^ 4" by (intro power_increasing) simp_all
  with be_nat_bound [of bs] show ?thesis by simp
qed

lemma get_element_sound:
  assumes "cbs_get_any_asn1_element s False = Some ((out, t, hl, bf), r)"
  shows "\<exists>body. out = der_element t body \<and> hl = length (der_header t (length body)) \<and>
    length body < 2 ^ 32 \<and> bf = False \<and> s = der_element t body @ r"
proof -
  from assms obtain h1 where "parse_asn1_tag s = Some (t, h1)"
    by (auto simp: cbs_get_any_asn1_element_def Let_def split: option.splits prod.splits if_splits)
  then have s: "s = der_tag t @ h1" by (simp add: parse_asn1_tag_iff)
  with assms obtain lb h where h1: "h1 = lb # h"
    by (cases h1) (auto simp: cbs_get_any_asn1_element_def parse_asn1_tag_complete [of t "[]", simplified])
  show ?thesis
  proof (cases "unat lb < 128")
    case True
    let ?body = "take (unat lb) h"
    from assms have "unat lb \<le> length h" and o: "out = der_tag t @ lb # ?body"
      and "hl = Suc (length (der_tag t))" "bf = False" "r = drop (unat lb) h"
      by (simp_all add: s h1 get_element_short [OF True] split: if_splits)
    moreover have "der_length (length ?body) = [lb]"
      using True \<open>unat lb \<le> length h\<close> by (simp add: der_length_def)
    ultimately show ?thesis
      using True s h1 by (intro exI [of _ ?body]) (simp add: der_element_def der_header_def)
  next
    case False
    define k where "k = unat lb - 128"
    have k: "128 \<le> unat lb" using False by simp
    let ?l = "take k h" and ?n = "be_nat (take k h)"
    let ?body = "take ?n (drop k h)"
    from assms have k4: "k \<noteq> 0" "k \<le> 4" "k \<le> length h"
      and n: "128 \<le> ?n" "256 ^ (k - 1) \<le> ?n" "k + ?n \<le> length h"
      and o: "out = der_tag t @ lb # take (k + ?n) h" "hl = Suc (length (der_tag t) + k)" "bf = False"
      "r = drop (k + ?n) h"
      by (simp_all add: s h1 get_element_long [OF k k_def] Let_def split: if_splits)
    have lb: "length ?body = ?n" using n by simp
    have n32: "?n < 2 ^ 32" using k4 by (intro be_nat_u32_bound) simp
    have "der_length ?n = of_nat (128 + length ?l) # ?l"
      using n32 n k4 by (intro der_length_long) simp_all
    moreover have "(of_nat (128 + length ?l) :: u8) = lb" 
    proof -
      have "128 + length ?l = unat lb" using k k4 by (simp add: k_def)
      then show ?thesis by simp
    qed
    ultimately have dl: "der_length (length ?body) = lb # ?l" using lb by simp
    have "h = take (k + ?n) h @ r" by (simp add: o)
    then have "h = ?l @ ?body @ r" by (simp only: take_add append.assoc)
    moreover have "out = der_element t ?body"
      by (simp only: der_element_def der_header_def dl o take_add) simp
    ultimately show ?thesis
      using s h1 o n32 lb dl k4 by (intro exI [of _ ?body])
        (simp add: der_element_def der_header_def)
  qed
qed

lemma get_element_complete:
  assumes "length body < 2 ^ 32"
  shows "cbs_get_any_asn1_element (der_element t body @ r) False =
    Some ((der_element t body, t, length (der_header t (length body)), False), r)"
proof (cases "length body < 128")
  case True
  define lb :: u8 where "lb = of_nat (length body)"
  have lb: "unat lb = length body" unfolding lb_def using True by (intro unat_of_nat_u8) simp
  have e: "der_element t body = der_tag t @ lb # body"
    using True by (simp add: der_element_def der_header_def der_length_def lb_def)
  have l: "length (der_header t (length body)) = Suc (length (der_tag t))"
    using True by (simp add: der_header_def der_length_def)
  show ?thesis
    using get_element_short [of lb t "body @ r" False] True
    by (simp add: e l lb)
next
  case False
  define k where "k = byte_len (length body)"
  define lb :: u8 where "lb = of_nat (128 + k)"
  define l where "l = be_bytes k (length body)"
  have k4: "k \<le> 4" using assms by (simp add: k_def byte_len_le_iff)
  have k0: "k \<noteq> 0" using False byte_len_le_iff [of "length body" 0] by (auto simp: k_def)
  have lb: "unat lb = 128 + k" unfolding lb_def using k4 by (intro unat_of_nat_u8) simp
  have ll: "length l = k" by (simp add: l_def)
  have lv: "be_nat l = length body"
    using byte_len_le_iff [of "length body" k] by (simp add: l_def be_nat_be_bytes k_def)
  have low: "256 ^ (k - 1) \<le> length body"
    using k0 byte_len_less_iff [of "k - 1" "length body"] by (simp add: k_def)
  have e: "der_element t body = der_tag t @ lb # l @ body"
    using False by (simp add: der_element_def der_header_def der_length_def lb_def l_def k_def)
  have hl: "length (der_header t (length body)) = Suc (length (der_tag t) + k)"
    using False by (simp add: der_header_def der_length_def k_def)
  have "128 \<le> unat lb" "k = unat lb - 128" using lb by simp_all
  from get_element_long [OF this, of t "l @ body @ r"] show ?thesis
    using k0 k4 low False ll lv by (simp add: e hl Let_def)
qed

lemma CBS_get_any_asn1_element_iff:
  "CBS_get_any_asn1_element s = Some ((out, t, hl), r) \<longleftrightarrow>
    (\<exists>body. length body < 2 ^ 32 \<and> out = der_element t body \<and>
      hl = length (der_header t (length body)) \<and> s = der_element t body @ r)"
  (is "?L \<longleftrightarrow> ?R")
proof
  assume ?L
  then obtain bf where "cbs_get_any_asn1_element s False = Some ((out, t, hl, bf), r)"
    by (auto simp: CBS_get_any_asn1_element_def split: option.splits)
  from get_element_sound [OF this] show ?R by auto
next
  assume ?R
  then show ?L by (auto simp: CBS_get_any_asn1_element_def get_element_complete)
qed

lemma CBS_get_asn1_iff:
  "CBS_get_asn1 s t = Some (body, r) \<longleftrightarrow> length body < 2 ^ 32 \<and> s = der_element t body @ r"
  (is "?L \<longleftrightarrow> ?R")
proof
  assume ?L
  then obtain out hl where e: "CBS_get_any_asn1_element s = Some ((out, t, hl), r)"
    and "CBS_skip out hl = Some body"
    by (auto simp: CBS_get_asn1_def cbs_get_asn1_def split: option.splits if_splits)
  then have b: "body = drop hl out"
    by (auto simp: CBS_skip_def cbs_get_def split: option.splits if_splits)
  from e obtain body' where b': "length body' < 2 ^ 32" "out = der_element t body'"
    "hl = length (der_header t (length body'))" "s = der_element t body' @ r"
    by (auto simp: CBS_get_any_asn1_element_iff)
  then have "body = body'" using b by (simp add: der_element_def)
  with b' show ?R by simp
next
  assume ?R
  then have "CBS_get_any_asn1_element s =
      Some ((der_element t body, t, length (der_header t (length body))), r)"
    by (auto simp: CBS_get_any_asn1_element_iff)
  then show ?L
    by (simp add: CBS_get_asn1_def cbs_get_asn1_def CBS_skip_def cbs_get_def der_element_def)
qed

subsection \<open>INTEGER and BOOLEAN values\<close>

lemma be_nat_lower: "bs \<noteq> [] \<Longrightarrow> unat (hd bs) * 256 ^ (length bs - 1) \<le> be_nat bs"
  by (cases bs) (simp_all add: be_nat_Cons)

lemma be_bytes_minimal:
  assumes "bs \<noteq> []" and "hd bs \<noteq> 0"
  shows "byte_len (be_nat bs) = length bs \<and> be_bytes (byte_len (be_nat bs)) (be_nat bs) = bs"
proof -
  have "1 \<le> unat (hd bs)" using assms(2) by (simp add: Suc_le_eq unat_gt_0)
  then have "256 ^ (length bs - 1) \<le> unat (hd bs) * 256 ^ (length bs - 1)" by simp
  also have "\<dots> \<le> be_nat bs" using assms(1) by (rule be_nat_lower)
  finally have "byte_len (be_nat bs) = length bs"
    using be_nat_bound [of bs] assms(1) byte_len_eqI [of "be_nat bs" "length bs - 1"] by (cases bs) simp_all
  then show ?thesis by (simp add: be_bytes_be_nat)
qed

lemma hd_be_bytes_byte_len:
  assumes "0 < v"
  shows "hd (be_bytes (byte_len v) v) \<noteq> 0"
proof
  let ?bs = "be_bytes (byte_len v) v"
  assume z: "hd ?bs = 0"
  have v: "be_nat ?bs = v" using byte_len_le_iff [of v "byte_len v"] by (simp add: be_nat_be_bytes)
  obtain k where k: "byte_len v = Suc k" using assms by (simp add: byte_len_pos)
  then obtain b t where bs: "?bs = b # t" by (metis length_be_bytes length_Suc_conv)
  then have "length t = k" using k by (metis length_be_bytes length_Cons nat.inject)
  with z bs v have "v < 256 ^ k" using be_nat_bound [of t] by (simp add: be_nat_Cons)
  with byte_len_le_iff [of v k] k show False by simp
qed

lemma be_nat_der_uint [simp]: "be_nat (der_uint v) = v"
  using byte_len_le_iff [of v "byte_len v"]
  by (auto simp: der_uint_def be_nat_Cons be_nat_be_bytes)

lemma is_unsigned_Cons:
  "CBS_is_unsigned_asn1_integer (b # t) \<longleftrightarrow>
    unat b < 128 \<and> (b = 0 \<longrightarrow> t = [] \<or> 128 \<le> unat (hd t))"
proof (cases t)
  case Nil
  then show ?thesis
    by (simp add: CBS_is_unsigned_asn1_integer_def CBS_is_valid_asn1_integer_def u8_and_0x80)
next
  case (Cons c u)
  have "b = 0xff \<Longrightarrow> \<not> unat b < 128" by simp
  with Cons show ?thesis
    by (auto simp: CBS_is_unsigned_asn1_integer_def CBS_is_valid_asn1_integer_def u8_and_0x80 not_less Let_def)
qed

lemma is_unsigned_Nil [simp]: "\<not> CBS_is_unsigned_asn1_integer []"
  by (simp add: CBS_is_unsigned_asn1_integer_def CBS_is_valid_asn1_integer_def)

lemma is_unsigned_der_uint [simp]: "CBS_is_unsigned_asn1_integer (der_uint v)"
proof (cases "v = 0")
  case True
  then show ?thesis by (simp add: der_uint_def is_unsigned_Cons)
next
  case False
  then obtain b t where bs: "be_bytes (byte_len v) v = b # t"
    by (cases "be_bytes (byte_len v) v") (auto dest: arg_cong [of _ _ length] simp: byte_len_pos)
  with hd_be_bytes_byte_len [of v] False have "b \<noteq> 0" by simp
  with False bs show ?thesis by (auto simp: der_uint_def is_unsigned_Cons not_le)
qed

lemma is_unsigned_canonical:
  assumes "CBS_is_unsigned_asn1_integer bs"
  shows "bs = der_uint (be_nat bs)"
proof (cases bs)
  case Nil
  with assms show ?thesis by simp
next
  case (Cons b t)
  show ?thesis
  proof (cases "b = 0")
    case True
    show ?thesis
    proof (cases "t = []")
      case False
      with assms Cons True have h: "128 \<le> unat (hd t)" by (simp add: is_unsigned_Cons)
      then have "hd t \<noteq> 0" by auto
      from be_bytes_minimal [OF False this] have m: "be_bytes (byte_len (be_nat t)) (be_nat t) = t" by blast
      have "be_nat t \<noteq> 0"
        using be_bytes_minimal [OF False \<open>hd t \<noteq> 0\<close>] False by (metis byte_len_0 length_0_conv)
      with m h show ?thesis by (simp add: Cons True be_nat_Cons der_uint_def)
    qed (simp add: Cons True be_nat_Cons der_uint_def)
  next
    case False
    have m: "be_bytes (byte_len (be_nat bs)) (be_nat bs) = bs"
      using be_bytes_minimal [of bs] Cons False by (metis list.distinct(1) list.sel(1))
    have "be_nat bs \<noteq> 0"
      using be_bytes_minimal [of bs] Cons False by (metis byte_len_0 length_0_conv list.distinct(1) list.sel(1))
    with m assms Cons show ?thesis by (auto simp: der_uint_def is_unsigned_Cons)
  qed
qed

lemma asn1_uint64_loop_eq:
  "asn1_uint64_loop out data =
    (if unat out * 256 ^ length data + be_nat data < 2 ^ 64
     then Some (of_nat (unat out * 256 ^ length data + be_nat data)) else None)"
proof (induction data arbitrary: out)
  case Nil
  then show ?case using u64_bound [of out] by simp
next
  case (Cons b data)
  have dz: "drop_bit 56 out = 0 \<longleftrightarrow> unat out < 2 ^ 56"
    by (simp add: word_unat_eq_iff unat_drop_bit div_eq_0_iff)
  show ?case
  proof (cases "unat out < 2 ^ 56")
    case True
    have "unat (push_bit 8 out OR ucast b) = unat out * 256 + unat b"
      using unat_shift_or [of "ucast b :: u64" 8 out] True by simp
    then show ?thesis
      using Cons [of "push_bit 8 out OR ucast b"] True dz
      by (simp add: be_nat_Cons algebra_simps)
  next
    case False
    have "2 ^ 64 = 2 ^ 56 * (256::nat)" by simp
    also have "\<dots> \<le> unat out * 256 ^ length (b # data)"
      using False by (intro mult_le_mono) simp_all
    finally have "\<not> unat out * 256 ^ length (b # data) + be_nat (b # data) < 2 ^ 64" by linarith
    then show ?thesis using False dz by simp
  qed
qed

lemma CBS_get_asn1_uint64_iff:
  "CBS_get_asn1_uint64 s = Some (v, r) \<longleftrightarrow> s = der_element CBS_ASN1_INTEGER (der_uint (unat v)) @ r"
  (is "?L \<longleftrightarrow> ?R")
proof
  assume ?L
  then obtain bs where g: "CBS_get_asn1 s CBS_ASN1_INTEGER = Some (bs, r)"
    and u: "CBS_is_unsigned_asn1_integer bs" and l: "asn1_uint64_loop 0 bs = Some v"
    by (auto simp: CBS_get_asn1_uint64_def split: option.splits if_splits)
  from l have lt: "be_nat bs < 2 ^ 64" and v: "v = of_nat (be_nat bs)"
    by (simp_all add: asn1_uint64_loop_eq split: if_splits)
  have "unat v = be_nat bs" unfolding v using lt by (rule unat_of_nat_u64)
  with is_unsigned_canonical [OF u] g show ?R by (simp add: CBS_get_asn1_iff)
next
  have len: "length (der_uint (unat v)) < 2 ^ 32"
  proof -
    have "byte_len (unat v) \<le> 8" using u64_bound [of v] by (simp add: byte_len_le_iff)
    then show ?thesis by (simp add: der_uint_def)
  qed
  assume ?R
  with len have "CBS_get_asn1 s CBS_ASN1_INTEGER = Some (der_uint (unat v), r)"
    by (simp add: CBS_get_asn1_iff)
  moreover have "unat v < 2 ^ 64" using u64_bound [of v] by simp
  ultimately show ?L by (simp add: CBS_get_asn1_uint64_def asn1_uint64_loop_eq)
qed

lemma CBS_get_asn1_bool_iff:
  "CBS_get_asn1_bool s = Some (v, r) \<longleftrightarrow>
    s = der_element CBS_ASN1_BOOLEAN [if v then 0xff else 0] @ r" (is "?L \<longleftrightarrow> ?R")
proof
  assume ?L
  then obtain bs where g: "CBS_get_asn1 s CBS_ASN1_BOOLEAN = Some (bs, r)" "length bs = 1"
    and h: "hd bs = 0 \<or> hd bs = 0xff" "v = (hd bs \<noteq> 0)"
    by (auto simp: CBS_get_asn1_bool_def CBS_len_def Let_def split: option.splits if_splits)
  then have "bs = [if v then 0xff else 0]" by (cases bs) auto
  with g show ?R by (simp add: CBS_get_asn1_iff)
next
  assume ?R
  then have "CBS_get_asn1 s CBS_ASN1_BOOLEAN = Some ([if v then 0xff else 0], r)"
    by (simp add: CBS_get_asn1_iff)
  then show ?L by (simp add: CBS_get_asn1_bool_def CBS_len_def)
qed

lemma CBS_peek_asn1_tag_iff: "CBS_peek_asn1_tag s t \<longleftrightarrow> (\<exists>r. s = der_tag t @ r)"
proof -
  have "(\<exists>r. s = der_tag t @ r) \<Longrightarrow> s \<noteq> []" by auto
  then show ?thesis
    by (auto simp: CBS_peek_asn1_tag_def CBS_len_def parse_asn1_tag_complete Suc_le_eq
        split: option.splits simp flip: parse_asn1_tag_iff)
qed

lemma unat_not_u8: "unat (NOT b) = 255 - unat (b::u8)"
proof -
  have "NOT b = 255 - b" by (simp add: not_eq_complement)
  moreover have "b \<le> (255::u8)" using u8_le [of b] unfolding word_le_nat_alt by simp
  ultimately show ?thesis by (simp add: unat_sub)
qed

lemma be_nat_map_not: "be_nat (map (\<lambda>b. NOT b) bs) + be_nat bs + 1 = 256 ^ length bs"
proof (induction bs rule: rev_induct)
  case Nil
  show ?case by simp
next
  case (snoc b bs)
  have "unat (NOT b) + unat b = 255" using u8_le [of b] by (simp add: unat_not_u8)
  with snoc show ?case by (simp add: algebra_simps)
qed

lemma is_valid_asn1_integer_split:
  "CBS_is_valid_asn1_integer bs = (True, neg) \<longleftrightarrow>
    (if neg then CBS_is_unsigned_asn1_integer (map (\<lambda>b. NOT b) bs) else CBS_is_unsigned_asn1_integer bs)"
proof (cases bs)
  case Nil
  then show ?thesis by (simp add: CBS_is_valid_asn1_integer_def)
next
  case (Cons b t)
  have n: "unat (NOT b) < 128 \<longleftrightarrow> 128 \<le> unat b" "NOT b = 0 \<longleftrightarrow> b = 0xff"
    using u8_le [of b] by (auto simp: unat_not_u8 word_unat_eq_iff)
  show ?thesis
  proof (cases t)
    case Nil
    with Cons n show ?thesis
      by (auto simp: is_unsigned_Cons CBS_is_valid_asn1_integer_def u8_and_0x80)
  next
    case t: (Cons c u)
    have m: "128 \<le> unat (NOT c) \<longleftrightarrow> unat c < 128" using u8_le [of c] by (auto simp: unat_not_u8)
    from Cons t n m show ?thesis
      by (auto simp: is_unsigned_Cons CBS_is_valid_asn1_integer_def u8_and_0x80 Let_def not_less)
  qed
qed

lemma foldr_le64: "foldr (\<lambda>b acc. push_bit 8 acc OR ucast b) (rev bs) a = cbs_get_u_loop a bs"
  by (induction bs arbitrary: a) simp_all

lemma le64_rev_append: "le64 (rev bs @ ys) = cbs_get_u_loop (le64 ys) bs"
  by (simp add: le64_def foldr_le64)

lemma le64_replicate_0: "le64 (replicate k 0) = 0"
  by (induction k) (simp_all add: le64_def)

lemma le64_replicate_ff: "le64 (replicate k 0xff) = 256 ^ k - 1"
proof (induction k)
  case 0
  show ?case by (simp add: le64_def)
next
  case (Suc k)
  have "le64 (replicate (Suc k) 0xff) = push_bit 8 (le64 (replicate k 0xff)) OR ucast (0xff :: u8)"
    by (simp add: le64_def)
  also have "\<dots> = (256 ^ k - 1) * 256 + 255"
    using word_shift_or [of "ucast (0xff :: u8) :: u64" 8 "le64 (replicate k 0xff)"] Suc by simp
  finally show ?case by (simp add: algebra_simps)
qed

lemma le64_nonneg: "le64 (rev bs @ replicate k 0) = of_nat (be_nat bs)"
  by (simp add: le64_rev_append le64_replicate_0 cbs_get_u_loop_eq)

lemma le64_neg:
  assumes "length bs \<le> 8"
  shows "le64 (rev bs @ replicate (8 - length bs) 0xff) = of_int (int (be_nat bs) - 256 ^ length bs)"
proof -
  have "(256 :: u64) ^ (8 - length bs) * 256 ^ length bs = 256 ^ 8"
    using assms by (simp flip: power_add)
  also have "\<dots> = 0" by simp
  finally have z: "(256 :: u64) ^ (8 - length bs) * 256 ^ length bs = 0" .
  have "le64 (rev bs @ replicate (8 - length bs) 0xff)
      = (256 ^ (8 - length bs) - 1) * 256 ^ length bs + of_nat (be_nat bs)"
    by (simp only: le64_rev_append le64_replicate_ff cbs_get_u_loop_eq)
  also have "\<dots> = of_nat (be_nat bs) - 256 ^ length bs"
    by (simp only: left_diff_distrib z) simp
  finally show ?thesis by simp
qed

lemma sint_of_int_u64: "\<lbrakk>- (2 ^ 63) \<le> x; x < 2 ^ 63\<rbrakk> \<Longrightarrow> sint (of_int x :: u64) = x"
  by (simp add: signed_of_int signed_take_bit_int_eq_self_iff)


lemma der_uint_valid_length:
  assumes "CBS_is_unsigned_asn1_integer bs" and "length bs \<le> 8"
  shows "be_nat bs < 2 ^ 63"
proof -
  obtain b t where bs: "bs = b # t" using assms(1) by (cases bs) auto
  with assms(1) have b: "unat b \<le> 127" by (simp add: is_unsigned_Cons)
  have t: "(256::nat) ^ length t \<le> 256 ^ 7" using assms(2) bs by (intro power_increasing) simp_all
  have "be_nat bs < (unat b + 1) * 256 ^ length t"
    using be_nat_bound [of t] by (simp add: bs be_nat_Cons)
  also have "\<dots> \<le> 128 * 256 ^ 7" using b t by (intro mult_le_mono) simp_all
  finally show ?thesis by simp
qed

lemma length_der_uint_le_8: "v < 2 ^ 63 \<Longrightarrow> length (der_uint v) \<le> 8"
proof (cases "v = 0")
  case True
  then show ?thesis by (simp add: der_uint_def)
next
  case False
  let ?bs = "be_bytes (byte_len v) v"
  assume v: "v < 2 ^ 63"
  show ?thesis
  proof (cases "byte_len v \<le> 7")
    case True
    with False show ?thesis by (simp add: der_uint_def)
  next
    case b: False
    have "byte_len v \<le> 8" using v by (simp add: byte_len_le_iff)
    with b have l: "byte_len v = 8" by simp
    then have "be_nat ?bs = v" using byte_len_le_iff [of v 8] by (simp add: be_nat_be_bytes)
    moreover have "?bs \<noteq> []" using l by (metis length_0_conv length_be_bytes zero_neq_numeral)
    ultimately have "unat (hd ?bs) * 256 ^ 7 \<le> v" using be_nat_lower [of ?bs] l by simp
    with v have "unat (hd ?bs) < 128" by simp
    with False l show ?thesis by (simp add: der_uint_def)
  qed
qed

lemma int64_value:
  assumes "CBS_is_valid_asn1_integer bs = (True, neg)" and "length bs \<le> 8"
  shows "bs = der_int (sint (le64 (rev bs @ replicate (8 - length bs) (if neg then 0xff else 0))))"
proof (cases neg)
  case False
  with assms have u: "CBS_is_unsigned_asn1_integer bs" by (simp add: is_valid_asn1_integer_split)
  have "sint (of_nat (be_nat bs) :: u64) = int (be_nat bs)"
    using der_uint_valid_length [OF u assms(2)] sint_of_int_u64 [of "int (be_nat bs)"] by simp
  with False is_unsigned_canonical [OF u] show ?thesis by (simp add: le64_nonneg der_int_def)
next
  case True
  let ?n = "map (\<lambda>b. NOT b) bs"
  from assms True have u: "CBS_is_unsigned_asn1_integer ?n" by (simp add: is_valid_asn1_integer_split)
  have lt: "be_nat ?n < 2 ^ 63" using der_uint_valid_length [OF u] assms(2) by simp
  have c: "int (be_nat bs) - 256 ^ length bs = - int (be_nat ?n) - 1"
  proof -
    have "int (be_nat ?n + be_nat bs + 1) = int (256 ^ length bs)" by (simp only: be_nat_map_not)
    then show ?thesis by simp
  qed
  have s: "sint (of_int (- int (be_nat ?n) - 1) :: u64) = - int (be_nat ?n) - 1"
    by (rule sint_of_int_u64) (use lt in simp_all)
  have "map (\<lambda>b. NOT b) ?n = bs" by (simp add: o_def)
  with True s is_unsigned_canonical [OF u] show ?thesis
    by (simp only: le64_neg [OF assms(2)] c if_True) (simp add: der_int_def)
qed

lemma der_int_valid:
  "CBS_is_valid_asn1_integer (der_int v) = (True, v < 0)"
  by (cases "v < 0") (simp_all add: der_int_def is_valid_asn1_integer_split o_def)

lemma length_der_int_le_8:
  "\<lbrakk>- (2 ^ 63) \<le> v; v < 2 ^ 63\<rbrakk> \<Longrightarrow> length (der_int v) \<le> 8"
  using length_der_uint_le_8 [of "nat v"] length_der_uint_le_8 [of "nat (- v - 1)"]
  by (simp add: der_int_def nat_less_iff)

lemma der_uint_inj: "der_uint v = der_uint w \<Longrightarrow> v = w"
  by (metis be_nat_der_uint)

lemma der_int_inj: "der_int v = der_int w \<Longrightarrow> v = w"
proof -
  assume e: "der_int v = der_int w"
  then have s: "v < 0 \<longleftrightarrow> w < 0" using der_int_valid [of v] der_int_valid [of w] by simp
  have m: "map (\<lambda>b. NOT b) xs = map (\<lambda>b. NOT b) ys \<longleftrightarrow> xs = ys" for xs ys :: "u8 list"
    by (simp add: inj_map_eq_map inj_on_def)
  show ?thesis
    using e s by (cases "v < 0") (auto simp: der_int_def m dest!: der_uint_inj)
qed

lemma CBS_get_asn1_int64_iff:
  "CBS_get_asn1_int64 s = Some (w, r) \<longleftrightarrow> s = der_element CBS_ASN1_INTEGER (der_int (sint w)) @ r"
  (is "?L \<longleftrightarrow> ?R")
proof
  assume ?L
  then obtain bs neg where g: "CBS_get_asn1 s CBS_ASN1_INTEGER = Some (bs, r)"
    and u: "CBS_is_valid_asn1_integer bs = (True, neg)" and l: "length bs \<le> 8"
    and w: "w = le64 (rev bs @ replicate (8 - length bs) (if neg then 0xff else 0))"
    by (auto simp: CBS_get_asn1_int64_def split: option.splits if_splits prod.splits)
  from int64_value [OF u l] g w show ?R by (simp add: CBS_get_asn1_iff)
next
  assume R: ?R
  let ?b = "der_int (sint w)"
  have l: "length ?b \<le> 8"
    using sint_ge [of w] sint_lt [of w] by (intro length_der_int_le_8) simp_all
  then have "length ?b < 2 ^ 32" by simp
  with R have g: "CBS_get_asn1 s CBS_ASN1_INTEGER = Some (?b, r)"
    by (simp add: CBS_get_asn1_iff)
  from int64_value [OF der_int_valid l] have
    "le64 (rev ?b @ replicate (8 - length ?b) (if sint w < 0 then 0xff else 0)) = w"
    by (metis der_int_inj signed_word_eqI)
  with g l der_int_valid [of "sint w"] show ?L by (simp add: CBS_get_asn1_int64_def)
qed

subsection \<open>Fixed-width integers, byte strings and prefixes\<close>

lemma get_u_narrow:
  fixes v :: "'a::len word"
  assumes "n \<le> 8" and "8 * n \<le> LENGTH('a)" and "LENGTH('a) \<le> 64"
  shows "(case cbs_get_u s n of None \<Rightarrow> None | Some (x, s') \<Rightarrow> Some (ucast x, s')) = Some (v, r) \<longleftrightarrow>
    unat v < 256 ^ n \<and> s = be_bytes n (unat v) @ r" (is "?L \<longleftrightarrow> ?R")
proof
  assume ?L
  then obtain x where x: "cbs_get_u s n = Some (x, r)" "v = ucast x"
    by (auto split: option.splits)
  have "(256::nat) ^ n = 2 ^ (8 * n)" using power_mult [of "2::nat" 8 n] by simp
  also have "\<dots> \<le> 2 ^ LENGTH('a)" using assms(2) by (intro power_increasing) simp_all
  finally have le: "(256::nat) ^ n \<le> 2 ^ LENGTH('a)" .
  from x assms(1) have r: "unat x < 256 ^ n \<and> s = be_bytes n (unat x) @ r" by (simp add: cbs_get_u_iff)
  with le have "unat v = unat x" by (simp add: x(2) unat_ucast)
  with r show ?R by simp
next
  assume ?R
  moreover have "unat (ucast v :: u64) = unat v" using assms(3) by (intro unat_ucast_up) simp
  moreover have "ucast (ucast v :: u64) = v"
    using assms(3) \<open>unat (ucast v :: u64) = unat v\<close> by (simp add: word_unat_eq_iff unat_ucast)
  ultimately show ?L using assms(1) cbs_get_u_iff [of n s "ucast v" r] by simp
qed

lemma CBS_get_u16_iff: "CBS_get_u16 s = Some (v, r) \<longleftrightarrow> s = be_bytes 2 (unat v) @ r"
  using get_u_narrow [of 2 s v r] unsigned_less [of v, where 'a = nat] by (simp add: CBS_get_u16_def)

lemma CBS_get_u24_iff:
  "CBS_get_u24 s = Some (v, r) \<longleftrightarrow> unat v < 2 ^ 24 \<and> s = be_bytes 3 (unat v) @ r"
  using get_u_narrow [of 3 s v r] by (simp add: CBS_get_u24_def)

lemma CBS_get_u32_iff: "CBS_get_u32 s = Some (v, r) \<longleftrightarrow> s = be_bytes 4 (unat v) @ r"
  using get_u_narrow [of 4 s v r] u32_bound [of v] by (simp add: CBS_get_u32_def)

lemma CBS_get_u64_iff: "CBS_get_u64 s = Some (v, r) \<longleftrightarrow> s = be_bytes 8 (unat v) @ r"
  using u64_bound [of v] by (simp add: CBS_get_u64_def cbs_get_u_iff)

lemma cbs_get_length_prefixed_iff:
  assumes "n \<le> 8"
  shows "cbs_get_length_prefixed s n = Some (body, r) \<longleftrightarrow>
    length body < 256 ^ n \<and> s = be_bytes n (length body) @ body @ r" (is "?L \<longleftrightarrow> ?R")
proof
  assume ?L
  then obtain l s' where g: "cbs_get_u s n = Some (l, s')" and b: "CBS_get_bytes s' (unat l) = Some (body, r)"
    by (auto simp: cbs_get_length_prefixed_def split: option.splits)
  from b have "s' = body @ r" "length body = unat l" by (auto dest: CBS_get_bytes_SomeD)
  with g assms show ?R by (simp add: cbs_get_u_iff)
next
  assume R: ?R
  define l :: u64 where "l = of_nat (length body)"
  have "(256::nat) ^ n \<le> 256 ^ 8" using assms by (intro power_increasing) simp_all
  with R have "unat l = length body" unfolding l_def by (intro unat_of_nat_u64) simp
  with R assms have "cbs_get_u s n = Some (l, body @ r)" by (simp add: cbs_get_u_iff)
  with \<open>unat l = length body\<close> show ?L by (simp add: cbs_get_length_prefixed_def)
qed

lemma CBS_get_any_asn1_iff:
  "CBS_get_any_asn1 s = Some ((body, t), r) \<longleftrightarrow> length body < 2 ^ 32 \<and> s = der_element t body @ r"
  (is "?L \<longleftrightarrow> ?R")
proof -
  have "CBS_get_any_asn1 s = Some ((body, t), r) \<longleftrightarrow> CBS_get_asn1 s t = Some (body, r)"
    by (auto simp: CBS_get_any_asn1_def CBS_get_asn1_def cbs_get_asn1_def
        split: option.splits if_splits)
  then show ?thesis by (simp only: CBS_get_asn1_iff)
qed

section \<open>The parsers as codecs\<close>

interpretation u16_be: canonical_codec "\<lambda>_. True" "\<lambda>v. be_bytes 2 (unat v)" CBS_get_u16
  by unfold_locales (simp_all add: CBS_get_u16_iff)

interpretation u24_be: canonical_codec "\<lambda>v. unat v < 2 ^ 24" "\<lambda>v. be_bytes 3 (unat v)" CBS_get_u24
  by unfold_locales (simp_all add: CBS_get_u24_iff)

interpretation u32_be: canonical_codec "\<lambda>_. True" "\<lambda>v. be_bytes 4 (unat v)" CBS_get_u32
  by unfold_locales (simp_all add: CBS_get_u32_iff)

interpretation u64_be: canonical_codec "\<lambda>_. True" "\<lambda>v. be_bytes 8 (unat v)" CBS_get_u64
  by unfold_locales (simp_all add: CBS_get_u64_iff)

interpretation u16_prefixed: canonical_codec "\<lambda>body. length body < 65536"
  "\<lambda>body. be_bytes 2 (length body) @ body" CBS_get_u16_length_prefixed
  by unfold_locales (simp_all add: CBS_get_u16_length_prefixed_def cbs_get_length_prefixed_iff)

interpretation base128_int: canonical_codec "\<lambda>_. True" "\<lambda>v. base128 (unat v)" parse_base128_integer
  by unfold_locales (simp_all add: parse_base128_iff)

interpretation asn1_tag: canonical_codec "\<lambda>_. True" der_tag parse_asn1_tag
  by unfold_locales (simp_all add: parse_asn1_tag_iff)

interpretation asn1_elem: canonical_codec "\<lambda>(body, t). length body < 2 ^ 32"
  "\<lambda>(body, t). der_element t body" CBS_get_any_asn1
  by unfold_locales (auto simp: CBS_get_any_asn1_iff)

interpretation asn1_uint64: canonical_codec "\<lambda>_. True"
  "\<lambda>v. der_element CBS_ASN1_INTEGER (der_uint (unat v))" CBS_get_asn1_uint64
  by unfold_locales (simp_all add: CBS_get_asn1_uint64_iff)

interpretation asn1_int64: canonical_codec "\<lambda>_. True"
  "\<lambda>w. der_element CBS_ASN1_INTEGER (der_int (sint w))" CBS_get_asn1_int64
  by unfold_locales (simp_all add: CBS_get_asn1_int64_iff)

interpretation asn1_bool: canonical_codec "\<lambda>_. True"
  "\<lambda>v. der_element CBS_ASN1_BOOLEAN [if v then 0xff else 0]" CBS_get_asn1_bool
  by unfold_locales (simp_all add: CBS_get_asn1_bool_iff)

section \<open>Bit strings\<close>

lemma bit_num_value: "unat (7 - (n AND 7) :: u32) = 7 - unat n mod 8"
proof -
  have m: "(7::u32) = mask 3" by (simp add: mask_eq_exp_minus_1)
  have u: "unat (n AND 7) = unat n mod 8" by (subst m) (simp only: unat_and_mask, simp)
  then have "n AND 7 \<le> 7" by (simp add: word_le_nat_alt)
  with u show ?thesis by (simp add: unat_sub)
qed

lemma byte_num_value: "unat (drop_bit 3 n + 1 :: u32) = unat n div 8 + 1"
proof -
  have "unat n div 8 < 536870912" using u32_bound [of n] by (simp add: less_mult_imp_div_less)
  then show ?thesis by (simp add: unat_word_ariths unat_drop_bit)
qed

lemma and_push_bit_1: "b AND push_bit k 1 \<noteq> 0 \<longleftrightarrow> bit (b::'a::len word) k"
  by (simp add: push_bit_eq_mult and_exp_eq_0_iff_not_bit)

lemma has_bit_Cons:
  "CBS_asn1_bitstring_has_bit (u # p) n \<longleftrightarrow>
    CBS_is_valid_asn1_bitstring (u # p) \<and> unat n div 8 < length p \<and>
    bit (p ! (unat n div 8)) (7 - unat n mod 8)"
  by (auto simp: CBS_asn1_bitstring_has_bit_def Let_def byte_num_value bit_num_value CBS_len_def
      CBS_data_def and_push_bit_1 simp del: push_bit_of_1)

lemma valid_bitstring_Cons:
  "CBS_is_valid_asn1_bitstring (u # p) \<longleftrightarrow>
    unat u \<le> 7 \<and> (u = 0 \<or> p \<noteq> [] \<and> (\<forall>i<unat u. \<not> bit (last p) i))"
proof -
  have m: "2 ^ unat u - 1 = (mask (unat u) :: u8)"
    by (simp add: mask_eq_exp_minus_1)
  have z: "(b AND mask k = 0) \<longleftrightarrow> (\<forall>i<k. \<not> bit b i)" if "k \<le> 7" for b :: u8 and k
  proof -
    have "i < k \<Longrightarrow> i < 8" for i using that by simp
    then show ?thesis by (auto simp: bit_eq_iff bit_simps)
  qed
  have lt: "7 < u \<longleftrightarrow> 7 < unat u" by (simp add: word_less_nat_alt)
  show ?thesis
    by (auto simp: CBS_is_valid_asn1_bitstring_def CBS_get_last_u8_def m z lt last_conv_nth
        not_less split: if_splits)
qed

lemma last_byte_bits:
  assumes "n div 8 < length p" and "8 * length p \<le> n + u" and "u \<le> (7::nat)"
  shows "n div 8 = length p - 1 \<and> 7 - n mod 8 < u"
proof -
  have "8 * (n div 8) + n mod 8 = n" by simp
  with assms show ?thesis by linarith
qed


section \<open>Properties\<close>

text \<open>C1: the DER element parser is canonical. It accepts a byte string exactly when the string
  starts with the DER encoding of some body under the returned tag, and then returns that
  whole element, the length of its header and the bytes behind it.\<close>

theorem cbs_element_canonical:
  "CBS_get_any_asn1_element s = Some ((out, t, hl), r) \<longleftrightarrow>
    (\<exists>body. length body < 2 ^ 32 \<and> out = der_element t body \<and>
      hl = length (der_header t (length body)) \<and> s = der_element t body @ r)"
  by (rule CBS_get_any_asn1_element_iff)

text \<open>a concatenation of DER elements is read back element by element, whatever follows it:
  the contents of a SEQUENCE are recovered without loss.\<close>

lemma cbs_element_sequence_roundtrip:
  assumes "list_all (\<lambda>(body, t). length body < 2 ^ 32) xs"
  shows "decode_seq CBS_get_any_asn1 (length xs) (concat (map (\<lambda>(body, t). der_element t body) xs) @ rest)
    = Some (xs, rest)"
  using assms by (rule asn1_elem.decode_seq_concat)

text \<open>unsigned INTEGERs. The parser returns \<open>v\<close> exactly on the minimal DER encoding of \<open>v\<close>, for
  every 64-bit \<open>v\<close>; in particular non-minimal and out-of-range encodings are refused.\<close>

lemma cbs_uint64_canonical:
  "CBS_get_asn1_uint64 s = Some (v, r) \<longleftrightarrow> s = der_element CBS_ASN1_INTEGER (der_uint (unat v)) @ r"
  by (rule CBS_get_asn1_uint64_iff)

text \<open>signed INTEGERs. The parser returns the two's complement word \<open>w\<close> exactly on the minimal
  DER encoding of its signed value.\<close>

lemma cbs_int64_canonical:
  "CBS_get_asn1_int64 s = Some (w, r) \<longleftrightarrow> s = der_element CBS_ASN1_INTEGER (der_int (sint w)) @ r"
  by (rule CBS_get_asn1_int64_iff)

text \<open>base-128 integers (OID components, high tag numbers) are accepted exactly in their
  minimal form and never overflow 64 bits.\<close>

lemma cbs_base128_canonical:
  "parse_base128_integer s = Some (v, r) \<longleftrightarrow> s = base128 (unat v) @ r"
  by (rule parse_base128_iff)

text \<open>bits of a BIT STRING. A bit reported as set lies inside the string: it is bit
  \<open>7 - n mod 8\<close> of payload byte \<open>n div 8\<close> and never one of the unused bits at the end, although
  the code only checks the length in bytes.\<close>

lemma cbs_bitstring_has_bit_in_range:
  assumes "CBS_asn1_bitstring_has_bit (u # p) n"
  shows "unat n + unat u < 8 * length p \<and> bit (p ! (unat n div 8)) (7 - unat n mod 8)"
proof (rule conjI)
  from assms have v: "CBS_is_valid_asn1_bitstring (u # p)" and l: "unat n div 8 < length p"
    and b: "bit (p ! (unat n div 8)) (7 - unat n mod 8)"
    by (simp_all add: has_bit_Cons)
  show "bit (p ! (unat n div 8)) (7 - unat n mod 8)" by (rule b)
  show "unat n + unat u < 8 * length p"
  proof (rule ccontr)
    assume "\<not> unat n + unat u < 8 * length p"
    with l v have "unat n div 8 = length p - 1 \<and> 7 - unat n mod 8 < unat u"
      by (intro last_byte_bits) (simp_all add: valid_bitstring_Cons)
    with b v l show False by (auto simp: valid_bitstring_Cons last_conv_nth)
  qed
qed

end
