(* ===== verification/Cbb.thy ===== *)
theory Cbb
  imports Cbs
begin

text \<open>
  The byte-string builder \<^verbatim>\<open>BoringSSL-GRPC/src/crypto/bytestring/cbb.c\<close>.

  All \<^verbatim>\<open>CBB\<close>s that write to one \<^verbatim>\<open>struct cbb_buffer_st\<close> form a chain: the top-level \<^verbatim>\<open>CBB\<close>, its
  \<^verbatim>\<open>child\<close>, the child's child, and so on. The model is the buffer together with that chain,
  outermost first, and a \<^verbatim>\<open>CBB *\<close> argument is its position in the chain: 0 is the top-level
  \<^verbatim>\<open>CBB\<close>, \<open>Suc d\<close> the current child of \<open>d\<close>. A position behind the end of the chain is a \<^verbatim>\<open>CBB\<close> whose
  \<^verbatim>\<open>base\<close> is null: a child that was flushed or discarded, or any \<^verbatim>\<open>CBB\<close> once the top level was
  finished or cleaned up. Of \<^verbatim>\<open>base->buf\<close> the first \<^verbatim>\<open>base->len\<close> bytes are kept.

  Functions return the C flag and the new state; the allocation policy of \<^verbatim>\<open>malloc\<close> is the
  argument \<open>al\<close>.
\<close>

section \<open>Model\<close>

record cbb_frame =
  fr_offset :: nat
  fr_pending_len_len :: nat
  fr_pending_is_asn1 :: bool

record cbb =
  cb_buf :: "u8 list"
  cb_cap :: nat
  cb_can_resize :: bool
  cb_error :: bool
  cb_frames :: "cbb_frame list"

abbreviation cb_len :: "cbb \<Rightarrow> nat" where
  "cb_len st \<equiv> length (cb_buf st)"

definition top_frame :: cbb_frame where
  "top_frame = \<lparr>fr_offset = 0, fr_pending_len_len = 0, fr_pending_is_asn1 = False\<rparr>"

definition cbb_fail :: "cbb \<Rightarrow> bool \<times> cbb" where
  "cbb_fail st = (False, st\<lparr>cb_error := True\<rparr>)"

subsection \<open>Life cycle\<close>

definition CBB_zero :: cbb where
  "CBB_zero = \<lparr>cb_buf = [], cb_cap = 0, cb_can_resize = False, cb_error = False, cb_frames = []\<rparr>"

text \<open>The size of \<^verbatim>\<open>struct cbb_buffer_st\<close> on the 64-bit targets.\<close>

definition sizeof_cbb_buffer :: nat where
  "sizeof_cbb_buffer = 32"

definition cbb_init :: "alloc \<Rightarrow> cbb \<Rightarrow> nat \<Rightarrow> bool \<times> cbb" where
  "cbb_init al st cap =
     (case OPENSSL_malloc al sizeof_cbb_buffer of
        None \<Rightarrow> (False, st)
      | Some _ \<Rightarrow>
          (True, st\<lparr>cb_buf := [], cb_cap := cap, cb_can_resize := True, cb_error := False,
                    cb_frames := [top_frame]\<rparr>))"

definition CBB_init :: "alloc \<Rightarrow> nat \<Rightarrow> bool \<times> cbb" where
  "CBB_init al initial_capacity =
     (let buf = OPENSSL_malloc al initial_capacity
      in if 0 < initial_capacity \<and> buf = None then (False, CBB_zero)
         else cbb_init al CBB_zero initial_capacity)"

definition CBB_init_fixed :: "alloc \<Rightarrow> nat \<Rightarrow> bool \<times> cbb" where
  "CBB_init_fixed al len =
     and_then (cbb_init al CBB_zero len) (\<lambda>st. (True, st\<lparr>cb_can_resize := False\<rparr>))"

definition CBB_cleanup :: "nat \<Rightarrow> cbb \<Rightarrow> cbb" where
  "CBB_cleanup d st = (if d \<noteq> 0 then st else st\<lparr>cb_frames := []\<rparr>)"

subsection \<open>The buffer\<close>

definition cbb_buffer_reserve :: "alloc \<Rightarrow> cbb \<Rightarrow> nat \<Rightarrow> bool \<times> cbb" where
  "cbb_buffer_reserve al st len =
     (let newlen = size_add (cb_len st) len
      in if newlen < cb_len st then cbb_fail st
         else if cb_cap st < newlen
         then (let newcap0 = (cb_cap st * 2) mod SIZE_MAX_1
               in if \<not> cb_can_resize st then cbb_fail st
                  else let newcap = (if newcap0 < cb_cap st \<or> newcap0 < newlen then newlen else newcap0)
                       in case OPENSSL_realloc al (Some (cb_buf st)) newcap of
                            None \<Rightarrow> cbb_fail st
                          | Some newbuf \<Rightarrow>
                              (True, st\<lparr>cb_buf := take (cb_len st) newbuf, cb_cap := newcap\<rparr>))
         else (True, st))"

text \<open>The added bytes are uninitialised in the source; they read as zero until the caller
  writes them.\<close>

definition cbb_buffer_add :: "alloc \<Rightarrow> cbb \<Rightarrow> nat \<Rightarrow> bool \<times> cbb" where
  "cbb_buffer_add al st len =
     and_then (cbb_buffer_reserve al st len)
       (\<lambda>st. (True, st\<lparr>cb_buf := cb_buf st @ replicate len 0\<rparr>))"

text \<open>The loop \<^verbatim>\<open>for (i = n - 1; i < n; i--) { buf[i] = v; v >>= 8; }\<close> at offset \<open>off\<close>; the second
  component is what is left of \<open>v\<close>.\<close>

fun write_be :: "u8 list \<Rightarrow> nat \<Rightarrow> nat \<Rightarrow> u64 \<Rightarrow> u8 list \<times> u64" where
  "write_be buf off 0 v = (buf, v)"
| "write_be buf off (Suc i) v = write_be (buf[off + i := ucast v]) off i (drop_bit 8 v)"

definition cbb_buffer_add_u :: "alloc \<Rightarrow> cbb \<Rightarrow> u64 \<Rightarrow> nat \<Rightarrow> bool \<times> cbb" where
  "cbb_buffer_add_u al st v len_len =
     (if len_len = 0 then (True, st)
      else let off = cb_len st
           in and_then (cbb_buffer_add al st len_len)
                (\<lambda>st. let (buf, v') = write_be (cb_buf st) off len_len v; st' = st\<lparr>cb_buf := buf\<rparr>
                      in if v' \<noteq> 0 then cbb_fail st' else (True, st')))"

subsection \<open>Flushing\<close>

text \<open>The length octets of an ASN.1 element: number of octets, first octet and what the
  remaining octets hold; \<open>None\<close> when the contents are too long.\<close>

definition asn1_len_octets :: "nat \<Rightarrow> (nat \<times> u8 \<times> nat) option" where
  "asn1_len_octets len =
     (if 0xfffffffe < len then None
      else if 0xffffff < len then Some (5, 0x80 OR 4, len)
      else if 0xffff < len then Some (4, 0x80 OR 3, len)
      else if 0xff < len then Some (3, 0x80 OR 2, len)
      else if 0x7f < len then Some (2, 0x80 OR 1, len)
      else Some (1, of_nat len, 0))"

text \<open>The second half of \<^verbatim>\<open>CBB_flush\<close>, after the recursive call: writes the pending length prefix
  of the child at position \<open>Suc d\<close> and detaches it.\<close>

definition flush_length :: "nat \<Rightarrow> nat \<Rightarrow> cbb \<Rightarrow> bool \<times> cbb" where
  "flush_length d len st =
     (let child = cb_frames st ! Suc d;
          (buf, rest) = write_be (cb_buf st) (fr_offset child) (fr_pending_len_len child) (of_nat len);
          st' = st\<lparr>cb_buf := buf\<rparr>
      in if rest \<noteq> 0 then cbb_fail st' else (True, st'\<lparr>cb_frames := take (Suc d) (cb_frames st')\<rparr>))"

text \<open>The contents moved by \<^verbatim>\<open>CBB_flush\<close> before a long-form length is written.\<close>

definition shift_child :: "alloc \<Rightarrow> nat \<Rightarrow> nat \<Rightarrow> nat \<Rightarrow> cbb \<Rightarrow> bool \<times> cbb" where
  "shift_child al child_start len len_len st =
     (if len_len \<noteq> 1
      then and_then (cbb_buffer_add al st (len_len - 1))
             (\<lambda>st. (True, st\<lparr>cb_buf := mem_move (cb_buf st) (child_start + (len_len - 1)) child_start len\<rparr>))
      else (True, st))"

definition flush_child :: "alloc \<Rightarrow> nat \<Rightarrow> cbb \<Rightarrow> bool \<times> cbb" where
  "flush_child al d st =
     (let child = cb_frames st ! Suc d;
          child_start = size_add (fr_offset child) (fr_pending_len_len child)
      in if child_start < fr_offset child \<or> cb_len st < child_start then cbb_fail st
         else
         (let len = cb_len st - child_start
          in if \<not> fr_pending_is_asn1 child then flush_length d len st
             else
             (case asn1_len_octets len of
                None \<Rightarrow> cbb_fail st
              | Some (len_len, initial_length_byte, len') \<Rightarrow>
                  let moved = shift_child al child_start len len_len st
                  in if \<not> fst moved then cbb_fail (snd moved)
                     else
                     (let st1 = snd moved;
                          st2 = st1\<lparr>cb_buf := (cb_buf st1)[fr_offset child := initial_length_byte],
                                    cb_frames := (cb_frames st1)[Suc d :=
                                      child\<lparr>fr_offset := fr_offset child + 1,
                                            fr_pending_len_len := len_len - 1\<rparr>]\<rparr>
                      in flush_length d len' st2))))"

function CBB_flush :: "alloc \<Rightarrow> nat \<Rightarrow> cbb \<Rightarrow> bool \<times> cbb" where
  "CBB_flush al d st =
     (if length (cb_frames st) \<le> d \<or> cb_error st then (False, st)
      else if length (cb_frames st) \<le> Suc d \<or> fr_pending_len_len (cb_frames st ! Suc d) = 0
      then (True, st)
      else
      (case CBB_flush al (Suc d) st of
         (False, st') \<Rightarrow> cbb_fail st'
       | (True, st') \<Rightarrow> flush_child al d st'))"
  by pat_completeness auto
termination
  by (relation "measure (\<lambda>(al, d, st). length (cb_frames st) - d)") auto

declare CBB_flush.simps [simp del]

text \<open>Outputs of \<^verbatim>\<open>CBB_finish\<close>: the bytes where \<^verbatim>\<open>out_data\<close> is given, their number where \<^verbatim>\<open>out_len\<close> is
  given.\<close>

definition CBB_finish ::
    "alloc \<Rightarrow> nat \<Rightarrow> cbb \<Rightarrow> bool \<Rightarrow> bool \<Rightarrow> (u8 list option \<times> nat option) option \<times> cbb" where
  "CBB_finish al d st out_data out_len =
     (if d \<noteq> 0 then (None, st)
      else
      (case CBB_flush al d st of
         (False, st') \<Rightarrow> (None, st')
       | (True, st') \<Rightarrow>
           if cb_can_resize st' \<and> (\<not> out_data \<or> \<not> out_len) then (None, st')
           else (Some (if out_data then Some (cb_buf st') else None,
                       if out_len then Some (cb_len st') else None),
                 CBB_cleanup d st')))"

definition CBB_data :: "nat \<Rightarrow> cbb \<Rightarrow> u8 list" where
  "CBB_data d st =
     (let fr = cb_frames st ! d in drop (fr_offset fr + fr_pending_len_len fr) (cb_buf st))"

definition CBB_len :: "nat \<Rightarrow> cbb \<Rightarrow> nat" where
  "CBB_len d st =
     (let fr = cb_frames st ! d in cb_len st - fr_offset fr - fr_pending_len_len fr)"

subsection \<open>Bytes and integers\<close>

definition CBB_add_bytes :: "alloc \<Rightarrow> nat \<Rightarrow> cbb \<Rightarrow> u8 list \<Rightarrow> bool \<times> cbb" where
  "CBB_add_bytes al d st data =
     and_then (CBB_flush al d st) (\<lambda>st.
       and_then (cbb_buffer_add al st (length data)) (\<lambda>st'.
         (True, st'\<lparr>cb_buf := mem_write (cb_buf st') (cb_len st) data\<rparr>)))"

definition CBB_add_space :: "alloc \<Rightarrow> nat \<Rightarrow> cbb \<Rightarrow> nat \<Rightarrow> bool \<times> cbb" where
  "CBB_add_space al d st len =
     and_then (CBB_flush al d st) (\<lambda>st. cbb_buffer_add al st len)"

definition CBB_add_zeros :: "alloc \<Rightarrow> nat \<Rightarrow> cbb \<Rightarrow> nat \<Rightarrow> bool \<times> cbb" where
  "CBB_add_zeros al d st len =
     and_then (CBB_add_space al d st len) (\<lambda>st.
       (True, st\<lparr>cb_buf := mem_write (cb_buf st) (cb_len st - len) (replicate len 0)\<rparr>))"

definition CBB_reserve :: "alloc \<Rightarrow> nat \<Rightarrow> cbb \<Rightarrow> nat \<Rightarrow> bool \<times> cbb" where
  "CBB_reserve al d st len =
     and_then (CBB_flush al d st) (\<lambda>st. cbb_buffer_reserve al st len)"

text \<open>The argument is what the caller wrote to the reserved space.\<close>

definition CBB_did_write :: "nat \<Rightarrow> cbb \<Rightarrow> u8 list \<Rightarrow> bool \<times> cbb" where
  "CBB_did_write d st data =
     (let newlen = size_add (cb_len st) (length data)
      in if Suc d < length (cb_frames st) \<or> newlen < cb_len st \<or> cb_cap st < newlen then (False, st)
         else (True, st\<lparr>cb_buf := cb_buf st @ data\<rparr>))"

definition CBB_add_u8 :: "alloc \<Rightarrow> nat \<Rightarrow> cbb \<Rightarrow> u8 \<Rightarrow> bool \<times> cbb" where
  "CBB_add_u8 al d st v = and_then (CBB_flush al d st) (\<lambda>st. cbb_buffer_add_u al st (ucast v) 1)"

definition CBB_add_u16 :: "alloc \<Rightarrow> nat \<Rightarrow> cbb \<Rightarrow> u16 \<Rightarrow> bool \<times> cbb" where
  "CBB_add_u16 al d st v = and_then (CBB_flush al d st) (\<lambda>st. cbb_buffer_add_u al st (ucast v) 2)"

definition CBB_add_u16le :: "alloc \<Rightarrow> nat \<Rightarrow> cbb \<Rightarrow> u16 \<Rightarrow> bool \<times> cbb" where
  "CBB_add_u16le al d st v = CBB_add_u16 al d st (CRYPTO_bswap2 v)"

definition CBB_add_u24 :: "alloc \<Rightarrow> nat \<Rightarrow> cbb \<Rightarrow> u32 \<Rightarrow> bool \<times> cbb" where
  "CBB_add_u24 al d st v = and_then (CBB_flush al d st) (\<lambda>st. cbb_buffer_add_u al st (ucast v) 3)"

definition CBB_add_u32 :: "alloc \<Rightarrow> nat \<Rightarrow> cbb \<Rightarrow> u32 \<Rightarrow> bool \<times> cbb" where
  "CBB_add_u32 al d st v = and_then (CBB_flush al d st) (\<lambda>st. cbb_buffer_add_u al st (ucast v) 4)"

definition CBB_add_u32le :: "alloc \<Rightarrow> nat \<Rightarrow> cbb \<Rightarrow> u32 \<Rightarrow> bool \<times> cbb" where
  "CBB_add_u32le al d st v = CBB_add_u32 al d st (CRYPTO_bswap4 v)"

definition CBB_add_u64 :: "alloc \<Rightarrow> nat \<Rightarrow> cbb \<Rightarrow> u64 \<Rightarrow> bool \<times> cbb" where
  "CBB_add_u64 al d st v = and_then (CBB_flush al d st) (\<lambda>st. cbb_buffer_add_u al st v 8)"

definition CBB_add_u64le :: "alloc \<Rightarrow> nat \<Rightarrow> cbb \<Rightarrow> u64 \<Rightarrow> bool \<times> cbb" where
  "CBB_add_u64le al d st v = CBB_add_u64 al d st (CRYPTO_bswap8 v)"

definition CBB_discard_child :: "nat \<Rightarrow> cbb \<Rightarrow> cbb" where
  "CBB_discard_child d st =
     (if length (cb_frames st) \<le> Suc d then st
      else st\<lparr>cb_buf := take (fr_offset (cb_frames st ! Suc d)) (cb_buf st),
              cb_frames := take (Suc d) (cb_frames st)\<rparr>)"

subsection \<open>Children\<close>

definition open_child :: "nat \<Rightarrow> nat \<Rightarrow> nat \<Rightarrow> bool \<Rightarrow> cbb \<Rightarrow> cbb" where
  "open_child d offset len_len is_asn1 st =
     st\<lparr>cb_frames := take (Suc d) (cb_frames st) @
       [\<lparr>fr_offset = offset, fr_pending_len_len = len_len, fr_pending_is_asn1 = is_asn1\<rparr>]\<rparr>"

definition cbb_add_length_prefixed :: "alloc \<Rightarrow> nat \<Rightarrow> cbb \<Rightarrow> nat \<Rightarrow> bool \<times> cbb" where
  "cbb_add_length_prefixed al d st len_len =
     and_then (CBB_flush al d st) (\<lambda>st.
       let offset = cb_len st
       in and_then (cbb_buffer_add al st len_len) (\<lambda>st.
            (True, open_child d offset len_len False
                     (st\<lparr>cb_buf := mem_write (cb_buf st) offset (replicate len_len 0)\<rparr>))))"

definition CBB_add_u8_length_prefixed :: "alloc \<Rightarrow> nat \<Rightarrow> cbb \<Rightarrow> bool \<times> cbb" where
  "CBB_add_u8_length_prefixed al d st = cbb_add_length_prefixed al d st 1"

definition CBB_add_u16_length_prefixed :: "alloc \<Rightarrow> nat \<Rightarrow> cbb \<Rightarrow> bool \<times> cbb" where
  "CBB_add_u16_length_prefixed al d st = cbb_add_length_prefixed al d st 2"

definition CBB_add_u24_length_prefixed :: "alloc \<Rightarrow> nat \<Rightarrow> cbb \<Rightarrow> bool \<times> cbb" where
  "CBB_add_u24_length_prefixed al d st = cbb_add_length_prefixed al d st 3"

text \<open>The first loop of \<^verbatim>\<open>add_base128_integer\<close> counts the groups, the second writes them.\<close>

function base128_len :: "u64 \<Rightarrow> nat" where
  "base128_len copy = (if 0 < copy then Suc (base128_len (drop_bit 7 copy)) else 0)"
  by pat_completeness auto
termination
  by (relation "measure unat") (auto simp: unat_drop_bit unat_gt_0 word_gt_0 simp del: drop_bit_numeral_minus_bit1)

declare base128_len.simps [simp del]

fun add_base128_loop :: "alloc \<Rightarrow> nat \<Rightarrow> u64 \<Rightarrow> nat \<Rightarrow> cbb \<Rightarrow> bool \<times> cbb" where
  "add_base128_loop al d v 0 st = (True, st)"
| "add_base128_loop al d v (Suc i) st =
     (let byte = ucast (drop_bit (7 * i) v AND 0x7f); byte' = (if i \<noteq> 0 then byte OR 0x80 else byte)
      in and_then (CBB_add_u8 al d st byte') (add_base128_loop al d v i))"

definition add_base128_integer :: "alloc \<Rightarrow> nat \<Rightarrow> cbb \<Rightarrow> u64 \<Rightarrow> bool \<times> cbb" where
  "add_base128_integer al d st v =
     (let n = base128_len v; len_len = (if n = 0 then 1 else n)
      in add_base128_loop al d v len_len st)"

definition CBB_add_asn1 :: "alloc \<Rightarrow> nat \<Rightarrow> cbb \<Rightarrow> u32 \<Rightarrow> bool \<times> cbb" where
  "CBB_add_asn1 al d st tag =
     and_then (CBB_flush al d st) (\<lambda>st.
       let tag_bits = ucast (drop_bit CBS_ASN1_TAG_SHIFT tag) AND 0xe0 :: u8;
           tag_number = tag AND CBS_ASN1_TAG_NUMBER_MASK
       in and_then
            (if 0x1f \<le> tag_number
             then and_then (CBB_add_u8 al d st (tag_bits OR 0x1f))
                    (\<lambda>st. add_base128_integer al d st (ucast tag_number))
             else CBB_add_u8 al d st (tag_bits OR ucast tag_number))
            (\<lambda>st. let offset = cb_len st
                  in and_then (CBB_add_u8 al d st 0) (\<lambda>st. (True, open_child d offset 1 True st))))"

subsection \<open>ASN.1 values\<close>

text \<open>The loop of \<^verbatim>\<open>CBB_add_asn1_uint64\<close> with \<open>k\<close> bytes still to look at; the first flag is failure
  or success, the second \<^verbatim>\<open>started\<close>.\<close>

fun add_uint64_loop :: "alloc \<Rightarrow> nat \<Rightarrow> u64 \<Rightarrow> nat \<Rightarrow> bool \<Rightarrow> cbb \<Rightarrow> bool \<times> bool \<times> cbb" where
  "add_uint64_loop al d v 0 started st = (True, started, st)"
| "add_uint64_loop al d v (Suc k) started st =
     (let byte = ucast (drop_bit (8 * k) v AND 0xff) :: u8
      in if \<not> started \<and> byte = 0 then add_uint64_loop al d v k started st
         else
         (case (if \<not> started \<and> byte AND 0x80 \<noteq> 0 then CBB_add_u8 al d st 0 else (True, st)) of
            (False, st') \<Rightarrow> (False, started, st')
          | (True, st') \<Rightarrow>
              (case CBB_add_u8 al d st' byte of
                 (False, st'') \<Rightarrow> (False, True, st'')
               | (True, st'') \<Rightarrow> add_uint64_loop al d v k True st'')))"

definition CBB_add_asn1_uint64 :: "alloc \<Rightarrow> nat \<Rightarrow> cbb \<Rightarrow> u64 \<Rightarrow> bool \<times> cbb" where
  "CBB_add_asn1_uint64 al d st v =
     and_then (CBB_add_asn1 al d st CBS_ASN1_INTEGER) (\<lambda>st.
       case add_uint64_loop al (Suc d) v 8 False st of
         (ok, started, st') \<Rightarrow>
           if \<not> ok then (False, st')
           else and_then (if \<not> started then CBB_add_u8 al (Suc d) st' 0 else (True, st'))
                  (CBB_flush al d))"

text \<open>The bytes of the union of \<^verbatim>\<open>CBB_add_asn1_int64\<close>, least significant first.\<close>

definition le_bytes64 :: "u64 \<Rightarrow> u8 list" where
  "le_bytes64 v = map (\<lambda>i. ucast (drop_bit (8 * i) v)) [0..<8]"

fun int64_start :: "u8 list \<Rightarrow> nat \<Rightarrow> nat" where
  "int64_start bytes 0 = 0"
| "int64_start bytes (Suc n) =
     (if bytes ! Suc n = 0xff \<and> bytes ! n AND 0x80 \<noteq> 0 then int64_start bytes n else Suc n)"

fun add_bytes_down :: "alloc \<Rightarrow> nat \<Rightarrow> u8 list \<Rightarrow> nat \<Rightarrow> cbb \<Rightarrow> bool \<times> cbb" where
  "add_bytes_down al d bytes 0 st = CBB_add_u8 al d st (bytes ! 0)"
| "add_bytes_down al d bytes (Suc i) st =
     and_then (CBB_add_u8 al d st (bytes ! Suc i)) (add_bytes_down al d bytes i)"

definition CBB_add_asn1_int64 :: "alloc \<Rightarrow> nat \<Rightarrow> cbb \<Rightarrow> u64 \<Rightarrow> bool \<times> cbb" where
  "CBB_add_asn1_int64 al d st v =
     (if 0 \<le> sint v then CBB_add_asn1_uint64 al d st v
      else let bytes = le_bytes64 v; start = int64_start bytes 7
           in and_then (CBB_add_asn1 al d st CBS_ASN1_INTEGER) (\<lambda>st.
                and_then (add_bytes_down al (Suc d) bytes start st) (CBB_flush al d)))"

definition CBB_add_asn1_octet_string :: "alloc \<Rightarrow> nat \<Rightarrow> cbb \<Rightarrow> u8 list \<Rightarrow> bool \<times> cbb" where
  "CBB_add_asn1_octet_string al d st data =
     and_then (CBB_add_asn1 al d st CBS_ASN1_OCTETSTRING) (\<lambda>st.
       and_then (CBB_add_bytes al (Suc d) st data) (CBB_flush al d))"

definition CBB_add_asn1_bool :: "alloc \<Rightarrow> nat \<Rightarrow> cbb \<Rightarrow> int \<Rightarrow> bool \<times> cbb" where
  "CBB_add_asn1_bool al d st v =
     and_then (CBB_add_asn1 al d st CBS_ASN1_BOOLEAN) (\<lambda>st.
       and_then (CBB_add_u8 al (Suc d) st (if v \<noteq> 0 then 0xff else 0)) (CBB_flush al d))"

section \<open>What the builder appends\<close>

subsection \<open>The buffer\<close>

text \<open>A state in which position \<open>d\<close> is the innermost \<^verbatim>\<open>CBB\<close> and no error has occurred.\<close>

definition cbb_open :: "nat \<Rightarrow> cbb \<Rightarrow> bool" where
  "cbb_open d st \<longleftrightarrow> length (cb_frames st) = Suc d \<and> \<not> cb_error st \<and> cb_len st < SIZE_MAX_1"

definition appended :: "cbb \<Rightarrow> u8 list \<Rightarrow> cbb \<Rightarrow> bool" where
  "appended st bs st' \<longleftrightarrow>
     cb_buf st' = cb_buf st @ bs \<and> cb_frames st' = cb_frames st \<and> cb_can_resize st' = cb_can_resize st \<and>
     \<not> cb_error st' \<and> cb_len st' < SIZE_MAX_1"

text \<open>A growable buffer whose allocator never refuses, with space for \<open>n\<close> more bytes.\<close>

definition roomy :: "alloc \<Rightarrow> nat \<Rightarrow> cbb \<Rightarrow> bool" where
  "roomy al n st \<longleftrightarrow> cb_can_resize st \<and> (\<forall>k. al k) \<and> cb_cap st \<le> 2 ^ 62 \<and> cb_len st + n < 2 ^ 61"

text \<open>An operation at position \<open>d\<close> emits \<open>bs\<close> if it appends exactly \<open>bs\<close> whenever it succeeds, and
  succeeds whenever there is room.\<close>

definition emits :: "alloc \<Rightarrow> nat \<Rightarrow> (cbb \<Rightarrow> bool \<times> cbb) \<Rightarrow> u8 list \<Rightarrow> bool" where
  "emits al d f bs \<longleftrightarrow>
     (\<forall>st. cbb_open d st \<longrightarrow>
        (\<forall>st'. f st = (True, st') \<longrightarrow> appended st bs st') \<and>
        (roomy al (length bs) st \<longrightarrow> (\<exists>st'. f st = (True, st') \<and> cb_cap st' \<le> 2 ^ 62)))"

lemma emitsI:
  assumes "\<And>st st'. \<lbrakk>cbb_open d st; f st = (True, st')\<rbrakk> \<Longrightarrow> appended st bs st'"
    and "\<And>st. \<lbrakk>cbb_open d st; roomy al (length bs) st\<rbrakk> \<Longrightarrow> \<exists>st'. f st = (True, st') \<and> cb_cap st' \<le> 2 ^ 62"
  shows "emits al d f bs"
  using assms by (simp add: emits_def)

lemma emits_appended: "\<lbrakk>emits al d f bs; cbb_open d st; f st = (True, st')\<rbrakk> \<Longrightarrow> appended st bs st'"
  by (simp add: emits_def)

lemma emits_succeeds:
  assumes "emits al d f bs" and "cbb_open d st" and "roomy al (length bs) st"
  obtains st' where "f st = (True, st')" and "appended st bs st'" and "cb_cap st' \<le> 2 ^ 62"
  using assms unfolding emits_def by blast

lemma appended_open: "\<lbrakk>appended st bs st'; cbb_open d st\<rbrakk> \<Longrightarrow> cbb_open d st'"
  by (auto simp: appended_def cbb_open_def)

lemma appended_trans: "\<lbrakk>appended st bs st'; appended st' cs st''\<rbrakk> \<Longrightarrow> appended st (bs @ cs) st''"
  by (auto simp: appended_def)

lemma appended_roomy:
  "\<lbrakk>appended st bs st'; cb_cap st' \<le> 2 ^ 62; roomy al (length bs + n) st\<rbrakk> \<Longrightarrow> roomy al n st'"
  by (auto simp: appended_def roomy_def)

lemma roomy_mono: "\<lbrakk>roomy al m st; n \<le> m\<rbrakk> \<Longrightarrow> roomy al n st"
  by (simp add: roomy_def)

lemma emits_Nil: "emits al d (\<lambda>st. (True, st)) []"
  by (rule emitsI) (auto simp: appended_def cbb_open_def roomy_def)

lemma emits_and_then:
  assumes f: "emits al d f bs" and g: "emits al d g cs"
  shows "emits al d (\<lambda>st. and_then (f st) g) (bs @ cs)"
proof (rule emitsI)
  fix st st'
  assume o: "cbb_open d st" and "and_then (f st) g = (True, st')"
  then obtain st1 where 1: "f st = (True, st1)" and 2: "g st1 = (True, st')"
    by (auto simp: and_then_True_iff)
  from f o 1 have a: "appended st bs st1" by (rule emits_appended)
  then have "cbb_open d st1" using o by (rule appended_open)
  with g 2 have "appended st1 cs st'" by (blast intro: emits_appended)
  with a show "appended st (bs @ cs) st'" by (rule appended_trans)
next
  fix st
  assume o: "cbb_open d st" and r: "roomy al (length (bs @ cs)) st"
  then have "roomy al (length bs) st" by (auto elim: roomy_mono)
  with f o obtain st1 where 1: "f st = (True, st1)" "appended st bs st1" "cb_cap st1 \<le> 2 ^ 62"
    by (rule emits_succeeds)
  moreover from 1 o have "cbb_open d st1" by (blast intro: appended_open)
  moreover from 1 r have "roomy al (length cs) st1" by (auto intro: appended_roomy)
  ultimately show "\<exists>st'. and_then (f st) g = (True, st') \<and> cb_cap st' \<le> 2 ^ 62"
    using emits_succeeds [OF g] by (metis and_then_simps(1))
qed

lemma CBB_flush_open: "cbb_open d st \<Longrightarrow> CBB_flush al d st = (True, st)"
  by (subst CBB_flush.simps) (simp add: cbb_open_def)

lemma emits_flush: "emits al d (CBB_flush al d) []"
  by (rule emitsI) (auto simp: CBB_flush_open appended_def cbb_open_def roomy_def)

lemma emits_flush_first:
  "emits al d f bs \<Longrightarrow> emits al d (\<lambda>st. and_then (CBB_flush al d st) f) bs"
  using emits_and_then [OF emits_flush] by simp

lemma reserve_appended:
  assumes "cb_len st < SIZE_MAX_1" "\<not> cb_error st" "n < SIZE_MAX_1"
    and "cbb_buffer_reserve al st n = (True, st')"
  shows "appended st [] st' \<and> cb_len st + n < SIZE_MAX_1 \<and> cb_len st + n \<le> cb_cap st'"
proof -
  let ?N = "size_add (cb_len st) n"
  from assms(4) have ge: "\<not> ?N < cb_len st"
    by (auto simp: cbb_buffer_reserve_def cbb_fail_def Let_def split: if_splits)
  with assms(1,3) have lt: "cb_len st + n < SIZE_MAX_1" by (simp add: size_add_overflow_iff)
  then have N: "?N = cb_len st + n" by (rule size_add_eq)
  show ?thesis
  proof (cases "cb_cap st < ?N")
    case False
    with ge assms lt N show ?thesis by (auto simp: cbb_buffer_reserve_def appended_def)
  next
    case True
    from assms(4) True ge obtain c buf where
      c: "OPENSSL_realloc al (Some (cb_buf st)) c = Some buf" "?N \<le> c"
      "st' = st\<lparr>cb_buf := take (cb_len st) buf, cb_cap := c\<rparr>"
      by (auto simp: cbb_buffer_reserve_def cbb_fail_def Let_def not_less split: if_splits option.splits)
    from c have "take (cb_len st) buf = cb_buf st"
      using N by (auto simp: OPENSSL_realloc_def Let_def split: option.splits if_splits)
    with c lt N assms show ?thesis by (simp add: appended_def)
  qed
qed

lemma reserve_succeeds:
  assumes "roomy al n st"
  shows "\<exists>st'. cbb_buffer_reserve al st n = (True, st') \<and> cb_cap st' \<le> 2 ^ 62"
proof -
  have N: "size_add (cb_len st) n = cb_len st + n"
    using assms by (intro size_add_eq) (simp add: roomy_def SIZE_MAX_1_def)
  have al: "OPENSSL_malloc al c \<noteq> None" if "c \<le> 2 ^ 62" for c
    using that assms size_add_eq [of c 8]
    by (simp add: OPENSSL_malloc_def OPENSSL_MALLOC_PREFIX_def roomy_def SIZE_MAX_1_def)
  have re: "\<exists>b. OPENSSL_realloc al (Some (cb_buf st)) c = Some b" if "c \<le> 2 ^ 62" for c
    using al [OF that] by (auto simp: OPENSSL_realloc_def Let_def)
  have "cb_cap st * 2 \<le> 2 ^ 62 * 2" using assms unfolding roomy_def by (intro mult_le_mono1) blast
  then have c0: "(cb_cap st * 2) mod SIZE_MAX_1 = cb_cap st * 2"
    by (intro mod_less) (simp add: SIZE_MAX_1_def)
  show ?thesis
  proof (cases "cb_cap st < cb_len st + n")
    case True
    define c where "c = (if cb_cap st * 2 < cb_len st + n then cb_len st + n else cb_cap st * 2)"
    have le: "c \<le> 2 ^ 62" using assms True by (auto simp: c_def roomy_def)
    then obtain b where "OPENSSL_realloc al (Some (cb_buf st)) c = Some b" using re by blast
    then have "cbb_buffer_reserve al st n = (True, st\<lparr>cb_buf := take (cb_len st) b, cb_cap := c\<rparr>)"
      using True N assms c0 by (simp add: cbb_buffer_reserve_def Let_def roomy_def c_def)
    with le show ?thesis by simp
  next
    case False
    with N assms show ?thesis by (simp add: cbb_buffer_reserve_def roomy_def)
  qed
qed

lemma emits_buffer_add:
  "n < SIZE_MAX_1 \<Longrightarrow> emits al d (\<lambda>st. cbb_buffer_add al st n) (replicate n 0)"
proof (rule emitsI)
  fix st st'
  assume n: "n < SIZE_MAX_1" and o: "cbb_open d st" and a: "cbb_buffer_add al st n = (True, st')"
  then obtain st1 where 1: "cbb_buffer_reserve al st n = (True, st1)"
    "st' = st1\<lparr>cb_buf := cb_buf st1 @ replicate n 0\<rparr>"
    by (auto simp: cbb_buffer_add_def and_then_True_iff)
  from reserve_appended [OF _ _ n 1(1)] o 1(2) show "appended st (replicate n 0) st'"
    by (simp add: cbb_open_def appended_def)
next
  fix st
  assume "roomy al (length (replicate n (0::u8))) st"
  then show "\<exists>st'. cbb_buffer_add al st n = (True, st') \<and> cb_cap st' \<le> 2 ^ 62"
    using reserve_succeeds [of al n st] by (auto simp: cbb_buffer_add_def)
qed


subsection \<open>Integers and bytes\<close>

lemma write_be_eq:
  "length gap = n \<Longrightarrow>
    write_be (pre @ gap @ post) (length pre) n v = (pre @ be_bytes n (unat v) @ post, drop_bit (8 * n) v)"
proof (induction n arbitrary: gap post v)
  case 0
  then show ?case by simp
next
  case (Suc n)
  then obtain g x where gap: "gap = g @ [x]" and g: "length g = n"
    by (metis length_Suc_conv_rev)
  have u: "(pre @ gap @ post)[length pre + n := ucast v] = pre @ g @ (of_nat (unat v) # post)"
    using g by (simp add: gap list_update_append)
  have d: "unat (drop_bit 8 v) = unat v div 256" by (simp add: unat_drop_bit)
  show ?case
    using Suc.IH [OF g, of "of_nat (unat v) # post" "drop_bit 8 v"]
    by (simp only: write_be.simps u d be_bytes.simps append.assoc append_Cons append_Nil
        drop_bit_drop_bit mult_Suc_right add.commute [of 8 "8 * n"])
qed

lemma emits_buffer_add_u:
  assumes "n \<le> 8" and "unat v < 256 ^ n"
  shows "emits al d (\<lambda>st. cbb_buffer_add_u al st v n) (be_bytes n (unat v))"
proof (cases "n = 0")
  case True
  then show ?thesis using emits_Nil by (simp add: cbb_buffer_add_u_def)
next
  case False
  have add: "emits al d (\<lambda>st. cbb_buffer_add al st n) (replicate n 0)"
    using assms(1) by (intro emits_buffer_add) (simp add: SIZE_MAX_1_def)
  have z: "drop_bit (8 * n) v = 0"
  proof -
    have "(256::nat) ^ n = 2 ^ (8 * n)" using power_mult [of "2::nat" 8 n] by simp
    with assms(2) show ?thesis by (simp add: word_unat_eq_iff unat_drop_bit div_eq_0_iff)
  qed
  have step: "cbb_buffer_add_u al st v n = (True, st1\<lparr>cb_buf := cb_buf st @ be_bytes n (unat v)\<rparr>)"
    if "cbb_buffer_add al st n = (True, st1)" "appended st (replicate n 0) st1" for st st1
    using that False write_be_eq [of "replicate n 0" n "cb_buf st" "[]" v] z
    by (simp add: cbb_buffer_add_u_def Let_def appended_def)
  show ?thesis
  proof (rule emitsI)
    fix st st'
    assume o: "cbb_open d st" and r: "cbb_buffer_add_u al st v n = (True, st')"
    then obtain st1 where 1: "cbb_buffer_add al st n = (True, st1)"
      using False by (auto simp: cbb_buffer_add_u_def Let_def and_then_True_iff)
    with add o have a: "appended st (replicate n 0) st1" by (rule emits_appended)
    with step [OF 1 a] r show "appended st (be_bytes n (unat v)) st'"
      by (auto simp: appended_def)
  next
    fix st
    assume "cbb_open d st" and "roomy al (length (be_bytes n (unat v))) st"
    then obtain st1 where "cbb_buffer_add al st n = (True, st1)" "appended st (replicate n 0) st1"
      "cb_cap st1 \<le> 2 ^ 62"
      using emits_succeeds [OF add, of st] by auto
    with step show "\<exists>st'. cbb_buffer_add_u al st v n = (True, st') \<and> cb_cap st' \<le> 2 ^ 62" by simp
  qed
qed

lemma emits_add_u8: "emits al d (\<lambda>st. CBB_add_u8 al d st b) [b]"
  using emits_flush_first [OF emits_buffer_add_u [of 1 "ucast b"]] by (simp add: CBB_add_u8_def)

lemma emits_add_u16: "emits al d (\<lambda>st. CBB_add_u16 al d st v) (be_bytes 2 (unat v))"
proof -
  have u: "unat (ucast v :: u64) = unat v" by (rule unat_ucast_up) simp
  have "unat v < 256 ^ 2" using unsigned_less [of v, where 'a = nat] by simp
  with u emits_flush_first [OF emits_buffer_add_u [of 2 "ucast v"]] show ?thesis
    by (simp add: CBB_add_u16_def)
qed

lemma emits_add_u24:
  "unat v < 2 ^ 24 \<Longrightarrow> emits al d (\<lambda>st. CBB_add_u24 al d st v) (be_bytes 3 (unat v))"
proof -
  assume v: "unat v < 2 ^ 24"
  have u: "unat (ucast v :: u64) = unat v" by (rule unat_ucast_up) simp
  with v emits_flush_first [OF emits_buffer_add_u [of 3 "ucast v"]] show ?thesis
    by (simp add: CBB_add_u24_def)
qed

lemma emits_add_u32: "emits al d (\<lambda>st. CBB_add_u32 al d st v) (be_bytes 4 (unat v))"
proof -
  have u: "unat (ucast v :: u64) = unat v" by (rule unat_ucast_up) simp
  with u32_bound [of v] emits_flush_first [OF emits_buffer_add_u [of 4 "ucast v"]] show ?thesis
    by (simp add: CBB_add_u32_def)
qed

lemma emits_add_u64: "emits al d (\<lambda>st. CBB_add_u64 al d st v) (be_bytes 8 (unat v))"
  using u64_bound [of v] emits_flush_first [OF emits_buffer_add_u [of 8 v]]
  by (simp add: CBB_add_u64_def)

lemma emits_buffer_write:
  assumes "length data < SIZE_MAX_1"
  shows "emits al d (\<lambda>st. and_then (cbb_buffer_add al st (length data))
      (\<lambda>st'. (True, st'\<lparr>cb_buf := mem_write (cb_buf st') (cb_len st) data\<rparr>))) data"
    (is "emits al d ?f data")
proof -
  have add: "emits al d (\<lambda>st. cbb_buffer_add al st (length data)) (replicate (length data) 0)"
    using assms by (rule emits_buffer_add)
  have w: "mem_write (cb_buf st1) (cb_len st) data = cb_buf st @ data"
    if "appended st (replicate (length data) 0) st1" for st st1
    using that by (simp add: appended_def mem_write_def)
  show ?thesis
  proof (rule emitsI)
    fix st st'
    assume o: "cbb_open d st" and "?f st = (True, st')"
    then obtain st1 where 1: "cbb_buffer_add al st (length data) = (True, st1)"
      and st': "st' = st1\<lparr>cb_buf := mem_write (cb_buf st1) (cb_len st) data\<rparr>"
      by (auto simp: and_then_True_iff)
    from add o 1 have a: "appended st (replicate (length data) 0) st1" by (rule emits_appended)
    with w [OF a] st' show "appended st data st'" by (auto simp: appended_def)
  next
    fix st
    assume "cbb_open d st" and "roomy al (length data) st"
    then show "\<exists>st'. ?f st = (True, st') \<and> cb_cap st' \<le> 2 ^ 62"
      using emits_succeeds [OF add, of st] by force
  qed
qed

lemma emits_add_bytes:
  "length data < SIZE_MAX_1 \<Longrightarrow> emits al d (\<lambda>st. CBB_add_bytes al d st data) data"
  unfolding CBB_add_bytes_def by (rule emits_flush_first [OF emits_buffer_write])

subsection \<open>Pending lengths\<close>

lemma asn1_len_octets_None_iff: "asn1_len_octets n = None \<longleftrightarrow> 0xfffffffe < n"
  by (simp add: asn1_len_octets_def)

text \<open>The length octets \<^verbatim>\<open>CBB_flush\<close> computes are those of DER.\<close>

lemma asn1_len_octets_der:
  assumes "asn1_len_octets n = Some (k, b, rest)"
  shows "der_length n = b # be_bytes (k - 1) rest \<and> 1 \<le> k \<and> k \<le> 5 \<and> rest < 256 ^ (k - 1)"
proof -
  have l: "byte_len n = Suc j" if "n < 256 ^ Suc j" "256 ^ j \<le> n" for j
    using that by (rule byte_len_eqI)
  consider "n \<le> 0x7f" | "0x7f < n" "n \<le> 0xff" | "0xff < n" "n \<le> 0xffff" | "0xffff < n" "n \<le> 0xffffff"
    | "0xffffff < n" "n \<le> 0xfffffffe"
    using assms by (cases "n \<le> 0xfffffffe") (fastforce simp: asn1_len_octets_def)+
  then show ?thesis
  proof cases
    case 1
    with assms show ?thesis by (auto simp: asn1_len_octets_def der_length_def)
  next
    case 2
    with assms l [of 0] show ?thesis by (auto simp: asn1_len_octets_def der_length_def)
  next
    case 3
    with assms l [of 1] show ?thesis by (auto simp: asn1_len_octets_def der_length_def numeral_2_eq_2)
  next
    case 4
    with assms l [of 2] show ?thesis by (auto simp: asn1_len_octets_def der_length_def)
  next
    case 5
    with assms l [of 3] show ?thesis by (auto simp: asn1_len_octets_def der_length_def)
  qed
qed

lemma flush_length_eq:
  assumes "cb_buf st = pre @ gap @ post" and "cb_frames st = frs @ [\<lparr>fr_offset = length pre, fr_pending_len_len = k, fr_pending_is_asn1 = a\<rparr>]"
    and "length frs = Suc d" and "length gap = k" and "n < 256 ^ k" and "k \<le> 8"
  shows "flush_length d n st = (True, st\<lparr>cb_buf := pre @ be_bytes k n @ post, cb_frames := frs\<rparr>)"
proof -
  have "(256::nat) ^ k = 2 ^ (8 * k)" using power_mult [of "2::nat" 8 k] by simp
  moreover have "(256::nat) ^ k \<le> 256 ^ 8" using assms(6) by (rule power_increasing) simp
  ultimately have u: "unat (of_nat n :: u64) = n" and z: "drop_bit (8 * k) (of_nat n :: u64) = 0"
    using assms(5) by (simp_all add: unat_of_nat word_unat_eq_iff unat_drop_bit)
  have "cb_frames st ! Suc d = \<lparr>fr_offset = length pre, fr_pending_len_len = k, fr_pending_is_asn1 = a\<rparr>"
    using assms(2,3) by (simp add: nth_append)
  then show ?thesis
    using assms write_be_eq [OF assms(4), of pre post "of_nat n"] u z by (simp add: flush_length_def)
qed

text \<open>A child with a pending length prefix of fixed size: the prefix must hold the length.\<close>

lemma flush_child_prefixed:
  assumes "cb_buf st = pre @ gap @ body" and "cb_frames st = frs @ [\<lparr>fr_offset = length pre, fr_pending_len_len = k, fr_pending_is_asn1 = False\<rparr>]"
    and "length frs = Suc d" and "length gap = k" and "k \<le> 8" and "cb_len st < SIZE_MAX_1"
  shows "flush_child al d st =
    (if length body < 256 ^ k then (True, st\<lparr>cb_buf := pre @ be_bytes k (length body) @ body, cb_frames := frs\<rparr>)
     else cbb_fail (st\<lparr>cb_buf := pre @ be_bytes k (length body) @ body\<rparr>))"
proof -
  have fr: "cb_frames st ! Suc d = \<lparr>fr_offset = length pre, fr_pending_len_len = k, fr_pending_is_asn1 = False\<rparr>"
    using assms(2,3) by (simp add: nth_append)
  have start: "size_add (length pre) k = length pre + k"
    using assms(1,4,6) by (intro size_add_eq) simp
  have eq: "flush_child al d st = flush_length d (length body) st"
    using fr start assms(1,4) by (simp add: flush_child_def Let_def)
  show ?thesis
  proof (cases "length body < 256 ^ k")
    case True
    with eq flush_length_eq [OF assms(1-4) True assms(5)] show ?thesis by simp
  next
    case False
    have n: "unat (of_nat (length body) :: u64) = length body"
      using assms(1,6) by (intro unat_of_nat_u64) (simp add: SIZE_MAX_1_def)
    have "(256::nat) ^ k = 2 ^ (8 * k)" using power_mult [of "2::nat" 8 k] by simp
    with False n have "drop_bit (8 * k) (of_nat (length body) :: u64) \<noteq> 0"
      by (simp add: word_unat_eq_iff unat_drop_bit div_eq_0_iff)
    with False fr eq assms(1) write_be_eq [OF assms(4), of pre body "of_nat (length body)"] n show ?thesis
      by (simp add: flush_length_def)
  qed
qed

text \<open>A child with a pending DER length: the contents move to make room for a long form.\<close>

lemma flush_child_shift:
  assumes "cb_buf st = pre @ x # body" and "cb_frames st = frs @ [\<lparr>fr_offset = length pre, fr_pending_len_len = 1, fr_pending_is_asn1 = True\<rparr>]"
    and "length frs = Suc d" and "cb_len st < SIZE_MAX_1" and "asn1_len_octets (length body) = Some (k, b, rest)"
    and "(if k \<noteq> 1 then cbb_buffer_add al st (k - 1) else (True, st)) = (True, st1)"
    and "appended st (replicate (k - 1) 0) st1"
  shows "flush_child al d st = (True, st1\<lparr>cb_buf := pre @ der_length (length body) @ body, cb_frames := frs\<rparr>)"
proof -
  have fr: "cb_frames st ! Suc d = \<lparr>fr_offset = length pre, fr_pending_len_len = 1, fr_pending_is_asn1 = True\<rparr>"
    using assms(2,3) by (simp add: nth_append)
  have start: "size_add (length pre) 1 = length pre + 1"
    using assms(1,4) by (intro size_add_eq) simp
  note k = asn1_len_octets_der [OF assms(5)]
  define gap where "gap = take (k - 1) (body @ replicate (k - 1) (0::u8))"
  have lg: "length gap = k - 1" by (simp add: gap_def)
  have buf: "cb_buf st1 = pre @ x # body @ replicate (k - 1) 0"
    using assms(1,7) by (simp add: appended_def)
  have mv: "mem_move (cb_buf st1) (length pre + 1 + (k - 1)) (length pre + 1) (length body) = pre @ x # gap @ body"
    by (simp add: buf mem_move_def mem_write_def gap_def)
  have nomv: "k = 1 \<Longrightarrow> cb_buf st1 = pre @ x # gap @ body" by (simp add: buf gap_def)
  have frames: "cb_frames st1 = cb_frames st" using assms(7) by (simp add: appended_def)
  let ?st2 = "st1\<lparr>cb_buf := (pre @ [b]) @ gap @ body,
    cb_frames := frs @ [\<lparr>fr_offset = length (pre @ [b]), fr_pending_len_len = k - 1, fr_pending_is_asn1 = True\<rparr>]\<rparr>"
  have "flush_child al d st = flush_length d rest ?st2"
    using fr start assms(1-3,5,6) k mv nomv frames
    by (cases "k = 1") (simp_all add: flush_child_def shift_child_def Let_def list_update_append)
  also have "\<dots> = (True, ?st2\<lparr>cb_buf := (pre @ [b]) @ be_bytes (k - 1) rest @ body, cb_frames := frs\<rparr>)"
    using k lg assms(3) by (intro flush_length_eq) auto
  finally show ?thesis using k by simp
qed


text \<open>An operation that opens a child at position \<open>Suc d\<close>, after a header \<open>hdr\<close> and \<open>k\<close> zero bytes for the
  length.\<close>

definition child_opened :: "cbb \<Rightarrow> u8 list \<Rightarrow> nat \<Rightarrow> bool \<Rightarrow> cbb \<Rightarrow> bool" where
  "child_opened st hdr k a st' \<longleftrightarrow>
     cb_buf st' = cb_buf st @ hdr @ replicate k 0 \<and>
     cb_frames st' = cb_frames st @
       [\<lparr>fr_offset = length (cb_buf st @ hdr), fr_pending_len_len = k, fr_pending_is_asn1 = a\<rparr>] \<and>
     cb_can_resize st' = cb_can_resize st \<and> \<not> cb_error st' \<and> cb_len st' < SIZE_MAX_1"

definition opens :: "alloc \<Rightarrow> nat \<Rightarrow> (cbb \<Rightarrow> bool \<times> cbb) \<Rightarrow> u8 list \<Rightarrow> nat \<Rightarrow> bool \<Rightarrow> bool" where
  "opens al d g hdr k a \<longleftrightarrow>
     (\<forall>st. cbb_open d st \<longrightarrow>
        (\<forall>st'. g st = (True, st') \<longrightarrow> child_opened st hdr k a st') \<and>
        (roomy al (length hdr + k) st \<longrightarrow> (\<exists>st'. g st = (True, st') \<and> cb_cap st' \<le> 2 ^ 62)))"

text \<open>Flushing at position \<open>d\<close> replaces the \<open>k\<close> bytes by \<open>prefix\<close> when the child holds \<open>body\<close>.\<close>

definition closes :: "alloc \<Rightarrow> nat \<Rightarrow> nat \<Rightarrow> bool \<Rightarrow> u8 list \<Rightarrow> u8 list \<Rightarrow> bool" where
  "closes al d k a prefix body \<longleftrightarrow>
     (\<forall>st pre frs.
        cb_buf st = pre @ replicate k 0 @ body \<and>
        cb_frames st = frs @ [\<lparr>fr_offset = length pre, fr_pending_len_len = k, fr_pending_is_asn1 = a\<rparr>] \<and>
        length frs = Suc d \<and> \<not> cb_error st \<and> cb_len st < SIZE_MAX_1 \<longrightarrow>
        (\<forall>st'. flush_child al d st = (True, st') \<longrightarrow>
           cb_buf st' = pre @ prefix @ body \<and> cb_frames st' = frs \<and>
           cb_can_resize st' = cb_can_resize st \<and> \<not> cb_error st' \<and> cb_len st' < SIZE_MAX_1) \<and>
        (roomy al (length prefix - k) st \<longrightarrow> (\<exists>st'. flush_child al d st = (True, st') \<and> cb_cap st' \<le> 2 ^ 62)))"

lemma opens_and_then:
  assumes f: "emits al d f hdr" and h: "emits al d h (replicate k 0)"
  shows "opens al d (\<lambda>st. and_then (f st) (\<lambda>st. let offset = cb_len st
           in and_then (h st) (\<lambda>st. (True, open_child d offset k a st)))) hdr k a"
  unfolding opens_def
proof (intro allI impI conjI)
  fix st st'
  assume o: "cbb_open d st" and "and_then (f st) (\<lambda>st. let offset = cb_len st
           in and_then (h st) (\<lambda>st. (True, open_child d offset k a st))) = (True, st')"
  then obtain st1 st2 where 1: "f st = (True, st1)" and 2: "h st1 = (True, st2)"
    and 3: "st' = open_child d (cb_len st1) k a st2"
    by (auto simp: and_then_True_iff Let_def)
  from f o 1 have a: "appended st hdr st1" by (rule emits_appended)
  then have "cbb_open d st1" using o by (rule appended_open)
  with h 2 have "appended st1 (replicate k 0) st2" by (blast intro: emits_appended)
  with a o 3 show "child_opened st hdr k a st'"
    by (auto simp: appended_def child_opened_def open_child_def cbb_open_def)
next
  fix st
  assume o: "cbb_open d st" and r: "roomy al (length hdr + k) st"
  then have "roomy al (length hdr) st" by (auto elim: roomy_mono)
  with f o obtain st1 where 1: "f st = (True, st1)" "appended st hdr st1" "cb_cap st1 \<le> 2 ^ 62"
    by (rule emits_succeeds)
  then have "cbb_open d st1" "roomy al (length (replicate k (0::u8))) st1"
    using o r by (auto intro: appended_open appended_roomy)
  with h obtain st2 where "h st1 = (True, st2)" "cb_cap st2 \<le> 2 ^ 62" by (rule emits_succeeds)
  with 1 show "\<exists>st'. and_then (f st) (\<lambda>st. let offset = cb_len st
           in and_then (h st) (\<lambda>st. (True, open_child d offset k a st))) = (True, st') \<and> cb_cap st' \<le> 2 ^ 62"
    by (simp add: Let_def open_child_def)
qed

lemma flush_open_child:
  assumes "cbb_open (Suc d) st" and "fr_pending_len_len (cb_frames st ! Suc d) \<noteq> 0"
  shows "CBB_flush al d st = flush_child al d st"
  using assms CBB_flush_open [OF assms(1), of al] by (subst CBB_flush.simps) (simp add: cbb_open_def)

lemma opened_body:
  assumes "cbb_open d st" and "child_opened st hdr k a st1" and "appended st1 body st2"
  shows "cb_buf st2 = (cb_buf st @ hdr) @ replicate k 0 @ body"
    and "cb_frames st2 = cb_frames st @
       [\<lparr>fr_offset = length (cb_buf st @ hdr), fr_pending_len_len = k, fr_pending_is_asn1 = a\<rparr>]"
    and "length (cb_frames st) = Suc d" and "\<not> cb_error st2" and "cb_len st2 < SIZE_MAX_1"
    and "cbb_open (Suc d) st1" and "cbb_open (Suc d) st2" and "cb_can_resize st2 = cb_can_resize st"
    and "fr_pending_len_len (cb_frames st2 ! Suc d) = k"
  using assms by (auto simp: cbb_open_def child_opened_def appended_def nth_append)

text \<open>Opening a child, filling it and flushing: the shape of every nested structure.\<close>

lemma emits_child:
  assumes g: "opens al d g hdr k a" and f: "emits al (Suc d) f body" and c: "closes al d k a prefix body"
    and k: "k \<noteq> 0" "k \<le> length prefix"
  shows "emits al d (\<lambda>st. and_then (g st) (\<lambda>st. and_then (f st) (CBB_flush al d))) (hdr @ prefix @ body)"
proof (rule emitsI)
  fix st st'
  assume o: "cbb_open d st" and "and_then (g st) (\<lambda>st. and_then (f st) (CBB_flush al d)) = (True, st')"
  then obtain st1 st2 where 1: "g st = (True, st1)" and 2: "f st1 = (True, st2)"
    and 3: "CBB_flush al d st2 = (True, st')" by (auto simp: and_then_True_iff)
  from g o 1 have co: "child_opened st hdr k a st1" by (simp add: opens_def)
  then have "cbb_open (Suc d) st1" using o by (auto simp: cbb_open_def child_opened_def)
  with f 2 have a: "appended st1 body st2" by (blast intro: emits_appended)
  note b = opened_body [OF o co a]
  have "flush_child al d st2 = (True, st')" using 3 flush_open_child b(7,9) k by simp
  with c b(1-5) have "cb_buf st' = (cb_buf st @ hdr) @ prefix @ body \<and> cb_frames st' = cb_frames st \<and>
      cb_can_resize st' = cb_can_resize st2 \<and> \<not> cb_error st' \<and> cb_len st' < SIZE_MAX_1"
    unfolding closes_def by blast
  then show "appended st (hdr @ prefix @ body) st'" using b(8) by (auto simp: appended_def)
next
  fix st
  assume o: "cbb_open d st" and r: "roomy al (length (hdr @ prefix @ body)) st"
  then have "roomy al (length hdr + k) st" using k by (auto elim: roomy_mono)
  with g o obtain st1 where 1: "g st = (True, st1)" "child_opened st hdr k a st1" "cb_cap st1 \<le> 2 ^ 62"
    unfolding opens_def by blast
  then have "cbb_open (Suc d) st1" using o by (auto simp: cbb_open_def child_opened_def)
  moreover have "roomy al (length body) st1" using r 1(2,3) k by (auto simp: roomy_def child_opened_def)
  ultimately obtain st2 where 2: "f st1 = (True, st2)" "appended st1 body st2" "cb_cap st2 \<le> 2 ^ 62"
    using emits_succeeds [OF f] by blast
  note b = opened_body [OF o 1(2) 2(2)]
  have "roomy al (length prefix - k) st2" using r b(1,8) 2(3) k by (auto simp: roomy_def)
  with c b(1-5) obtain st' where "flush_child al d st2 = (True, st')" "cb_cap st' \<le> 2 ^ 62"
    unfolding closes_def by blast
  with 1(1) 2(1) flush_open_child b(7,9) k
  show "\<exists>st'. and_then (g st) (\<lambda>st. and_then (f st) (CBB_flush al d)) = (True, st') \<and> cb_cap st' \<le> 2 ^ 62"
    by simp
qed

lemma closes_prefixed:
  assumes "length body < 256 ^ k" and "k \<le> 8"
  shows "closes al d k False (be_bytes k (length body)) body"
  unfolding closes_def
proof (intro allI impI, elim conjE)
  fix st :: cbb and pre frs
  assume a: "cb_buf st = pre @ replicate k 0 @ body"
    "cb_frames st = frs @ [\<lparr>fr_offset = length pre, fr_pending_len_len = k, fr_pending_is_asn1 = False\<rparr>]"
    "length frs = Suc d" "\<not> cb_error st" "cb_len st < SIZE_MAX_1"
  have "flush_child al d st =
      (True, st\<lparr>cb_buf := pre @ be_bytes k (length body) @ body, cb_frames := frs\<rparr>)"
    using assms flush_child_prefixed [OF a(1,2,3) _ assms(2) a(5)] by simp
  then show "(\<forall>st'. flush_child al d st = (True, st') \<longrightarrow>
         cb_buf st' = pre @ be_bytes k (length body) @ body \<and> cb_frames st' = frs \<and>
         cb_can_resize st' = cb_can_resize st \<and> \<not> cb_error st' \<and> cb_len st' < SIZE_MAX_1) \<and>
      (roomy al (length (be_bytes k (length body)) - k) st \<longrightarrow>
         (\<exists>st'. flush_child al d st = (True, st') \<and> cb_cap st' \<le> 2 ^ 62))"
    using a by (auto simp: roomy_def)
qed

lemma closes_asn1:
  assumes "length body \<le> 0xfffffffe"
  shows "closes al d 1 True (der_length (length body)) body"
proof -
  have "asn1_len_octets (length body) \<noteq> None" using assms by (simp add: asn1_len_octets_None_iff)
  then obtain k b rest where l: "asn1_len_octets (length body) = Some (k, b, rest)" by auto
  note k = asn1_len_octets_der [OF l]
  have len: "length (der_length (length body)) - 1 = k - 1" using k by simp
  show ?thesis
    unfolding closes_def len
  proof (intro allI impI, elim conjE)
    fix st :: cbb and pre frs
    assume "cb_buf st = pre @ replicate 1 0 @ body"
      and a: "cb_frames st = frs @ [\<lparr>fr_offset = length pre, fr_pending_len_len = 1, fr_pending_is_asn1 = True\<rparr>]"
      "length frs = Suc d" "\<not> cb_error st" "cb_len st < SIZE_MAX_1"
    then have b: "cb_buf st = pre @ 0 # body" by simp
    let ?add = "if k \<noteq> 1 then cbb_buffer_add al st (k - 1) else (True, st)"
    have e: "emits al (Suc d) (\<lambda>st. if k \<noteq> 1 then cbb_buffer_add al st (k - 1) else (True, st)) (replicate (k - 1) 0)"
      using k emits_Nil emits_buffer_add [of "k - 1"] by (cases "k = 1") (auto simp: SIZE_MAX_1_def)
    have start: "size_add (length pre) (Suc 0) = Suc (length pre)"
      using b a(4) size_add_eq [of "length pre" 1] by simp
    have o: "cbb_open (Suc d) st" using a by (simp add: cbb_open_def)
    have fc: "flush_child al d st = (True, st1\<lparr>cb_buf := pre @ der_length (length body) @ body, cb_frames := frs\<rparr>)"
      if "?add = (True, st1)" for st1
      using flush_child_shift [OF b a(1,2,4) l that] emits_appended [OF e o that] .
    have fr: "cb_frames st ! Suc d = \<lparr>fr_offset = length pre, fr_pending_len_len = 1, fr_pending_is_asn1 = True\<rparr>"
      using a(1,2) by (simp add: nth_append)
    have "\<not> fst (flush_child al d st)" if "?add = (False, st1)" for st1
      using that fr l b start by (auto simp: flush_child_def shift_child_def Let_def cbb_fail_def split: if_splits)
    then have n: "flush_child al d st = (True, st') \<Longrightarrow> \<exists>st1. ?add = (True, st1)" for st'
      by (metis fst_conv surj_pair)
    have 1: "cb_buf st' = pre @ der_length (length body) @ body \<and> cb_frames st' = frs \<and>
         cb_can_resize st' = cb_can_resize st \<and> \<not> cb_error st' \<and> cb_len st' < SIZE_MAX_1"
      if t: "flush_child al d st = (True, st')" for st'
    proof -
      from n t obtain st1 where 1: "?add = (True, st1)" by blast
      have a1: "appended st (replicate (k - 1) 0) st1" using emits_appended [OF e o 1] .
      have "length (pre @ der_length (length body) @ body) = cb_len st1"
        using a1 b k by (simp add: appended_def)
      with fc [OF 1] a1 t show ?thesis by (auto simp: appended_def)
    qed
    have 2: "\<exists>st'. flush_child al d st = (True, st') \<and> cb_cap st' \<le> 2 ^ 62" if "roomy al (k - 1) st"
    proof -
      from that have "roomy al (length (replicate (k - 1) (0::u8))) st" by simp
      with e o obtain st1 where "?add = (True, st1)" "cb_cap st1 \<le> 2 ^ 62" by (rule emits_succeeds)
      with fc show ?thesis by simp
    qed
    from 1 2 show "(\<forall>st'. flush_child al d st = (True, st') \<longrightarrow>
         cb_buf st' = pre @ der_length (length body) @ body \<and> cb_frames st' = frs \<and>
         cb_can_resize st' = cb_can_resize st \<and> \<not> cb_error st' \<and> cb_len st' < SIZE_MAX_1) \<and>
      (roomy al (k - 1) st \<longrightarrow> (\<exists>st'. flush_child al d st = (True, st') \<and> cb_cap st' \<le> 2 ^ 62))"
      by blast
  qed
qed

subsection \<open>Tags and base-128 integers\<close>

lemma rev_upt_Suc: "rev [0..<Suc n] = map Suc (rev [0..<n]) @ [0]"
  by (simp add: upt_conv_Cons rev_map del: upt_Suc flip: map_Suc_upt)

lemma base128_hi_map:
  "base128_hi (unat v) = map (\<lambda>i. of_nat (128 + unat v div 128 ^ i mod 128)) (rev [0..<base128_len v])"
proof (induction v rule: base128_len.induct)
  case (1 v)
  show ?case
  proof (cases "0 < v")
    case True
    have d: "unat (drop_bit 7 v) = unat v div 128" by (simp add: unat_drop_bit)
    have "0 < unat v" using True by (simp add: unat_gt_0 word_gt_0)
    then show ?thesis
      using True 1 by (subst base128_len.simps) (simp add: base128_hi_pos d div_mult2_eq rev_upt_Suc del: upt_Suc)
  next
    case False
    then have "v = 0" by (simp add: word_gt_0)
    then show ?thesis by (simp add: base128_len.simps)
  qed
qed

lemma group_byte: "(ucast (drop_bit (7 * i) v AND 0x7f) :: u8) = of_nat (unat (v::u64) div 128 ^ i mod 128)"
proof -
  have "(0x7f :: u64) = mask 7" by (simp add: mask_eq_exp_minus_1)
  then have "unat (drop_bit (7 * i) v AND 0x7f) = unat v div 2 ^ (7 * i) mod 128"
    by (simp only: unat_and_mask unat_drop_bit) simp
  moreover have "(2::nat) ^ (7 * i) = 128 ^ i" by (simp add: power_mult)
  ultimately show ?thesis
    by (simp only: word_unat_eq_iff unat_ucast unat_of_nat)
qed

lemma group_byte_more: "n < 128 \<Longrightarrow> (of_nat n OR 0x80 :: u8) = of_nat (128 + n)"
  using nat_push_bit_or [of n 7 1]
  by (simp add: word_unat_eq_iff unsigned_or_eq unat_of_nat or.commute del: of_nat_add)

lemma add_base128_loop_0: "add_base128_loop al d v 0 = (\<lambda>st. (True, st))"
  by (rule ext) simp

lemma emits_add_base128_loop:
  "emits al d (add_base128_loop al d v (Suc i))
     (map (\<lambda>j. of_nat (128 + unat v div 128 ^ Suc j mod 128)) (rev [0..<i]) @ [of_nat (unat v mod 128)])"
proof (induction i)
  case 0
  then show ?case using emits_add_u8 [of al d "of_nat (unat v mod 128)"] group_byte [of 0 v]
    by (simp add: add_base128_loop_0 and_then_done)
next
  case (Suc i)
  have "add_base128_loop al d v (Suc (Suc i)) = (\<lambda>st. and_then
      (CBB_add_u8 al d st (of_nat (128 + unat v div 128 ^ Suc i mod 128))) (add_base128_loop al d v (Suc i)))"
    unfolding add_base128_loop.simps(2) [of al d v "Suc i"] Let_def group_byte
    by (simp add: group_byte_more del: add_base128_loop.simps)
  with emits_and_then [OF emits_add_u8 Suc]
  have "emits al d (add_base128_loop al d v (Suc (Suc i)))
     ([of_nat (128 + unat v div 128 ^ Suc i mod 128)] @
      map (\<lambda>j. of_nat (128 + unat v div 128 ^ Suc j mod 128)) (rev [0..<i]) @ [of_nat (unat v mod 128)])"
    by (simp only:)
  then show ?case by (simp del: add_base128_loop.simps)
qed

lemma emits_add_base128: "emits al d (\<lambda>st. add_base128_integer al d st v) (base128 (unat v))"
proof -
  let ?n = "base128_len v"
  have d: "unat (drop_bit 7 v) = unat v div 128" by (simp add: unat_drop_bit)
  show ?thesis
  proof (cases "v = 0")
    case True
    then have "?n = 0" by (simp add: base128_len.simps)
    with True show ?thesis
      using emits_add_base128_loop [of al d v 0] by (simp add: add_base128_integer_def base128_small del: add_base128_loop.simps)
  next
    case False
    then have n: "?n = Suc (base128_len (drop_bit 7 v))"
      by (subst base128_len.simps) (simp add: word_gt_0)
    have "map (\<lambda>j. of_nat (128 + unat v div 128 ^ Suc j mod 128)) (rev [0..<base128_len (drop_bit 7 v)]) = base128_hi (unat v div 128)"
      using base128_hi_map [of "drop_bit 7 v"]
      by (simp add: d div_mult2_eq)
    with n show ?thesis
      using emits_add_base128_loop [of al d v "base128_len (drop_bit 7 v)"]
      by (simp add: add_base128_integer_def base128_def del: add_base128_loop.simps)
  qed
qed

lemma class_or:
  assumes "unat b = c * 32" and "n < 32" and "c < 8"
  shows "(b::u8) OR of_nat n = of_nat (c * 32 + n)"
proof -
  have "unat (b OR of_nat n) = push_bit 5 c OR n"
    using assms by (simp only: unsigned_or_eq) (simp add: unat_of_nat push_bit_eq_mult)
  also have "\<dots> = c * 32 + n" using nat_push_bit_or [of n 5 c] assms by simp
  finally show ?thesis using assms(2,3) by (simp only: word_unat_eq_iff unat_of_nat) simp
qed

lemma class_bits: "unat (ucast (drop_bit CBS_ASN1_TAG_SHIFT t) AND 0xe0 :: u8) = tag_class t * 32"
proof -
  have "(0xe0 :: u8) = push_bit 5 (mask 3)" by (simp add: mask_eq_exp_minus_1 push_bit_eq_mult)
  then have "unat (ucast (drop_bit 24 t) AND 0xe0 :: u8) = (unat t div 2 ^ 24 mod 256) div 32 mod 8 * 32"
    by (simp only: unat_and_push_mask unat_ucast unat_drop_bit) simp
  moreover have "unat t div 2 ^ 24 < 256" using u32_bound [of t] by (simp add: less_mult_imp_div_less)
  moreover have "unat t div 2 ^ 24 div 32 = tag_class t" by (simp add: tag_class_def flip: div_mult2_eq)
  ultimately show ?thesis using tag_class_less [of t] by (simp add: CBS_ASN1_TAG_SHIFT_def)
qed

lemma number_bits: "unat (t AND CBS_ASN1_TAG_NUMBER_MASK) = tag_num t"
proof -
  have "CBS_ASN1_TAG_NUMBER_MASK = mask 29"
    by (simp add: CBS_ASN1_TAG_NUMBER_MASK_def CBS_ASN1_TAG_SHIFT_def mask_eq_exp_minus_1 push_bit_eq_mult)
  then show ?thesis using unat_and_mask [of t 29] by (simp add: tag_num_def)
qed

lemma emits_tag:
  "emits al d (\<lambda>st. if 0x1f \<le> t AND CBS_ASN1_TAG_NUMBER_MASK
     then and_then (CBB_add_u8 al d st ((ucast (drop_bit CBS_ASN1_TAG_SHIFT t) AND 0xe0) OR 0x1f))
            (\<lambda>st. add_base128_integer al d st (ucast (t AND CBS_ASN1_TAG_NUMBER_MASK)))
     else CBB_add_u8 al d st ((ucast (drop_bit CBS_ASN1_TAG_SHIFT t) AND 0xe0) OR ucast (t AND CBS_ASN1_TAG_NUMBER_MASK)))
     (der_tag t)"
proof (cases "tag_num t < 31")
  case True
  then have "(ucast (t AND CBS_ASN1_TAG_NUMBER_MASK) :: u8) = of_nat (tag_num t)"
    by (metis number_bits of_nat_unat unsigned_of_nat)
  with True show ?thesis
    using emits_add_u8 class_or [OF class_bits, of "tag_num t" t] tag_class_less [of t]
    by (simp add: word_le_nat_alt number_bits der_tag_def)
next
  case False
  have u: "unat (ucast (t AND CBS_ASN1_TAG_NUMBER_MASK) :: u64) = tag_num t"
    using unat_ucast_up [of "t AND CBS_ASN1_TAG_NUMBER_MASK", where 'b = 64] number_bits [of t] by simp
  from False show ?thesis
    using emits_and_then [OF emits_add_u8 emits_add_base128,
        of al d "(ucast (drop_bit CBS_ASN1_TAG_SHIFT t) AND 0xe0) OR 0x1f" "ucast (t AND CBS_ASN1_TAG_NUMBER_MASK)"]
      class_or [OF class_bits, of 31 t] tag_class_less [of t]
    by (simp add: word_le_nat_alt number_bits der_tag_def u)
qed

lemma opens_add_asn1: "opens al d (\<lambda>st. CBB_add_asn1 al d st tag) (der_tag tag) 1 True"
proof -
  have "emits al d (\<lambda>st. CBB_add_u8 al d st 0) (replicate 1 0)" using emits_add_u8 by simp
  from opens_and_then [OF emits_flush_first [OF emits_tag [of al d tag]] this, of True] show ?thesis
    unfolding CBB_add_asn1_def Let_def opens_def by (simp add: and_then_assoc)
qed

lemma opens_length_prefixed:
  assumes "k < SIZE_MAX_1"
  shows "opens al d (\<lambda>st. cbb_add_length_prefixed al d st k) [] k False"
proof -
  have e: "emits al d (\<lambda>st. and_then (cbb_buffer_add al st k)
      (\<lambda>st'. (True, st'\<lparr>cb_buf := mem_write (cb_buf st') (cb_len st) (replicate k 0)\<rparr>))) (replicate k 0)"
    using emits_buffer_write [of "replicate k 0" al d] assms by simp
  from opens_and_then [OF emits_flush [of al d] e, of False] show ?thesis
    unfolding cbb_add_length_prefixed_def Let_def by (simp add: and_then_assoc)
qed

lemma emits_length_prefixed:
  assumes "emits al (Suc d) f body" and "length body < 256 ^ k" and "0 < k" and "k \<le> 8"
  shows "emits al d (\<lambda>st. and_then (cbb_add_length_prefixed al d st k) (\<lambda>st. and_then (f st) (CBB_flush al d)))
    (be_bytes k (length body) @ body)"
proof -
  have "k < SIZE_MAX_1" using assms(4) by (simp add: SIZE_MAX_1_def)
  from emits_child [OF opens_length_prefixed [OF this] assms(1) closes_prefixed [OF assms(2,4)]] assms(3)
  show ?thesis by simp
qed

text \<open>The contract of \<^verbatim>\<open>CBB_add_asn1\<close>: what is written to the child becomes the contents of one DER
  element.\<close>

lemma emits_asn1:
  assumes "emits al (Suc d) f body" and "length body \<le> 0xfffffffe"
  shows "emits al d (\<lambda>st. and_then (CBB_add_asn1 al d st tag) (\<lambda>st. and_then (f st) (CBB_flush al d)))
    (der_element tag body)"
  using emits_child [OF opens_add_asn1 assms(1) closes_asn1 [OF assms(2)]]
  by (simp add: der_element_def der_header_def der_length_def)

lemma emits_add_asn1_octet_string:
  "length data \<le> 0xfffffffe \<Longrightarrow>
    emits al d (\<lambda>st. CBB_add_asn1_octet_string al d st data) (der_element CBS_ASN1_OCTETSTRING data)"
  unfolding CBB_add_asn1_octet_string_def
  by (rule emits_asn1 [OF emits_add_bytes]) (simp_all add: SIZE_MAX_1_def)

lemma emits_add_asn1_bool:
  "emits al d (\<lambda>st. CBB_add_asn1_bool al d st v) (der_element CBS_ASN1_BOOLEAN [if v \<noteq> 0 then 0xff else 0])"
  unfolding CBB_add_asn1_bool_def by (rule emits_asn1 [OF emits_add_u8]) simp

subsection \<open>INTEGER values\<close>

lemma be_bytes_Suc_Cons: "be_bytes (Suc k) v = of_nat (v div 256 ^ k) # be_bytes k v"
proof (induction k arbitrary: v)
  case 0
  show ?case by simp
next
  case (Suc k)
  have "be_bytes (Suc (Suc k)) v = be_bytes (Suc k) (v div 256) @ [of_nat v]" by simp
  also have "\<dots> = of_nat (v div 256 div 256 ^ k) # be_bytes k (v div 256) @ [of_nat v]"
    by (simp only: Suc append_Cons)
  finally show ?case by (simp add: div_mult2_eq)
qed

lemma be_bytes_mod: "be_bytes k (v mod 256 ^ k) = be_bytes k v"
  using be_bytes_be_nat [of "be_bytes k v" k] by (simp add: be_nat_be_bytes)

lemma der_uint_step:
  fixes v k :: nat
  defines "b \<equiv> v div 256 ^ k mod 256"
  shows "der_uint (v mod 256 ^ Suc k) =
    (if b = 0 then der_uint (v mod 256 ^ k)
     else (if 128 \<le> b then [0] else []) @ of_nat b # be_bytes k v)"
proof -
  have split: "v mod 256 ^ Suc k = b * 256 ^ k + v mod 256 ^ k"
    using mod_mult2_eq [of v "256 ^ k" 256] by (simp add: b_def mult.commute)
  have b: "b < 256" by (simp add: b_def)
  show ?thesis
  proof (cases "b = 0")
    case True
    with split show ?thesis by simp
  next
    case False
    have "1 * 256 ^ k \<le> b * 256 ^ k" using False by (intro mult_le_mono1) simp
    then have "256 ^ k \<le> v mod 256 ^ Suc k" unfolding split by linarith
    then have len: "byte_len (v mod 256 ^ Suc k) = Suc k" by (rule byte_len_eqI [rotated]) simp
    have bytes: "be_bytes (Suc k) (v mod 256 ^ Suc k) = of_nat b # be_bytes k v"
    proof -
      have "(of_nat (v div 256 ^ k) :: u8) = of_nat b"
        using b by (simp only: word_unat_eq_iff unat_of_nat b_def) simp
      then show ?thesis by (simp only: be_bytes_mod be_bytes_Suc_Cons)
    qed
    have "v mod 256 ^ Suc k \<noteq> 0" using len by (metis byte_len_0 nat.distinct(1))
    with False len bytes b show ?thesis
      by (simp add: der_uint_def unat_of_nat_u8 del: power_Suc be_bytes.simps)
  qed
qed

definition uint64_contents :: "alloc \<Rightarrow> nat \<Rightarrow> u64 \<Rightarrow> nat \<Rightarrow> bool \<Rightarrow> cbb \<Rightarrow> bool \<times> cbb" where
  "uint64_contents al d v k started st =
     (case add_uint64_loop al d v k started st of
        (ok, started', st') \<Rightarrow>
          if \<not> ok then (False, st')
          else if \<not> started' then CBB_add_u8 al d st' 0 else (True, st'))"

lemma uint64_byte: "(ucast (drop_bit (8 * k) v AND 0xff) :: u8) = of_nat (unat (v::u64) div 256 ^ k mod 256)"
proof -
  have "(0xff :: u64) = mask 8" by (simp add: mask_eq_exp_minus_1)
  then have "unat (drop_bit (8 * k) v AND 0xff) = unat v div 2 ^ (8 * k) mod 256"
    by (simp only: unat_and_mask unat_drop_bit) simp
  moreover have "(2::nat) ^ (8 * k) = 256 ^ k" by (simp add: power_mult)
  ultimately show ?thesis by (simp only: word_unat_eq_iff unat_ucast unat_of_nat)
qed

lemma uint64_contents_step:
  fixes k :: nat and v :: u64
  defines "b \<equiv> unat v div 256 ^ k mod 256"
  shows "uint64_contents al d v (Suc k) started =
    (if \<not> started \<and> b = 0 then uint64_contents al d v k False
     else (\<lambda>st. and_then
       (and_then (if \<not> started \<and> 128 \<le> b then CBB_add_u8 al d st 0 else (True, st))
                 (\<lambda>st. CBB_add_u8 al d st (of_nat b)))
       (uint64_contents al d v k True)))"
proof (rule ext)
  fix st
  have "b < 256" by (simp add: b_def)
  then have b: "unat (of_nat b :: u8) = b" by (rule unat_of_nat_u8)
  then have z: "(of_nat b :: u8) = 0 \<longleftrightarrow> b = 0" "of_nat b AND (0x80::u8) = 0 \<longleftrightarrow> b < 128"
    using u8_and_0x80 [of "of_nat b"] by (simp_all add: word_unat_eq_iff [of "of_nat b"])
  show "uint64_contents al d v (Suc k) started st =
    (if \<not> started \<and> b = 0 then uint64_contents al d v k False
     else (\<lambda>st. and_then
       (and_then (if \<not> started \<and> 128 \<le> b then CBB_add_u8 al d st 0 else (True, st))
                 (\<lambda>st. CBB_add_u8 al d st (of_nat b)))
       (uint64_contents al d v k True))) st"
    unfolding uint64_contents_def add_uint64_loop.simps(2) uint64_byte b_def [symmetric] Let_def
    using z by (auto simp: and_then_def split: prod.splits bool.splits)
qed

lemma emits_uint64_contents:
  "emits al d (uint64_contents al d v k started)
     (if started then be_bytes k (unat v) else der_uint (unat v mod 256 ^ k))"
proof (induction k arbitrary: started)
  case 0
  then show ?case
    using emits_Nil [of al d] emits_add_u8 [of al d 0]
    by (cases started) (simp_all add: uint64_contents_def [abs_def] der_uint_def)
next
  case (Suc k)
  let ?b = "unat v div 256 ^ k mod 256"
  have b: "(of_nat (unat v div 256 ^ k) :: u8) = of_nat ?b"
    by (simp only: word_unat_eq_iff unat_of_nat) simp
  have T: "emits al d (uint64_contents al d v k True) (be_bytes k (unat v))"
    and F: "emits al d (uint64_contents al d v k False) (der_uint (unat v mod 256 ^ k))"
    using Suc [of True] Suc [of False] by simp_all
  have lead: "emits al d (\<lambda>st. if \<not> started \<and> 128 \<le> ?b then CBB_add_u8 al d st 0 else (True, st))
      (if \<not> started \<and> 128 \<le> ?b then [0] else [])"
    using emits_Nil [of al d] emits_add_u8 [of al d 0] by auto
  note rest = emits_and_then [OF emits_and_then [OF lead emits_add_u8 [of al d "of_nat ?b"]] T]
  show ?case
    unfolding uint64_contents_step
    using F rest der_uint_step [of "unat v" k] b
    by (cases "\<not> started \<and> ?b = 0") (auto simp: be_bytes_Suc_Cons simp del: be_bytes.simps power_Suc)
qed

lemma length_der_uint: "v < 256 ^ k \<Longrightarrow> length (der_uint v) \<le> Suc k"
  by (cases "v = 0") (auto simp: der_uint_def byte_len_le_iff le_SucI)

lemma emits_add_asn1_uint64:
  "emits al d (\<lambda>st. CBB_add_asn1_uint64 al d st v) (der_element CBS_ASN1_INTEGER (der_uint (unat v)))"
proof -
  have "unat v mod 256 ^ 8 = unat v" using u64_bound [of v] by simp
  then have "emits al (Suc d) (uint64_contents al (Suc d) v 8 False) (der_uint (unat v))"
    using emits_uint64_contents [of al "Suc d" v 8 False] by simp
  moreover have "length (der_uint (unat v)) \<le> 0xfffffffe"
    using length_der_uint [of "unat v" 8] u64_bound [of v] by simp
  moreover have "CBB_add_asn1_uint64 al d st v =
      and_then (CBB_add_asn1 al d st CBS_ASN1_INTEGER)
        (\<lambda>st. and_then (uint64_contents al (Suc d) v 8 False st) (CBB_flush al d))" for st
    by (simp add: CBB_add_asn1_uint64_def uint64_contents_def and_then_def split: prod.split)
  ultimately show ?thesis using emits_asn1 by presburger
qed


lemma le64_Cons: "le64 (b # bs) = push_bit 8 (le64 bs) OR ucast b"
  by (simp add: le64_def)

lemma le64_le_bytes: "le64 (le_bytes64 v) = v"
proof -
  have "le64 (map (\<lambda>i. ucast (drop_bit (8 * i) v)) [j..<8]) = drop_bit (8 * j) v" if "j \<le> 8" for j
    using that
  proof (induction j rule: inc_induct)
    case base
    have "unat (drop_bit 64 v) = 0" using u64_bound [of v] by (simp add: unat_drop_bit)
    then show ?case by (simp add: le64_def word_unat_eq_iff)
  next
    case (step j)
    have "push_bit 8 (drop_bit (8 * Suc j) v) OR ucast (ucast (drop_bit (8 * j) v) :: u8) = drop_bit (8 * j) v"
      by (rule bit_eqI) (auto simp: bit_simps algebra_simps)
    with step show ?case by (simp add: upt_conv_Cons le64_Cons)
  qed
  from this [of 0] show ?thesis by (simp add: le_bytes64_def)
qed

lemma sint64_neg_iff: "sint (v::u64) < 0 \<longleftrightarrow> 2 ^ 63 \<le> unat v"
proof -
  have "sint v < 0 \<longleftrightarrow> odd (unat v div 2 ^ 63)"
    using bit_last_iff [of v] by (simp add: bit_word_iff_odd)
  moreover have "unat v div 2 ^ 63 < 2" using u64_bound [of v] by (simp add: less_mult_imp_div_less)
  ultimately show ?thesis by (auto simp: less_2_cases_iff div_eq_0_iff not_less)
qed

text \<open>The first loop of \<^verbatim>\<open>CBB_add_asn1_int64\<close> drops redundant sign bytes and nothing else.\<close>

lemma int64_start_le: "int64_start bs n \<le> n"
  by (induction n) auto

lemma int64_start_spec:
  assumes "128 \<le> unat (bs ! n)"
  shows "128 \<le> unat (bs ! int64_start bs n) \<and> (\<forall>i. int64_start bs n < i \<and> i \<le> n \<longrightarrow> bs ! i = 0xff) \<and>
    (int64_start bs n = 0 \<or> \<not> (bs ! int64_start bs n = 0xff \<and> 128 \<le> unat (bs ! (int64_start bs n - 1))))"
  using assms
proof (induction n)
  case 0
  then show ?case by simp
next
  case (Suc n)
  show ?case
  proof (cases "bs ! Suc n = 0xff \<and> 128 \<le> unat (bs ! n)")
    case True
    with Suc.IH show ?thesis by (auto simp: u8_and_0x80 not_less le_Suc_eq)
  next
    case False
    with Suc.prems show ?thesis by (auto simp: u8_and_0x80)
  qed
qed

lemma emits_add_bytes_down:
  "n < length bs \<Longrightarrow> emits al d (add_bytes_down al d bs n) (rev (take (Suc n) bs))"
proof (induction n)
  case 0
  then show ?case using emits_add_u8 [of al d "bs ! 0"] by (cases bs) (simp_all add: fun_eq_iff)
next
  case (Suc n)
  then show ?case
    using emits_and_then [OF emits_add_u8 Suc.IH] by (simp add: take_Suc_conv_app_nth [of "Suc n"])
qed

lemma int64_bytes:
  assumes "sint v < 0"
  shows "rev (take (Suc (int64_start (le_bytes64 v) 7)) (le_bytes64 v)) = der_int (sint v)"
proof -
  let ?B = "le_bytes64 v"
  define s where "s = int64_start ?B 7"
  define bs where "bs = rev (take (Suc s) ?B)"
  have s: "s \<le> 7" unfolding s_def by (rule int64_start_le)
  have B: "length ?B = 8" by (simp add: le_bytes64_def)
  have lbs: "length bs = Suc s" using s B by (simp add: bs_def)
  have "128 \<le> unat (?B ! 7)"
  proof -
    have "unat (?B ! 7) = unat v div 2 ^ 56 mod 256"
      by (simp add: le_bytes64_def unat_ucast unat_drop_bit)
    moreover have "128 \<le> unat v div 2 ^ 56" using assms by (simp add: sint64_neg_iff less_eq_div_iff_mult_less_eq)
    moreover have "unat v div 2 ^ 56 < 256" using u64_bound [of v] by (simp add: less_mult_imp_div_less)
    ultimately show ?thesis by simp
  qed
  note start = int64_start_spec [OF this, folded s_def]
  have tail: "drop (Suc s) ?B = replicate (7 - s) 0xff"
    using start B s by (intro nth_equalityI) auto
  then have eq: "rev bs @ replicate (8 - length bs) 0xff = ?B"
    using lbs append_take_drop_id [of "Suc s" ?B] by (simp add: bs_def)
  have "CBS_is_valid_asn1_integer bs = (True, True)"
  proof (cases s)
    case 0
    then have "bs = [?B ! 0]" using B by (simp add: bs_def take_Suc_conv_app_nth)
    with start 0 show ?thesis by (simp add: CBS_is_valid_asn1_integer_def u8_and_0x80 not_less)
  next
    case (Suc m)
    then have "bs = ?B ! s # ?B ! (s - 1) # rev (take m ?B)"
      using B s by (simp add: bs_def take_Suc_conv_app_nth)
    with start Suc show ?thesis by (auto simp: CBS_is_valid_asn1_integer_def u8_and_0x80 not_less Let_def)
  qed
  from int64_value [OF this] lbs s eq show ?thesis by (simp add: le64_le_bytes flip: bs_def s_def)
qed

lemma emits_add_asn1_int64:
  "emits al d (\<lambda>st. CBB_add_asn1_int64 al d st v) (der_element CBS_ASN1_INTEGER (der_int (sint v)))"
proof (cases "0 \<le> sint v")
  case True
  then have "unat v < 2 ^ 63" by (simp add: sint64_neg_iff flip: not_less)
  then have "int (unat v) < int (2 ^ 63)" by (simp only: of_nat_less_iff)
  then have "sint (of_int (int (unat v)) :: u64) = int (unat v)" by (intro sint_of_int_u64) (simp_all, rule order_trans [of _ 0], simp_all)
  then have "nat (sint v) = unat v" by simp
  with True emits_add_asn1_uint64 show ?thesis by (simp add: CBB_add_asn1_int64_def der_int_def)
next
  case False
  let ?B = "le_bytes64 v"
  have "int64_start ?B 7 < length ?B" using int64_start_le [of ?B 7] by (simp add: le_bytes64_def)
  moreover have "length (der_int (sint v)) \<le> 0xfffffffe"
    using length_der_int_le_8 [of "sint v"] sint_ge [of v] sint_lt [of v] by simp
  ultimately show ?thesis
    using emits_asn1 [OF emits_add_bytes_down, of "int64_start ?B 7" ?B] int64_bytes [of v] False
    by (simp add: CBB_add_asn1_int64_def Let_def)
qed

section \<open>Safety of the buffer\<close>

text \<open>The children of the chain lie one after the other inside the buffer, each behind the length
  prefix of its parent, and the buffer never holds more than its capacity.\<close>

fun frames_ok :: "nat \<Rightarrow> cbb_frame list \<Rightarrow> nat \<Rightarrow> bool" where
  "frames_ok lo [] len \<longleftrightarrow> lo \<le> len"
| "frames_ok lo (f # fs) len \<longleftrightarrow> lo \<le> fr_offset f \<and> frames_ok (fr_offset f + fr_pending_len_len f) fs len"

definition chain_ok :: "cbb_frame list \<Rightarrow> nat \<Rightarrow> bool" where
  "chain_ok fs len \<longleftrightarrow> frames_ok 0 fs len \<and> list_all (\<lambda>f. 0 < fr_pending_len_len f) (tl fs)"

definition cbb_inv :: "cbb \<Rightarrow> bool" where
  "cbb_inv st \<longleftrightarrow> cb_len st \<le> cb_cap st \<and> cb_cap st < SIZE_MAX_1 \<and> chain_ok (cb_frames st) (cb_len st)"

text \<open>What every operation keeps: the invariant, whether the buffer may grow, the capacity of a
  buffer that may not, and the error flag once it is set.\<close>

definition keeps :: "cbb \<Rightarrow> cbb \<Rightarrow> bool" where
  "keeps st st' \<longleftrightarrow>
     (cbb_inv st \<longrightarrow>
        cbb_inv st' \<and> cb_can_resize st' = cb_can_resize st \<and>
        (\<not> cb_can_resize st \<longrightarrow> cb_cap st' = cb_cap st) \<and> (cb_error st \<longrightarrow> cb_error st'))"

lemma keeps_refl [simp]: "keeps st st"
  by (simp add: keeps_def)

lemma keeps_trans [trans]: "\<lbrakk>keeps st st'; keeps st' st''\<rbrakk> \<Longrightarrow> keeps st st''"
  by (auto simp: keeps_def)

lemma keeps_fail [inv_intros]: "keeps st st' \<Longrightarrow> keeps st (snd (cbb_fail st'))"
  by (simp add: keeps_def cbb_fail_def cbb_inv_def)

lemma keeps_and_then [inv_intros]:
  "\<lbrakk>keeps st (snd r); \<And>s. r = (True, s) \<Longrightarrow> keeps s (snd (g s))\<rbrakk> \<Longrightarrow> keeps st (snd (and_then r g))"
  by (cases r) (auto simp: and_then_def intro: keeps_trans)

lemma keeps_if [inv_intros]:
  "\<lbrakk>b \<Longrightarrow> keeps st (snd x); \<not> b \<Longrightarrow> keeps st (snd y)\<rbrakk> \<Longrightarrow> keeps st (snd (if b then x else y))"
  by simp

lemma frames_ok_mono: "\<lbrakk>frames_ok lo fs len; len \<le> len'\<rbrakk> \<Longrightarrow> frames_ok lo fs len'"
  by (induction lo fs len rule: frames_ok.induct) auto

lemma frames_ok_le: "frames_ok lo fs len \<Longrightarrow> lo \<le> len"
  by (induction lo fs len rule: frames_ok.induct) auto

lemma frames_ok_take: "frames_ok lo fs len \<Longrightarrow> frames_ok lo (take n fs) len"
  by (induction lo fs len arbitrary: n rule: frames_ok.induct) (auto simp: take_Cons' dest: frames_ok_le)

lemma frames_ok_snoc:
  "\<lbrakk>frames_ok lo fs off; off + k \<le> len; fr_offset f = off; fr_pending_len_len f = k\<rbrakk> \<Longrightarrow> frames_ok lo (fs @ [f]) len"
  by (induction lo fs off rule: frames_ok.induct) auto

lemma frames_ok_cut:
  "\<lbrakk>frames_ok lo fs len; n < length fs\<rbrakk> \<Longrightarrow> fr_offset (fs ! n) \<le> len \<and> frames_ok lo (take n fs) (fr_offset (fs ! n))"
proof (induction lo fs len arbitrary: n rule: frames_ok.induct)
  case (2 lo f fs len)
  then show ?case by (cases n) (auto dest: frames_ok_le)
qed simp

lemma frames_ok_end:
  "\<lbrakk>frames_ok lo fs len; length fs = Suc n\<rbrakk> \<Longrightarrow>
    fr_offset (fs ! n) + fr_pending_len_len (fs ! n) \<le> len \<and>
    frames_ok lo fs (fr_offset (fs ! n) + fr_pending_len_len (fs ! n))"
proof (induction lo fs len arbitrary: n rule: frames_ok.induct)
  case (2 lo f fs len)
  then show ?case by (cases n) (auto dest: frames_ok_le)
qed simp

lemma chain_ok_mono: "\<lbrakk>chain_ok fs len; len \<le> len'\<rbrakk> \<Longrightarrow> chain_ok fs len'"
  by (auto simp: chain_ok_def intro: frames_ok_mono)

lemma list_all_tl_take: "list_all P (tl fs) \<Longrightarrow> list_all P (tl (take n fs))"
  by (cases fs; cases n) (auto simp: list_all_iff dest: in_set_takeD)

lemma chain_ok_take: "chain_ok fs len \<Longrightarrow> chain_ok (take n fs) len"
  by (simp add: chain_ok_def frames_ok_take list_all_tl_take)

lemma chain_ok_snoc:
  "\<lbrakk>chain_ok fs off; off + k \<le> len; 0 < k; fr_offset f = off; fr_pending_len_len f = k\<rbrakk> \<Longrightarrow> chain_ok (fs @ [f]) len"
  by (cases fs) (auto simp: chain_ok_def intro: frames_ok_snoc)

lemma chain_ok_cut:
  "\<lbrakk>chain_ok fs len; n < length fs\<rbrakk> \<Longrightarrow> fr_offset (fs ! n) \<le> len \<and> chain_ok (take n fs) (fr_offset (fs ! n))"
  using frames_ok_cut by (auto simp: chain_ok_def list_all_tl_take)

lemma chain_ok_Nil [simp]: "chain_ok [] len"
  by (simp add: chain_ok_def)

subsection \<open>Buffer and flush\<close>

lemma realloc_take:
  "\<lbrakk>OPENSSL_realloc al (Some buf) c = Some b; length buf \<le> c\<rbrakk> \<Longrightarrow> take (length buf) b = buf"
  by (auto simp: OPENSSL_realloc_def Let_def split: option.splits if_splits)

lemma reserve_cases:
  assumes "cbb_buffer_reserve al st n = (ok, st')" and "n < SIZE_MAX_1" and "cbb_inv st"
  shows "cb_buf st' = cb_buf st" and "ok \<Longrightarrow> cb_len st + n \<le> cb_cap st'" and "cb_frames st' = cb_frames st"
    and "keeps st st'"
proof -
  let ?N = "size_add (cb_len st) n"
  have len: "cb_len st < SIZE_MAX_1" "cb_len st \<le> cb_cap st" using assms(3) by (auto simp: cbb_inv_def)
  have N: "?N = cb_len st + n" if "\<not> ?N < cb_len st"
    using that size_add_overflow_iff [OF len(1) assms(2)] by (simp add: size_add_eq)
  have lt: "?N < SIZE_MAX_1" by (simp add: size_add_def SIZE_MAX_1_def)
  consider (fail) "\<not> ok" "st' = st\<lparr>cb_error := True\<rparr>" | (same) "\<not> ?N < cb_len st" "\<not> cb_cap st < ?N" "st' = st"
    | (grow) c b where "\<not> ?N < cb_len st" "cb_can_resize st" "?N \<le> c" "c < SIZE_MAX_1"
        "OPENSSL_realloc al (Some (cb_buf st)) c = Some b" "st' = st\<lparr>cb_buf := take (cb_len st) b, cb_cap := c\<rparr>"
  proof (cases "?N < cb_len st \<or> (cb_cap st < ?N \<and> \<not> cb_can_resize st)")
    case True
    then have "cbb_buffer_reserve al st n = cbb_fail st" by (auto simp: cbb_buffer_reserve_def Let_def)
    with assms(1) fail show ?thesis by (simp add: cbb_fail_def)
  next
    case False
    define c where "c = (let c0 = (cb_cap st * 2) mod SIZE_MAX_1 in if c0 < cb_cap st \<or> c0 < ?N then ?N else c0)"
    have c: "?N \<le> c" "c < SIZE_MAX_1" using lt by (auto simp: c_def Let_def SIZE_MAX_1_def)
    have R: "cbb_buffer_reserve al st n = (if cb_cap st < ?N then
        case OPENSSL_realloc al (Some (cb_buf st)) c of None \<Rightarrow> cbb_fail st
        | Some b \<Rightarrow> (True, st\<lparr>cb_buf := take (cb_len st) b, cb_cap := c\<rparr>) else (True, st))"
      unfolding cbb_buffer_reserve_def Let_def c_def [unfolded Let_def, symmetric] using False by auto
    show ?thesis
    proof (cases "cb_cap st < ?N")
      case True
      show ?thesis
      proof (cases "OPENSSL_realloc al (Some (cb_buf st)) c")
        case None
        with True R assms(1) show ?thesis by (intro fail) (simp_all add: cbb_fail_def)
      next
        case (Some b)
        with True R assms(1) False c show ?thesis by (intro grow [of c b]) simp_all
      qed
    qed (use R assms(1) False in \<open>intro same; simp\<close>)
  qed
  then have "cb_buf st' = cb_buf st \<and> (ok \<longrightarrow> cb_len st + n \<le> cb_cap st') \<and> cb_frames st' = cb_frames st \<and> keeps st st'"
  proof cases
    case fail
    then show ?thesis by (simp add: keeps_def cbb_inv_def)
  next
    case same
    with N show ?thesis by simp
  next
    case (grow c b)
    then have "take (cb_len st) b = cb_buf st" using realloc_take N by simp
    with grow N assms(3) show ?thesis by (simp add: keeps_def cbb_inv_def)
  qed
  then show "cb_buf st' = cb_buf st" and "ok \<Longrightarrow> cb_len st + n \<le> cb_cap st'" and "cb_frames st' = cb_frames st"
    and "keeps st st'" by blast+
qed

lemma buffer_add_cases:
  assumes "cbb_buffer_add al st n = (ok, st')" and "n < SIZE_MAX_1" and "cbb_inv st"
  shows "cb_buf st' = cb_buf st @ (if ok then replicate n 0 else [])" and "cb_frames st' = cb_frames st"
    and "keeps st st'"
proof -
  obtain ok1 st1 where 1: "cbb_buffer_reserve al st n = (ok1, st1)" by fastforce
  note r = reserve_cases [OF 1 assms(2,3)]
  have "cbb_inv st1" using r(4) assms(3) by (simp add: keeps_def)
  with 1 r assms(1) have "cb_buf st' = cb_buf st @ (if ok then replicate n 0 else []) \<and>
      cb_frames st' = cb_frames st \<and> keeps st st'"
    by (auto simp: cbb_buffer_add_def and_then_def keeps_def cbb_inv_def elim!: chain_ok_mono split: if_splits)
  then show "cb_buf st' = cb_buf st @ (if ok then replicate n 0 else [])" and "cb_frames st' = cb_frames st"
    and "keeps st st'" by blast+
qed


lemma keeps_reserve [inv_intros]: "n < SIZE_MAX_1 \<Longrightarrow> keeps st (snd (cbb_buffer_reserve al st n))"
  using reserve_cases(4) [of al st n] by (cases "cbb_buffer_reserve al st n") (auto simp: keeps_def)

lemma keeps_buffer_add [inv_intros]: "n < SIZE_MAX_1 \<Longrightarrow> keeps st (snd (cbb_buffer_add al st n))"
  using buffer_add_cases(3) [of al st n] by (cases "cbb_buffer_add al st n") (auto simp: keeps_def)

lemma write_be_length: "length (fst (write_be buf off n v)) = length buf"
  by (induction buf off n v rule: write_be.induct) simp_all

lemma write_be_rest: "snd (write_be buf off n v) = drop_bit (8 * n) v"
  by (induction buf off n v rule: write_be.induct) (simp_all add: add.commute)

lemma keeps_same_length:
  "\<lbrakk>keeps st st'; length buf = cb_len st'\<rbrakk> \<Longrightarrow> keeps st (st'\<lparr>cb_buf := buf\<rparr>)"
  by (simp add: keeps_def cbb_inv_def)

lemma keeps_buffer_add_u [inv_intros]: "n \<le> 8 \<Longrightarrow> keeps st (snd (cbb_buffer_add_u al st v n))"
proof -
  assume "n \<le> 8"
  then have n: "n < SIZE_MAX_1" by (simp add: SIZE_MAX_1_def)
  show ?thesis
    unfolding cbb_buffer_add_u_def Let_def case_prod_beta
    by (intro inv_intros keeps_buffer_add n; simp)
       (auto intro!: keeps_fail keeps_same_length simp: write_be_length cbb_fail_def)
qed

lemma keeps_flush_length: "keeps st (snd (flush_length d len st))"
  by (auto simp: flush_length_def Let_def case_prod_beta keeps_def cbb_inv_def cbb_fail_def write_be_length
      intro: chain_ok_take)

text \<open>A pending DER length always fits the octets that were computed for it, so the second step of
  flushing a child cannot fail.\<close>

lemma flush_length_fits:
  assumes "len < 256 ^ fr_pending_len_len (cb_frames st ! Suc d)" and "fr_pending_len_len (cb_frames st ! Suc d) \<le> 7"
  shows "\<exists>buf. length buf = cb_len st \<and>
    flush_length d len st = (True, st\<lparr>cb_buf := buf, cb_frames := take (Suc d) (cb_frames st)\<rparr>)"
proof -
  let ?k = "fr_pending_len_len (cb_frames st ! Suc d)"
  have "(256::nat) ^ ?k = 2 ^ (8 * ?k)" using power_mult [of "2::nat" 8 ?k] by simp
  moreover have "(256::nat) ^ ?k \<le> 256 ^ 7" using assms(2) by (rule power_increasing) simp
  ultimately have "drop_bit (8 * ?k) (of_nat len :: u64) = 0"
    using assms(1) by (simp add: unat_of_nat word_unat_eq_iff unat_drop_bit)
  then show ?thesis
    by (simp add: flush_length_def Let_def case_prod_beta write_be_rest write_be_length)
       (metis cbb.select_convs(1) write_be_length)
qed

lemma reserve_frames: "cb_frames (snd (cbb_buffer_reserve al st n)) = cb_frames st"
  by (simp add: cbb_buffer_reserve_def cbb_fail_def Let_def split: option.split)

lemma buffer_add_frames: "cbb_buffer_add al st n = (ok, st') \<Longrightarrow> cb_frames st' = cb_frames st"
  using reserve_frames [of al st n] by (auto simp: cbb_buffer_add_def and_then_def split: prod.splits if_splits)

lemma flush_length_frames:
  "flush_length d len st = (True, st') \<Longrightarrow> cb_frames st' = take (Suc d) (cb_frames st) \<and> cb_len st' = cb_len st"
  by (auto simp: flush_length_def Let_def case_prod_beta cbb_fail_def write_be_length split: if_splits)

lemma shift_child_cases:
  assumes "shift_child al cs (cb_len st - cs) k st = (ok, st')" and "cbb_inv st" and "cs \<le> cb_len st" and "1 \<le> k" "k \<le> 5"
  shows "keeps st st'" and "cb_frames st' = cb_frames st" and "ok \<Longrightarrow> cb_len st' = cb_len st + (k - 1)"
proof -
  have n: "k - 1 < SIZE_MAX_1" using assms(5) by (simp add: SIZE_MAX_1_def)
  obtain ok1 st1 where 1: "cbb_buffer_add al st (k - 1) = (ok1, st1)" by fastforce
  note b = buffer_add_cases [OF 1 n assms(2)]
  have "length (mem_move (cb_buf st1) (cs + (k - 1)) cs (cb_len st - cs)) = cb_len st1" if ok1
    using that b(1) assms(3) by (simp add: mem_move_def mem_write_def)
  with 1 b assms(1) have "keeps st st' \<and> cb_frames st' = cb_frames st \<and> (ok \<longrightarrow> cb_len st' = cb_len st + (k - 1))"
    by (auto simp: shift_child_def and_then_def intro: keeps_same_length split: if_splits)
  then show "keeps st st'" and "cb_frames st' = cb_frames st" and "ok \<Longrightarrow> cb_len st' = cb_len st + (k - 1)" by blast+
qed

lemma flush_child_asn1_cases:
  assumes "flush_child al d st = (ok, st')" and "Suc d < length (cb_frames st)" and "cbb_inv st"
    and "fr_pending_is_asn1 (cb_frames st ! Suc d)"
  shows "keeps st st' \<and> (ok \<longrightarrow> cb_frames st' = take (Suc d) (cb_frames st) \<and> cb_len st \<le> cb_len st')"
proof -
  let ?c = "cb_frames st ! Suc d"
  define cs where "cs = size_add (fr_offset ?c) (fr_pending_len_len ?c)"
  show ?thesis
  proof (cases "cs < fr_offset ?c \<or> cb_len st < cs \<or> asn1_len_octets (cb_len st - cs) = None")
    case True
    then have "flush_child al d st = cbb_fail st" using assms(4) by (auto simp: flush_child_def cs_def Let_def)
    with assms(1) keeps_fail [of st st] show ?thesis by (simp add: cbb_fail_def)
  next
    case False
    then obtain k b len' where oct: "asn1_len_octets (cb_len st - cs) = Some (k, b, len')" by auto
    note k = asn1_len_octets_der [OF oct]
    obtain ok1 st1 where 1: "shift_child al cs (cb_len st - cs) k st = (ok1, st1)" by fastforce
    note sh = shift_child_cases [OF 1 assms(3)]
    note False2 = False
    define st2 where "st2 = st1\<lparr>cb_buf := (cb_buf st1)[fr_offset ?c := b], cb_frames := (cb_frames st1)[Suc d :=
        ?c\<lparr>fr_offset := fr_offset ?c + 1, fr_pending_len_len := k - 1\<rparr>]\<rparr>"
    have fc: "flush_child al d st = (if \<not> ok1 then cbb_fail st1 else flush_length d len' st2)"
      using assms(4) False oct 1
      by (simp add: flush_child_def Let_def cs_def [symmetric] st2_def)
    show ?thesis
    proof (cases ok1)
      case False
      with fc assms(1) have "(ok, st') = cbb_fail st1" by simp
      with sh(1) keeps_fail [of st st1] False2 k show ?thesis by (simp add: cbb_fail_def)
    next
      case True
      have fr: "cb_frames st2 ! Suc d = ?c\<lparr>fr_offset := fr_offset ?c + 1, fr_pending_len_len := k - 1\<rparr>"
        using sh(2) False2 k assms(2) by (simp add: st2_def)
      have "\<exists>buf. length buf = cb_len st2 \<and>
          flush_length d len' st2 = (True, st2\<lparr>cb_buf := buf, cb_frames := take (Suc d) (cb_frames st2)\<rparr>)"
        by (rule flush_length_fits) (use fr k in auto)
      then obtain buf where "length buf = cb_len st2" "ok"
        "st' = st2\<lparr>cb_buf := buf, cb_frames := take (Suc d) (cb_frames st2)\<rparr>"
        using fc True assms(1) by auto
      moreover have "keeps st1 (st1\<lparr>cb_buf := buf, cb_frames := take (Suc d) (cb_frames st1)\<rparr>)" if "length buf = cb_len st1" for buf
        using that by (auto simp: keeps_def cbb_inv_def intro: chain_ok_take)
      ultimately show ?thesis
        using sh False2 k True by (auto simp: st2_def elim: keeps_trans)
    qed
  qed
qed

lemma flush_child_cases:
  assumes "flush_child al d st = (ok, st')" and "Suc d < length (cb_frames st)" and "cbb_inv st"
  shows "keeps st st' \<and> (ok \<longrightarrow> cb_frames st' = take (Suc d) (cb_frames st) \<and> cb_len st \<le> cb_len st')"
proof (cases "fr_pending_is_asn1 (cb_frames st ! Suc d)")
  case True
  with assms show ?thesis by (rule flush_child_asn1_cases)
next
  case False
  let ?cs = "size_add (fr_offset (cb_frames st ! Suc d)) (fr_pending_len_len (cb_frames st ! Suc d))"
  show ?thesis
  proof (cases "?cs < fr_offset (cb_frames st ! Suc d) \<or> cb_len st < ?cs")
    case True
    then have "flush_child al d st = cbb_fail st" by (simp add: flush_child_def Let_def)
    with assms(1) keeps_fail [of st st] show ?thesis by (simp add: cbb_fail_def)
  next
    case f: False
    with False assms(1) have fl: "flush_length d (cb_len st - ?cs) st = (ok, st')"
      by (simp add: flush_child_def Let_def)
    then have "keeps st st'" using keeps_flush_length [of st d "cb_len st - ?cs"] by simp
    with fl show ?thesis using flush_length_frames [of d _ st st'] by (cases ok) auto
  qed
qed

lemma CBB_flush_cases:
  assumes "CBB_flush al d st = (ok, st')" and "cbb_inv st"
  shows "keeps st st' \<and> (ok \<longrightarrow> d < length (cb_frames st) \<and> cb_len st \<le> cb_len st' \<and>
    (cb_frames st' = cb_frames st \<or> cb_frames st' = take (Suc d) (cb_frames st)))"
  using assms
proof (induction al d st arbitrary: ok st' rule: CBB_flush.induct)
  case (1 al d st)
  show ?case
  proof (cases "length (cb_frames st) \<le> d \<or> cb_error st \<or> length (cb_frames st) \<le> Suc d \<or>
      fr_pending_len_len (cb_frames st ! Suc d) = 0")
    case True
    with 1(2) show ?thesis by (subst (asm) CBB_flush.simps) (auto split: if_splits)
  next
    case False
    obtain ok1 st1 where r: "CBB_flush al (Suc d) st = (ok1, st1)" by fastforce
    have ih: "keeps st st1 \<and> (ok1 \<longrightarrow> Suc d < length (cb_frames st) \<and> cb_len st \<le> cb_len st1 \<and>
        (cb_frames st1 = cb_frames st \<or> cb_frames st1 = take (Suc (Suc d)) (cb_frames st)))"
      using 1(1) [OF _ _ r 1(3)] False by simp
    have fl: "CBB_flush al d st = (if ok1 then flush_child al d st1 else cbb_fail st1)"
      using False r by (subst CBB_flush.simps) (simp split: bool.split)
    show ?thesis
    proof (cases ok1)
      case True
      with ih 1(3) have i: "cbb_inv st1" "Suc d < length (cb_frames st1)" by (auto simp: keeps_def)
      from True fl 1(2) have "flush_child al d st1 = (ok, st')" by simp
      from flush_child_cases [OF this i(2,1)] ih True show ?thesis by (auto intro: keeps_trans simp: take_take)
    next
      case False
      with fl 1(2) ih keeps_fail [of st st1] show ?thesis by (auto simp: cbb_fail_def)
    qed
  qed
qed

text \<open>After a successful flush at position \<open>d\<close> there is no child left.\<close>

lemma CBB_flush_innermost:
  assumes "CBB_flush al d st = (True, st')" and "cbb_inv st"
  shows "length (cb_frames st') = Suc d"
proof -
  have d: "d < length (cb_frames st)" and fr: "cb_frames st' = cb_frames st \<or> cb_frames st' = take (Suc d) (cb_frames st)"
    using CBB_flush_cases [OF assms] by auto
  show ?thesis
  proof (cases "length (cb_frames st) \<le> Suc d")
    case True
    with d fr show ?thesis by auto
  next
    case False
    then have "cb_frames st ! Suc d \<in> set (tl (cb_frames st))" by (cases "cb_frames st") auto
    then have p: "fr_pending_len_len (cb_frames st ! Suc d) \<noteq> 0"
      using assms(2) by (auto simp: cbb_inv_def chain_ok_def list_all_iff)
    obtain ok1 st1 where 1: "CBB_flush al (Suc d) st = (ok1, st1)" by fastforce
    with assms(1) False p have 2: "ok1" "flush_child al d st1 = (True, st')"
      by (subst (asm) CBB_flush.simps, simp add: cbb_fail_def split: if_splits bool.splits)+
    with 1 CBB_flush_cases [OF 1 assms(2)] assms(2) have "cbb_inv st1" "Suc d < length (cb_frames st1)"
      by (auto simp: keeps_def)
    with flush_child_cases [OF 2(2)] show ?thesis by auto
  qed
qed

lemma keeps_flush [inv_intros]: "keeps st (snd (CBB_flush al d st))"
  using CBB_flush_cases [of al d st] by (cases "CBB_flush al d st") (auto simp: keeps_def)


subsection \<open>The public operations\<close>

lemma small_size: "n \<le> 8 \<Longrightarrow> n < SIZE_MAX_1"
  by (simp add: SIZE_MAX_1_def)

lemma keeps_ints [inv_intros]:
  "keeps st (snd (CBB_add_u8 al d st b))" "keeps st (snd (CBB_add_u16 al d st w))"
  "keeps st (snd (CBB_add_u16le al d st w))" "keeps st (snd (CBB_add_u24 al d st x))"
  "keeps st (snd (CBB_add_u32 al d st x))" "keeps st (snd (CBB_add_u32le al d st x))"
  "keeps st (snd (CBB_add_u64 al d st v))" "keeps st (snd (CBB_add_u64le al d st v))"
  unfolding CBB_add_u8_def CBB_add_u16_def CBB_add_u16le_def CBB_add_u24_def CBB_add_u32_def
    CBB_add_u32le_def CBB_add_u64_def CBB_add_u64le_def
  by (intro inv_intros; simp)+

lemma keepsI: "(cbb_inv st \<Longrightarrow> keeps st st') \<Longrightarrow> keeps st st'"
  by (auto simp: keeps_def)

lemma keeps_buffer_write [inv_intros]:
  assumes n: "n < SIZE_MAX_1" and "length data = n"
  shows "keeps st (snd (and_then (cbb_buffer_add al st n)
      (\<lambda>st'. (True, st'\<lparr>cb_buf := mem_write (cb_buf st') (cb_len st) data\<rparr>))))"
proof (rule keepsI)
  assume i: "cbb_inv st"
  obtain ok1 st1 where 1: "cbb_buffer_add al st n = (ok1, st1)" by fastforce
  note b = buffer_add_cases [OF 1 n i]
  have "ok1 \<Longrightarrow> length (mem_write (cb_buf st1) (cb_len st) data) = cb_len st1"
    using b(1) assms(2) by (simp add: mem_write_def)
  with 1 b(3) show "keeps st (snd (and_then (cbb_buffer_add al st n)
      (\<lambda>st'. (True, st'\<lparr>cb_buf := mem_write (cb_buf st') (cb_len st) data\<rparr>))))"
    by (auto simp: and_then_def intro: keeps_same_length)
qed

lemma keeps_add_bytes [inv_intros]: "length data < SIZE_MAX_1 \<Longrightarrow> keeps st (snd (CBB_add_bytes al d st data))"
  unfolding CBB_add_bytes_def
  by (rule keeps_and_then, rule keeps_flush) (rule keeps_buffer_write, simp_all)

lemma keeps_add_space [inv_intros]: "n < SIZE_MAX_1 \<Longrightarrow> keeps st (snd (CBB_add_space al d st n))"
  unfolding CBB_add_space_def by (intro inv_intros)

lemma add_space_len:
  assumes "CBB_add_space al d st n = (True, st')" and "n < SIZE_MAX_1" and "cbb_inv st"
  shows "n \<le> cb_len st'"
proof -
  from assms(1) obtain st1 where 1: "CBB_flush al d st = (True, st1)" and 2: "cbb_buffer_add al st1 n = (True, st')"
    by (auto simp: CBB_add_space_def and_then_True_iff)
  from CBB_flush_cases [OF 1 assms(3)] assms(3) have "cbb_inv st1" by (simp add: keeps_def)
  from buffer_add_cases(1) [OF 2 assms(2) this] show ?thesis by simp
qed

lemma keeps_add_zeros [inv_intros]: "n < SIZE_MAX_1 \<Longrightarrow> keeps st (snd (CBB_add_zeros al d st n))"
proof (rule keepsI)
  assume n: "n < SIZE_MAX_1" and i: "cbb_inv st"
  show "keeps st (snd (CBB_add_zeros al d st n))"
    unfolding CBB_add_zeros_def
  proof (rule keeps_and_then)
    show "keeps st (snd (CBB_add_space al d st n))" using n by (rule inv_intros)
    fix s assume "CBB_add_space al d st n = (True, s)"
    from add_space_len [OF this n i] show "keeps s (snd (True, s\<lparr>cb_buf := mem_write (cb_buf s) (cb_len s - n) (replicate n 0)\<rparr>))"
      by (simp add: keeps_same_length mem_write_def)
  qed
qed

lemma keeps_CBB_reserve [inv_intros]: "n < SIZE_MAX_1 \<Longrightarrow> keeps st (snd (CBB_reserve al d st n))"
  unfolding CBB_reserve_def by (intro inv_intros)

lemma keeps_did_write [inv_intros]: "length data < SIZE_MAX_1 \<Longrightarrow> keeps st (snd (CBB_did_write d st data))"
  using size_add_overflow_iff [of "cb_len st" "length data"]
  by (auto simp: CBB_did_write_def Let_def keeps_def cbb_inv_def size_add_eq not_less elim!: chain_ok_mono)

lemma keeps_discard_child [inv_intros]: "keeps st (CBB_discard_child d st)"
  using chain_ok_cut [of "cb_frames st" "cb_len st" "Suc d"]
  by (auto simp: CBB_discard_child_def keeps_def cbb_inv_def)

lemma keeps_cleanup [inv_intros]: "keeps st (CBB_cleanup d st)"
  by (simp add: CBB_cleanup_def keeps_def cbb_inv_def)

lemma keeps_finish [inv_intros]: "keeps st (snd (CBB_finish al d st out_data out_len))"
  using keeps_flush [of st al d] keeps_cleanup
  by (auto simp: CBB_finish_def intro: keeps_trans split: prod.split bool.split)

lemma add_base128_keeps [inv_intros]: "keeps st (snd (add_base128_integer al d st v))"
proof -
  have "keeps st (snd (add_base128_loop al d v n st))" for n st
    by (induction n arbitrary: st) (simp, unfold add_base128_loop.simps Let_def, intro inv_intros)
  then show ?thesis by (simp add: add_base128_integer_def Let_def)
qed


text \<open>A child opened behind bytes that were just added.\<close>

lemma keeps_open_child:
  assumes "cbb_inv st" and "cbb_inv st'" and "cb_len st + k \<le> cb_len st'" and "0 < k"
    and "cb_frames st' = cb_frames st \<or> cb_frames st' = take (Suc d) (cb_frames st)"
  shows "keeps st' (open_child d (cb_len st) k a st')"
proof -
  have "chain_ok (take (Suc d) (cb_frames st')) (cb_len st)"
    using assms(1,5) by (auto simp: cbb_inv_def intro: chain_ok_take)
  then have "chain_ok (cb_frames (open_child d (cb_len st) k a st')) (cb_len st')"
    using assms(3,4) by (auto simp: open_child_def intro!: chain_ok_snoc)
  with assms(2) show ?thesis by (simp add: keeps_def cbb_inv_def open_child_def)
qed

lemma add_u8_cases:
  assumes "CBB_add_u8 al d st b = (True, st')" and "cbb_inv st"
  shows "cb_len st + 1 \<le> cb_len st'" and "cb_frames st' = cb_frames st \<or> cb_frames st' = take (Suc d) (cb_frames st)"
proof -
  from assms(1) obtain st1 st2 where 1: "CBB_flush al d st = (True, st1)"
    and 2: "cbb_buffer_add al st1 1 = (True, st2)" and 3: "cb_len st' = cb_len st2" "cb_frames st' = cb_frames st2"
    by (auto simp: CBB_add_u8_def cbb_buffer_add_u_def and_then_True_iff Let_def cbb_fail_def split: if_splits)
  note f = CBB_flush_cases [OF 1 assms(2)]
  then have "cbb_inv st1" using assms(2) by (simp add: keeps_def)
  from buffer_add_cases [OF 2 small_size this] f 3
  show "cb_len st + 1 \<le> cb_len st'" and "cb_frames st' = cb_frames st \<or> cb_frames st' = take (Suc d) (cb_frames st)"
    by auto
qed

lemma keeps_opening:
  assumes "keeps st (snd r)" and "0 < k" and "\<And>s. \<lbrakk>r = (True, s); cbb_inv st\<rbrakk> \<Longrightarrow> cb_len st + k \<le> cb_len s \<and>
      (cb_frames s = cb_frames st \<or> cb_frames s = take (Suc d) (cb_frames st))"
  shows "keeps st (snd (and_then r (\<lambda>s. (True, open_child d (cb_len st) k a s))))"
proof (rule keepsI)
  assume i: "cbb_inv st"
  obtain ok s where r: "r = (ok, s)" by fastforce
  with i assms(1) have "cbb_inv s" by (simp add: keeps_def)
  with r i assms(2,3) have "ok \<Longrightarrow> keeps s (open_child d (cb_len st) k a s)" by (intro keeps_open_child) auto
  with r assms(1) show "keeps st (snd (and_then r (\<lambda>s. (True, open_child d (cb_len st) k a s))))"
    by (auto simp: and_then_def intro: keeps_trans)
qed

lemma keeps_length_prefixed [inv_intros]:
  assumes "k \<le> 8" and "0 < k"
  shows "keeps st (snd (cbb_add_length_prefixed al d st k))"
proof -
  have k: "k < SIZE_MAX_1" using assms(1) by (rule small_size)
  let ?r = "\<lambda>st. and_then (cbb_buffer_add al st k)
      (\<lambda>s. (True, s\<lparr>cb_buf := mem_write (cb_buf s) (cb_len st) (replicate k 0)\<rparr>))"
  have o: "keeps st (snd (and_then (?r st) (\<lambda>s. (True, open_child d (cb_len st) k False s))))" for st
  proof (rule keeps_opening)
    show "keeps st (snd (?r st))" using k by (rule keeps_buffer_write) simp
    show "0 < k" by (rule assms(2))
    fix s assume "?r st = (True, s)" and i: "cbb_inv st"
    then obtain s1 where 1: "cbb_buffer_add al st k = (True, s1)"
      and s: "s = s1\<lparr>cb_buf := mem_write (cb_buf s1) (cb_len st) (replicate k 0)\<rparr>"
      by (auto simp: and_then_True_iff)
    from buffer_add_cases [OF 1 k i] s show "cb_len st + k \<le> cb_len s \<and>
      (cb_frames s = cb_frames st \<or> cb_frames s = take (Suc d) (cb_frames st))" by (simp add: mem_write_def)
  qed
  show ?thesis
    unfolding cbb_add_length_prefixed_def Let_def
    by (rule keeps_and_then, rule keeps_flush) (use o in \<open>simp add: and_then_assoc\<close>)
qed

lemma keeps_add_asn1 [inv_intros]: "keeps st (snd (CBB_add_asn1 al d st tag))"
proof -
  have o: "keeps st (snd (and_then (CBB_add_u8 al d st 0) (\<lambda>s. (True, open_child d (cb_len st) 1 True s))))" for st
    using add_u8_cases [of al d st 0] by (intro keeps_opening keeps_ints) auto
  show ?thesis
    unfolding CBB_add_asn1_def Let_def
    by (rule keeps_and_then, rule keeps_flush, rule keeps_and_then, rule keeps_if,
        rule keeps_and_then, rule keeps_ints, rule add_base128_keeps, rule keeps_ints, rule o)
qed

lemma keeps_add_uint64 [inv_intros]: "keeps st (snd (CBB_add_asn1_uint64 al d st v))"
proof -
  have loop: "keeps st (snd (uint64_contents al d v k started st))" for d k started st
  proof (induction k arbitrary: started st)
    case 0
    then show ?case by (auto simp: uint64_contents_def intro: keeps_ints)
  next
    case (Suc k)
    then show ?case unfolding uint64_contents_step by (auto intro!: inv_intros)
  qed
  have "CBB_add_asn1_uint64 al d st v = and_then (CBB_add_asn1 al d st CBS_ASN1_INTEGER)
      (\<lambda>st. and_then (uint64_contents al (Suc d) v 8 False st) (CBB_flush al d))"
    by (simp add: CBB_add_asn1_uint64_def uint64_contents_def and_then_def split: prod.split)
  then show ?thesis using loop by (simp only:) (intro inv_intros)
qed

lemma keeps_add_int64 [inv_intros]: "keeps st (snd (CBB_add_asn1_int64 al d st v))"
proof -
  have "keeps st (snd (add_bytes_down al d bs n st))" for d bs n st
    by (induction n arbitrary: st) (auto intro: inv_intros)
  then show ?thesis unfolding CBB_add_asn1_int64_def Let_def by (intro inv_intros)
qed

lemma keeps_octet_string [inv_intros]:
  "length data < SIZE_MAX_1 \<Longrightarrow> keeps st (snd (CBB_add_asn1_octet_string al d st data))"
  unfolding CBB_add_asn1_octet_string_def by (intro inv_intros)

lemma keeps_bool [inv_intros]: "keeps st (snd (CBB_add_asn1_bool al d st v))"
  unfolding CBB_add_asn1_bool_def by (intro inv_intros)

end
