(* ===== verification/Unicode.thy ===== *)
theory Unicode
  imports Cbb
begin

text \<open>
  The character codecs of \<^verbatim>\<open>BoringSSL-GRPC/src/crypto/bytestring/unicode.c\<close>: UTF-8, Latin-1, UCS-2 and
  UTF-32, each as a reader on a \<^verbatim>\<open>CBS\<close> and a writer on a \<^verbatim>\<open>CBB\<close>. The readers are proved to accept
  exactly the shortest forms of the valid code points, which are what the writers produce.
\<close>

section \<open>Model\<close>

definition is_valid_code_point :: "u32 \<Rightarrow> bool" where
  "is_valid_code_point v =
     (\<not> (0x10ffff < v \<or> v AND 0xfffe = 0xfffe \<or> (0xfdd0 \<le> v \<and> v \<le> 0xfdef) \<or> (0xd800 \<le> v \<and> v \<le> 0xdfff)))"

definition BOTTOM_BITS :: "nat \<Rightarrow> u8" where
  "BOTTOM_BITS n = push_bit n 1 - 1"

definition TOP_BITS :: "nat \<Rightarrow> u8" where
  "TOP_BITS n = NOT (BOTTOM_BITS (8 - n))"

fun utf8_loop :: "nat \<Rightarrow> u32 \<Rightarrow> cbs \<Rightarrow> (u32 \<times> cbs) option" where
  "utf8_loop 0 v cbs = Some (v, cbs)"
| "utf8_loop (Suc i) v cbs =
     (case CBS_get_u8 cbs of
        None \<Rightarrow> None
      | Some (c, cbs') \<Rightarrow>
          if c AND TOP_BITS 2 \<noteq> TOP_BITS 1 then None
          else utf8_loop i (push_bit 6 v OR ucast (c AND BOTTOM_BITS 6)) cbs')"

definition cbs_get_utf8 :: "cbs \<Rightarrow> (u32 \<times> cbs) option" where
  "cbs_get_utf8 cbs =
     (case CBS_get_u8 cbs of
        None \<Rightarrow> None
      | Some (c, cbs') \<Rightarrow>
          if c \<le> 0x7f then Some (ucast c, cbs')
          else
          (case (if c AND TOP_BITS 3 = TOP_BITS 2 then Some (ucast (c AND BOTTOM_BITS 5), 1, 0x80)
                 else if c AND TOP_BITS 4 = TOP_BITS 3 then Some (ucast (c AND BOTTOM_BITS 4), 2, 0x800)
                 else if c AND TOP_BITS 5 = TOP_BITS 4 then Some (ucast (c AND BOTTOM_BITS 3), 3, 0x10000)
                 else None) of
             None \<Rightarrow> None
           | Some (v, len, lower_bound) \<Rightarrow>
               (case utf8_loop len v cbs' of
                  None \<Rightarrow> None
                | Some (v', cbs'') \<Rightarrow>
                    if \<not> is_valid_code_point v' \<or> v' < lower_bound then None else Some (v', cbs''))))"

definition cbs_get_latin1 :: "cbs \<Rightarrow> (u32 \<times> cbs) option" where
  "cbs_get_latin1 cbs = (case CBS_get_u8 cbs of None \<Rightarrow> None | Some (c, cbs') \<Rightarrow> Some (ucast c, cbs'))"

definition cbs_get_ucs2_be :: "cbs \<Rightarrow> (u32 \<times> cbs) option" where
  "cbs_get_ucs2_be cbs =
     (case CBS_get_u16 cbs of
        None \<Rightarrow> None
      | Some (c, cbs') \<Rightarrow> if is_valid_code_point (ucast c) then Some (ucast c, cbs') else None)"

definition cbs_get_utf32_be :: "cbs \<Rightarrow> (u32 \<times> cbs) option" where
  "cbs_get_utf32_be cbs =
     (case CBS_get_u32 cbs of
        None \<Rightarrow> None
      | Some (c, cbs') \<Rightarrow> if is_valid_code_point c then Some (c, cbs') else None)"

definition cbb_get_utf8_len :: "u32 \<Rightarrow> nat" where
  "cbb_get_utf8_len u = (if u \<le> 0x7f then 1 else if u \<le> 0x7ff then 2 else if u \<le> 0xffff then 3 else 4)"

definition cbb_add_utf8 :: "alloc \<Rightarrow> nat \<Rightarrow> cbb \<Rightarrow> u32 \<Rightarrow> bool \<times> cbb" where
  "cbb_add_utf8 al d st u =
     (if \<not> is_valid_code_point u then (False, st)
      else if u \<le> 0x7f then CBB_add_u8 al d st (ucast u)
      else if u \<le> 0x7ff then
        and_then (CBB_add_u8 al d st (TOP_BITS 2 OR ucast (drop_bit 6 u)))
          (\<lambda>st. CBB_add_u8 al d st (TOP_BITS 1 OR (ucast u AND BOTTOM_BITS 6)))
      else if u \<le> 0xffff then
        and_then (CBB_add_u8 al d st (TOP_BITS 3 OR ucast (drop_bit 12 u))) (\<lambda>st.
        and_then (CBB_add_u8 al d st (TOP_BITS 1 OR (ucast (drop_bit 6 u) AND BOTTOM_BITS 6)))
          (\<lambda>st. CBB_add_u8 al d st (TOP_BITS 1 OR (ucast u AND BOTTOM_BITS 6))))
      else if u \<le> 0x10ffff then
        and_then (CBB_add_u8 al d st (TOP_BITS 4 OR ucast (drop_bit 18 u))) (\<lambda>st.
        and_then (CBB_add_u8 al d st (TOP_BITS 1 OR (ucast (drop_bit 12 u) AND BOTTOM_BITS 6))) (\<lambda>st.
        and_then (CBB_add_u8 al d st (TOP_BITS 1 OR (ucast (drop_bit 6 u) AND BOTTOM_BITS 6)))
          (\<lambda>st. CBB_add_u8 al d st (TOP_BITS 1 OR (ucast u AND BOTTOM_BITS 6)))))
      else (False, st))"

definition cbb_add_latin1 :: "alloc \<Rightarrow> nat \<Rightarrow> cbb \<Rightarrow> u32 \<Rightarrow> bool \<times> cbb" where
  "cbb_add_latin1 al d st u = (if u \<le> 0xff then CBB_add_u8 al d st (ucast u) else (False, st))"

definition cbb_add_ucs2_be :: "alloc \<Rightarrow> nat \<Rightarrow> cbb \<Rightarrow> u32 \<Rightarrow> bool \<times> cbb" where
  "cbb_add_ucs2_be al d st u =
     (if u \<le> 0xffff \<and> is_valid_code_point u then CBB_add_u16 al d st (ucast u) else (False, st))"

definition cbb_add_utf32_be :: "alloc \<Rightarrow> nat \<Rightarrow> cbb \<Rightarrow> u32 \<Rightarrow> bool \<times> cbb" where
  "cbb_add_utf32_be al d st u = (if is_valid_code_point u then CBB_add_u32 al d st u else (False, st))"

section \<open>UTF-8 as a codec\<close>

text \<open>The byte sequences of the Unicode standard, over the naturals.\<close>

definition utf8 :: "nat \<Rightarrow> u8 list" where
  "utf8 n =
     (if n < 0x80 then [of_nat n]
      else if n < 0x800 then [of_nat (192 + n div 64), of_nat (128 + n mod 64)]
      else if n < 0x10000 then [of_nat (224 + n div 4096), of_nat (128 + n div 64 mod 64), of_nat (128 + n mod 64)]
      else [of_nat (240 + n div 262144), of_nat (128 + n div 4096 mod 64), of_nat (128 + n div 64 mod 64),
            of_nat (128 + n mod 64)])"

lemma top_bits_values: "TOP_BITS 1 = 0x80" "TOP_BITS 2 = 0xc0" "TOP_BITS 3 = 0xe0" "TOP_BITS 4 = 0xf0" "TOP_BITS 5 = 0xf8"
  by (simp_all add: TOP_BITS_def BOTTOM_BITS_def push_bit_eq_mult)

lemma bottom_bits_mask: "BOTTOM_BITS n = mask n"
  by (simp add: BOTTOM_BITS_def mask_eq_exp_minus_1 push_bit_eq_mult)

lemma unat_bottom_bits: "unat (c AND BOTTOM_BITS n) = unat (c::u8) mod 2 ^ n"
  by (simp only: bottom_bits_mask unat_and_mask)

lemma lead_test:
  "c AND TOP_BITS 2 = TOP_BITS 1 \<longleftrightarrow> unat c div 64 = 2"
  "c AND TOP_BITS 3 = TOP_BITS 2 \<longleftrightarrow> unat c div 32 = 6"
  "c AND TOP_BITS 4 = TOP_BITS 3 \<longleftrightarrow> unat c div 16 = 14"
  "c AND TOP_BITS 5 = TOP_BITS 4 \<longleftrightarrow> unat c div 8 = 30"
proof -
  have m: "(0xc0::u8) = push_bit 6 (mask 2)" "(0xe0::u8) = push_bit 5 (mask 3)"
    "(0xf0::u8) = push_bit 4 (mask 4)" "(0xf8::u8) = push_bit 3 (mask 5)"
    by (simp_all add: mask_eq_exp_minus_1 push_bit_eq_mult)
  have b: "unat c div 64 mod 4 = unat c div 64" "unat c div 32 mod 8 = unat c div 32"
    "unat c div 16 mod 16 = unat c div 16" "unat c div 8 mod 32 = unat c div 8"
    using u8_le [of c] by simp_all
  have u: "unat (c AND 0xc0) = unat c div 64 * 64" "unat (c AND 0xe0) = unat c div 32 * 32"
    "unat (c AND 0xf0) = unat c div 16 * 16" "unat (c AND 0xf8) = unat c div 8 * 8"
    using b unat_and_push_mask [of c 6 2] unat_and_push_mask [of c 5 3] unat_and_push_mask [of c 4 4]
      unat_and_push_mask [of c 3 5] unfolding m by simp_all
  show "c AND TOP_BITS 2 = TOP_BITS 1 \<longleftrightarrow> unat c div 64 = 2" "c AND TOP_BITS 3 = TOP_BITS 2 \<longleftrightarrow> unat c div 32 = 6"
    "c AND TOP_BITS 4 = TOP_BITS 3 \<longleftrightarrow> unat c div 16 = 14" "c AND TOP_BITS 5 = TOP_BITS 4 \<longleftrightarrow> unat c div 8 = 30"
    unfolding top_bits_values word_unat_eq_iff [of "c AND _"] u by auto
qed

lemma utf8_accumulate:
  fixes c :: u8
  assumes "unat v * 64 < 2 ^ 32"
  shows "push_bit 6 v OR ucast (c AND BOTTOM_BITS 6) = of_nat (unat (v::u32) * 64 + unat c mod 64)"
proof -
  have "unat (push_bit 6 v OR ucast (c AND BOTTOM_BITS 6)) = unat v * 64 + unat c mod 64"
    using unat_shift_or [of "ucast (c AND BOTTOM_BITS 6)" 6 v] assms by (simp add: unat_bottom_bits)
  from arg_cong [OF this, of "of_nat :: nat \<Rightarrow> u32"] show ?thesis by simp
qed

lemma utf8_loop_Cons:
  "unat v * 64 < 2 ^ 32 \<Longrightarrow> utf8_loop (Suc i) v (c # s) =
    (if unat c div 64 = 2 then utf8_loop i (of_nat (unat v * 64 + unat c mod 64)) s else None)"
  by (simp add: lead_test utf8_accumulate del: of_nat_add of_nat_mult One_nat_def)

lemma utf8_loop_Nil: "utf8_loop (Suc i) v [] = None"
  by simp

lemma utf8_loop_nat:
  "\<lbrakk>n * 64 < 2 ^ 32\<rbrakk> \<Longrightarrow> utf8_loop (Suc i) (of_nat n) (c # s) =
    (if unat c div 64 = 2 then utf8_loop i (of_nat (n * 64 + unat c mod 64)) s else None)"
  using utf8_loop_Cons [of "of_nat n"] by (simp add: unat_of_nat_u32 del: of_nat_add of_nat_mult utf8_loop.simps)

lemma valid_bound: "is_valid_code_point u \<Longrightarrow> unat u \<le> 0x10ffff"
  by (simp add: is_valid_code_point_def not_less word_le_nat_alt)

text \<open>The reader, branch by branch: the lead byte and its continuation bytes.\<close>

lemma get_utf8_lead:
  "cbs_get_utf8 (c # s) =
    (if unat c < 128 then Some (ucast c, s)
     else case (if unat c div 32 = 6 then Some (of_nat (unat c mod 32), 1, 0x80)
                else if unat c div 16 = 14 then Some (of_nat (unat c mod 16), 2, 0x800)
                else if unat c div 8 = 30 then Some (of_nat (unat c mod 8), 3, 0x10000)
                else None) of
            None \<Rightarrow> None
          | Some (v, len, lower_bound) \<Rightarrow>
              (case utf8_loop len v s of
                 None \<Rightarrow> None
               | Some (v', s') \<Rightarrow>
                   if \<not> is_valid_code_point v' \<or> v' < lower_bound then None else Some (v', s')))"
proof -
  have u: "(ucast (c AND BOTTOM_BITS n) :: u32) = of_nat (unat c mod 2 ^ n)" for n
    by (metis of_nat_unat u8_unat_ucast32 unat_bottom_bits)
  have "c \<le> 0x7f \<longleftrightarrow> unat c < 128" by (auto simp: word_le_nat_alt)
  then show ?thesis by (simp add: cbs_get_utf8_def lead_test u)
qed


lemma u8_eq_of_nat: "unat (c::u8) = n \<Longrightarrow> of_nat n = c"
  by auto

lemma div_mod_64: "(x * 64 + y mod 64) div 64 = x" "(x * 64 + y mod 64) mod 64 = y mod (64::nat)"
  by simp_all

lemma quotient_rest: "(x::nat) div k = q \<Longrightarrow> q * k + x mod k = x"
  by (metis div_mult_mod_eq)

lemma utf8_2_sound:
  assumes "unat a div 32 = 6" "unat b div 64 = 2" and "n = unat a mod 32 * 64 + unat b mod 64" and "0x80 \<le> n"
  shows "utf8 n = [a, b]"
proof -
  have n: "n < 0x800" "n div 64 = unat a mod 32" "n mod 64 = unat b mod 64"
    using assms(3) div_mod_64 by simp_all
  have "192 + n div 64 = unat a" "128 + n mod 64 = unat b"
    using quotient_rest [OF assms(1)] quotient_rest [OF assms(2)] unfolding n by simp_all
  then show ?thesis using n(1) assms(4) by (simp add: utf8_def u8_eq_of_nat del: of_nat_add)
qed

lemma utf8_3_sound:
  assumes "unat a div 16 = 14" "unat b div 64 = 2" "unat c div 64 = 2"
    and "n = (unat a mod 16 * 64 + unat b mod 64) * 64 + unat c mod 64" and "0x800 \<le> n"
  shows "utf8 n = [a, b, c]"
proof -
  have n: "n div 64 = unat a mod 16 * 64 + unat b mod 64" "n mod 64 = unat c mod 64"
    unfolding assms(4) div_mod_64 by (rule refl)+
  have "n div 4096 = n div 64 div 64" by (simp flip: div_mult2_eq)
  then have m: "n div 4096 = unat a mod 16" "n div 64 mod 64 = unat b mod 64" unfolding n div_mod_64 by simp_all
  then have "n < 0x10000" by (simp add: div_less_iff_less_mult)
  moreover have "224 + n div 4096 = unat a" "128 + n div 64 mod 64 = unat b" "128 + n mod 64 = unat c"
    using quotient_rest [OF assms(1)] quotient_rest [OF assms(2)] quotient_rest [OF assms(3)] unfolding m n(2) by simp_all
  ultimately show ?thesis using assms(5) by (simp add: utf8_def u8_eq_of_nat del: of_nat_add)
qed

lemma utf8_4_sound:
  assumes "unat a div 8 = 30" "unat b div 64 = 2" "unat c div 64 = 2" "unat d div 64 = 2"
    and "n = ((unat a mod 8 * 64 + unat b mod 64) * 64 + unat c mod 64) * 64 + unat d mod 64" and "0x10000 \<le> n"
  shows "utf8 n = [a, b, c, d]"
proof -
  have n: "n div 64 = (unat a mod 8 * 64 + unat b mod 64) * 64 + unat c mod 64" "n mod 64 = unat d mod 64"
    unfolding assms(5) div_mod_64 by (rule refl)+
  have "n div 4096 = n div 64 div 64" "n div 262144 = n div 64 div 64 div 64" by (simp_all flip: div_mult2_eq)
  then have m: "n div 262144 = unat a mod 8" "n div 4096 mod 64 = unat b mod 64" "n div 64 mod 64 = unat c mod 64"
    unfolding n div_mod_64 by simp_all
  have "240 + n div 262144 = unat a" "128 + n div 4096 mod 64 = unat b" "128 + n div 64 mod 64 = unat c"
    "128 + n mod 64 = unat d"
    using quotient_rest [OF assms(1)] quotient_rest [OF assms(2)] quotient_rest [OF assms(3)]
      quotient_rest [OF assms(4)] unfolding m n(2) by simp_all
  then show ?thesis using assms(6) by (simp add: utf8_def u8_eq_of_nat del: of_nat_add)
qed


lemma valid_of_nat: "\<lbrakk>is_valid_code_point (of_nat n); n < 2 ^ 32\<rbrakk> \<Longrightarrow> n \<le> 0x10ffff"
  using valid_bound [of "of_nat n"] by (simp add: unat_of_nat_u32)

lemma get_utf8_sound:
  assumes "cbs_get_utf8 s = Some (u, r)"
  shows "s = utf8 (unat u) @ r \<and> is_valid_code_point u"
proof -
  obtain a t where s: "s = a # t" using assms by (cases s) (auto simp: cbs_get_utf8_def)
  consider (1) "unat a < 128" | (2) "unat a div 32 = 6" "\<not> unat a < 128" | (3) "unat a div 16 = 14" "\<not> unat a < 128" "unat a div 32 \<noteq> 6"
    | (4) "unat a div 8 = 30" "\<not> unat a < 128" "unat a div 32 \<noteq> 6" "unat a div 16 \<noteq> 14"
    using assms unfolding s get_utf8_lead by (auto split: if_splits)
  then show ?thesis
  proof cases
    case 1
    then have "u = ucast a" "r = t" using assms unfolding s get_utf8_lead by auto
    moreover have "is_valid_code_point (ucast a)"
    proof -
      have "(ucast a :: u32) AND 0xfffe \<noteq> 0xfffe"
      proof
        assume "(ucast a :: u32) AND 0xfffe = 0xfffe"
        then have "bit ((ucast a :: u32) AND 0xfffe) 15" by simp
        then show False by (auto simp: bit_simps dest: bit_imp_le_length)
      qed
      with 1 show ?thesis by (simp add: is_valid_code_point_def word_less_nat_alt word_le_nat_alt)
    qed
    ultimately show ?thesis using 1 s by (simp add: utf8_def)
  next
    case 2
    then have *: "utf8_loop 1 (of_nat (unat a mod 32)) t = Some (u, r)" "is_valid_code_point u" "\<not> u < 0x80"
      using assms unfolding s get_utf8_lead by (auto split: option.splits if_splits)
    then obtain b where t: "t = b # r" "unat b div 64 = 2" "u = of_nat (unat a mod 32 * 64 + unat b mod 64)"
      by (cases t) (auto simp: utf8_loop_nat utf8_loop_Nil simp del: utf8_loop.simps(2) of_nat_add of_nat_mult split: if_splits)
    then have n: "unat u = unat a mod 32 * 64 + unat b mod 64"
      by (simp add: unat_of_nat_u32 del: of_nat_add of_nat_mult)
    have "0x80 \<le> unat u" using *(3) by (simp add: word_less_nat_alt)
    then have e: "utf8 (unat u) = [a, b]" by (rule utf8_2_sound [OF 2(1) t(2) n])
    show ?thesis unfolding s t(1) e using *(2) by simp
  next
    case 3
    then have *: "utf8_loop 2 (of_nat (unat a mod 16)) t = Some (u, r)" "is_valid_code_point u" "\<not> u < 0x800"
      using assms unfolding s get_utf8_lead by (auto split: option.splits if_splits)
    then obtain b c where t: "t = b # c # r" "unat b div 64 = 2" "unat c div 64 = 2"
      "u = of_nat ((unat a mod 16 * 64 + unat b mod 64) * 64 + unat c mod 64)"
      unfolding numeral_2_eq_2
      by (cases t; cases "tl t") (auto simp: utf8_loop_nat utf8_loop_Nil simp del: utf8_loop.simps(2) of_nat_add of_nat_mult split: if_splits)
    then have n: "unat u = (unat a mod 16 * 64 + unat b mod 64) * 64 + unat c mod 64"
      by (simp add: unat_of_nat_u32 del: of_nat_add of_nat_mult)
    have "0x800 \<le> unat u" using *(3) by (simp add: word_less_nat_alt)
    then have e: "utf8 (unat u) = [a, b, c]" by (rule utf8_3_sound [OF 3(1) t(2,3) n])
    show ?thesis unfolding s t(1) e using *(2) by simp
  next
    case 4
    then have *: "utf8_loop 3 (of_nat (unat a mod 8)) t = Some (u, r)" "is_valid_code_point u" "\<not> u < 0x10000"
      using assms unfolding s get_utf8_lead by (auto split: option.splits if_splits)
    then obtain b c d where t: "t = b # c # d # r" "unat b div 64 = 2" "unat c div 64 = 2" "unat d div 64 = 2"
      "u = of_nat (((unat a mod 8 * 64 + unat b mod 64) * 64 + unat c mod 64) * 64 + unat d mod 64)"
      unfolding numeral_3_eq_3
      by (cases t; cases "tl t"; cases "tl (tl t)")
         (auto simp: utf8_loop_nat utf8_loop_Nil simp del: utf8_loop.simps(2) of_nat_add of_nat_mult split: if_splits)
    then have n: "unat u = ((unat a mod 8 * 64 + unat b mod 64) * 64 + unat c mod 64) * 64 + unat d mod 64"
      by (simp add: unat_of_nat_u32 del: of_nat_add of_nat_mult)
    have "0x10000 \<le> unat u" using *(3) by (simp add: word_less_nat_alt)
    then have e: "utf8 (unat u) = [a, b, c, d]" by (rule utf8_4_sound [OF 4(1) t(2-4) n])
    show ?thesis unfolding s t(1) e using *(2) by simp
  qed
qed

text \<open>The reader on bytes of each of the shapes.\<close>

lemma lead_mod:
  "(x::nat) < 32 \<Longrightarrow> (192 + x) mod 32 = x" "x < 16 \<Longrightarrow> (224 + x) mod 16 = x" "x < 8 \<Longrightarrow> (240 + x) mod 8 = x"
  "x < 64 \<Longrightarrow> (128 + x) mod 64 = x"
  using mod_mult_self3 [of 6 32 x] mod_mult_self3 [of 14 16 x] mod_mult_self3 [of 30 8 x] mod_mult_self3 [of 2 64 x]
  by simp_all

lemma get_utf8_2:
  assumes "unat a = 192 + x" "x < 32" "unat b = 128 + y" "y < 64" and "is_valid_code_point (of_nat (x * 64 + y))" "0x80 \<le> x * 64 + y"
  shows "cbs_get_utf8 (a # b # r) = Some (of_nat (x * 64 + y), r)"
proof -
  have q: "unat a div 32 = 6" "unat a mod 32 = x" "unat b div 64 = 2" "unat b mod 64 = y" using assms(1-4) by (auto simp: lead_mod)
  have "\<not> (of_nat (x * 64 + y) :: u32) < 0x80"
    using assms(2,4,6) by (simp add: word_less_nat_alt unat_of_nat_u32 del: of_nat_add of_nat_mult)
  moreover have "utf8_loop 1 (of_nat x) (b # r) = Some (of_nat (x * 64 + y), r)"
    using assms(2) q by (simp add: utf8_loop_nat del: utf8_loop.simps(2) of_nat_add of_nat_mult)
  ultimately show ?thesis using assms(1,5) q by (simp add: get_utf8_lead del: of_nat_add of_nat_mult One_nat_def)
qed

lemma get_utf8_3:
  assumes "unat a = 224 + x" "x < 16" "unat b = 128 + y" "y < 64" "unat c = 128 + z" "z < 64"
    and "n = (x * 64 + y) * 64 + z" "is_valid_code_point (of_nat n)" "0x800 \<le> n"
  shows "cbs_get_utf8 (a # b # c # r) = Some (of_nat n, r)"
proof -
  have q: "unat a div 32 = 7" "unat a div 16 = 14" "unat a mod 16 = x" "unat b div 64 = 2" "unat b mod 64 = y"
    "unat c div 64 = 2" "unat c mod 64 = z" using assms(1-6) by (auto simp: lead_mod)
  have "\<not> (of_nat n :: u32) < 0x800"
    using assms(2,4,6,7,9) by (simp add: word_less_nat_alt unat_of_nat_u32 del: of_nat_add of_nat_mult)
  moreover have "utf8_loop 2 (of_nat x) (b # c # r) = Some (of_nat n, r)"
    unfolding numeral_2_eq_2 assms(7)
    using assms(2,4) q by (simp add: utf8_loop_nat del: utf8_loop.simps(2) of_nat_add of_nat_mult)
  ultimately show ?thesis using assms(1,8) q by (simp add: get_utf8_lead)
qed

lemma get_utf8_4:
  assumes "unat a = 240 + x" "x < 8" "unat b = 128 + y" "y < 64" "unat c = 128 + z" "z < 64" "unat d = 128 + w" "w < 64"
    and "n = ((x * 64 + y) * 64 + z) * 64 + w" "is_valid_code_point (of_nat n)" "0x10000 \<le> n"
  shows "cbs_get_utf8 (a # b # c # d # r) = Some (of_nat n, r)"
proof -
  have q: "unat a div 32 = 7" "unat a div 16 = 15" "unat a div 8 = 30" "unat a mod 8 = x" "unat b div 64 = 2"
    "unat b mod 64 = y" "unat c div 64 = 2" "unat c mod 64 = z" "unat d div 64 = 2" "unat d mod 64 = w"
    using assms(1-8) by (auto simp: lead_mod)
  have "\<not> (of_nat n :: u32) < 0x10000"
    using assms(2,4,6,8,9,11) by (simp add: word_less_nat_alt unat_of_nat_u32 del: of_nat_add of_nat_mult)
  moreover have "utf8_loop 3 (of_nat x) (b # c # d # r) = Some (of_nat n, r)"
    unfolding numeral_3_eq_3 assms(9)
    using assms(2,4,6) q by (simp add: utf8_loop_nat del: utf8_loop.simps(2) of_nat_add of_nat_mult)
  ultimately show ?thesis using assms(1,10) q by (simp add: get_utf8_lead)
qed

lemma utf8_digits:
  "(n div 4096 * 64 + n div 64 mod 64) * 64 + n mod 64 = (n::nat)"
  "((n div 262144 * 64 + n div 4096 mod 64) * 64 + n div 64 mod 64) * 64 + n mod 64 = n"
proof -
  have d: "n div 4096 = n div 64 div 64" "n div 262144 = n div 64 div 64 div 64" by (simp_all flip: div_mult2_eq)
  show "(n div 4096 * 64 + n div 64 mod 64) * 64 + n mod 64 = n" unfolding d div_mult_mod_eq by (rule refl)
  show "((n div 262144 * 64 + n div 4096 mod 64) * 64 + n div 64 mod 64) * 64 + n mod 64 = n"
    unfolding d div_mult_mod_eq by (rule refl)
qed

lemma get_utf8_complete:
  assumes "is_valid_code_point u"
  shows "cbs_get_utf8 (utf8 (unat u) @ r) = Some (u, r)"
proof -
  let ?n = "unat u"
  have b: "?n \<le> 0x10ffff" using assms by (rule valid_bound)
  have u: "is_valid_code_point (of_nat ?n)" using assms by simp
  have o: "unat (of_nat k :: u8) = k" if "k < 256" for k using that by (rule unat_of_nat_u8)
  note e3 = utf8_digits(1) [of ?n] and e4 = utf8_digits(2) [of ?n]
  consider (1) "?n < 0x80" | (2) "0x80 \<le> ?n" "?n < 0x800" | (3) "0x800 \<le> ?n" "?n < 0x10000" | (4) "0x10000 \<le> ?n"
    by linarith
  then show ?thesis
  proof cases
    case 1
    have "unat (ucast (of_nat ?n :: u8) :: u32) = unat u"
      using o [of ?n] 1 by (simp only: u8_unat_ucast32)
    then have "(ucast (of_nat ?n :: u8) :: u32) = u" by (rule unsigned_word_eqI)
    with 1 o [of ?n] show ?thesis by (simp add: utf8_def get_utf8_lead del: of_nat_unat)
  next
    case 2
    have "cbs_get_utf8 (of_nat (192 + ?n div 64) # of_nat (128 + ?n mod 64) # r) = Some (of_nat (?n div 64 * 64 + ?n mod 64), r)"
      using 2 u o [of "192 + ?n div 64"] o [of "128 + ?n mod 64"]
      by (intro get_utf8_2) (simp_all add: div_less_iff_less_mult del: of_nat_add of_nat_mult)
    with 2 show ?thesis by (simp add: utf8_def del: of_nat_add of_nat_mult)
  next
    case 3
    have "cbs_get_utf8 (of_nat (224 + ?n div 4096) # of_nat (128 + ?n div 64 mod 64) # of_nat (128 + ?n mod 64) # r) = Some (of_nat ?n, r)"
      using 3 u o [of "224 + ?n div 4096"] o [of "128 + ?n div 64 mod 64"] o [of "128 + ?n mod 64"]
      by (intro get_utf8_3 [OF _ _ _ _ _ _ e3 [symmetric]])
         (simp_all add: div_less_iff_less_mult del: of_nat_add of_nat_mult)
    with 3 show ?thesis by (simp add: utf8_def del: of_nat_add of_nat_mult)
  next
    case 4
    have "cbs_get_utf8 (of_nat (240 + ?n div 262144) # of_nat (128 + ?n div 4096 mod 64) # of_nat (128 + ?n div 64 mod 64) #
        of_nat (128 + ?n mod 64) # r) = Some (of_nat ?n, r)"
      using 4 u b o [of "240 + ?n div 262144"] o [of "128 + ?n div 4096 mod 64"]
        o [of "128 + ?n div 64 mod 64"] o [of "128 + ?n mod 64"]
      by (intro get_utf8_4 [OF _ _ _ _ _ _ _ _ e4 [symmetric]])
         (simp_all add: div_less_iff_less_mult del: of_nat_add of_nat_mult)
    with 4 show ?thesis by (simp add: utf8_def del: of_nat_add of_nat_mult)
  qed
qed

interpretation utf8_codec: canonical_codec is_valid_code_point "\<lambda>u. utf8 (unat u)" cbs_get_utf8
  using get_utf8_sound get_utf8_complete by unfold_locales auto

lemma u8_or_low:
  assumes "unat (b::u8) < 2 ^ k" and "q * 2 ^ k + unat b < 256"
  shows "of_nat (q * 2 ^ k) OR b = of_nat (q * 2 ^ k + unat b)"
proof -
  have q: "unat (of_nat (q * 2 ^ k) :: u8) = push_bit k q"
    using assms(2) by (subst unat_of_nat_u8) (simp_all add: push_bit_eq_mult)
  have "unat (of_nat (q * 2 ^ k) OR b) = push_bit k q OR unat b"
    by (simp only: unsigned_or_eq q)
  also have "\<dots> = q * 2 ^ k + unat b" using assms(1) by (rule nat_push_bit_or)
  finally have "unat (of_nat (q * 2 ^ k) OR b) = unat (of_nat (q * 2 ^ k + unat b) :: u8)"
    using assms(2) by (simp only: unat_of_nat_u8)
  then show ?thesis by (rule unsigned_word_eqI)
qed

lemma cont_bits: "TOP_BITS 1 OR (ucast (w::u32) AND BOTTOM_BITS 6) = of_nat (128 + unat w mod 64)"
proof -
  have u: "unat ((ucast w :: u8) AND BOTTOM_BITS 6) = unat w mod 64"
    by (simp add: unat_bottom_bits unat_ucast mod_mod_cancel)
  have "unat w mod 64 < 64" "unat w mod 64 < 128" by (simp_all add: less_trans [of _ 64])
  then show ?thesis
    using u8_or_low [of "ucast w AND BOTTOM_BITS 6" 6 2] u by (simp add: top_bits_values del: One_nat_def)
qed

lemma lead_bits:
  "unat w < 32 \<Longrightarrow> TOP_BITS 2 OR ucast (w::u32) = of_nat (192 + unat w)"
  "unat w < 16 \<Longrightarrow> TOP_BITS 3 OR ucast w = of_nat (224 + unat w)"
  "unat w < 8 \<Longrightarrow> TOP_BITS 4 OR ucast w = of_nat (240 + unat w)"
  using u8_or_low [of "ucast w" 5 6] u8_or_low [of "ucast w" 4 14] u8_or_low [of "ucast w" 3 30]
  by (simp_all add: top_bits_values unat_ucast)

lemma emits_add_utf8:
  assumes "is_valid_code_point u"
  shows "emits al d (\<lambda>st. cbb_add_utf8 al d st u) (utf8 (unat u))"
proof -
  let ?n = "unat u"
  have b: "?n \<le> 0x10ffff" using assms by (rule valid_bound)
  note two = emits_and_then [OF emits_add_u8 emits_add_u8]
  note three = emits_and_then [OF emits_add_u8 two]
  note four = emits_and_then [OF emits_add_u8 three]
  have d: "unat (drop_bit 6 u) = ?n div 64" "unat (drop_bit 12 u) = ?n div 4096" "unat (drop_bit 18 u) = ?n div 262144"
    by (simp_all add: unat_drop_bit)
  consider (1) "?n < 0x80" | (2) "0x80 \<le> ?n" "?n < 0x800" | (3) "0x800 \<le> ?n" "?n < 0x10000" | (4) "0x10000 \<le> ?n"
    by linarith
  then show ?thesis
  proof cases
    case 1
    then show ?thesis using assms emits_add_u8 [of al d "ucast u"]
      by (simp add: cbb_add_utf8_def utf8_def word_le_nat_alt)
  next
    case 2
    then have "unat (drop_bit 6 u) < 32" by (simp add: d div_less_iff_less_mult)
    with 2 assms two [of al d "of_nat (192 + ?n div 64)" "of_nat (128 + ?n mod 64)"] show ?thesis
      by (simp add: cbb_add_utf8_def utf8_def word_le_nat_alt lead_bits cont_bits d del: of_nat_add One_nat_def)
  next
    case 3
    then have "unat (drop_bit 12 u) < 16" by (simp add: d div_less_iff_less_mult)
    with 3 assms three [of al d "of_nat (224 + ?n div 4096)" "of_nat (128 + ?n div 64 mod 64)" "of_nat (128 + ?n mod 64)"] show ?thesis
      by (simp add: cbb_add_utf8_def utf8_def word_le_nat_alt lead_bits cont_bits d del: of_nat_add One_nat_def)
  next
    case 4
    with b have "unat (drop_bit 18 u) < 8" by (simp add: d div_less_iff_less_mult)
    with 4 b assms four [of al d "of_nat (240 + ?n div 262144)" "of_nat (128 + ?n div 4096 mod 64)" "of_nat (128 + ?n div 64 mod 64)" "of_nat (128 + ?n mod 64)"]
    show ?thesis
      by (simp add: cbb_add_utf8_def utf8_def word_le_nat_alt lead_bits cont_bits d del: of_nat_add One_nat_def)
  qed
qed

section \<open>Properties\<close>

text \<open>C21: \<^verbatim>\<open>cbs_get_utf8\<close> accepts exactly the shortest UTF-8 form of every valid code point (no
  surrogates, no noncharacters, nothing above 0x10ffff, no overlong forms) and leaves the bytes
  behind it.\<close>

theorem utf8_reader_exact:
  "cbs_get_utf8 s = Some (u, r) \<longleftrightarrow> is_valid_code_point u \<and> s = utf8 (unat u) @ r"
  by (rule utf8_codec.dec_iff)

text \<open>What \<^verbatim>\<open>cbb_add_utf8\<close> appends for a sequence of valid code points, \<^verbatim>\<open>cbs_get_utf8\<close> reads back one
  by one; an invalid code point is refused and changes nothing. The number of bytes is the one
  \<^verbatim>\<open>cbb_get_utf8_len\<close> announces.\<close>

lemma utf8_writer_roundtrip:
  "if is_valid_code_point u
   then emits al d (\<lambda>st. cbb_add_utf8 al d st u) (utf8 (unat u)) \<and>
        cbs_get_utf8 (utf8 (unat u) @ r) = Some (u, r) \<and> length (utf8 (unat u)) = cbb_get_utf8_len u
   else cbb_add_utf8 al d st u = (False, st)"
proof (cases "is_valid_code_point u")
  case True
  moreover have "length (utf8 (unat u)) = cbb_get_utf8_len u"
    by (simp add: utf8_def cbb_get_utf8_len_def word_le_nat_alt)
  ultimately show ?thesis using emits_add_utf8 get_utf8_complete by simp
qed (simp add: cbb_add_utf8_def)

end
