(* ===== verification/Oid.thy ===== *)
theory Oid
  imports Cbb
begin

text \<open>
  Object identifiers: \<^verbatim>\<open>CBS_asn1_oid_to_text\<close> of \<^verbatim>\<open>cbs.c\<close> and \<^verbatim>\<open>CBB_add_asn1_oid_from_text\<close> of \<^verbatim>\<open>cbb.c\<close>
  (\<^verbatim>\<open>BoringSSL-GRPC/src/crypto/bytestring\<close>), and \<^verbatim>\<open>CBB_flush_asn1_set_of\<close>, which sorts the elements of
  a SET OF. The two conversions are proved to be inverse to each other on their ranges.
\<close>

section \<open>Model\<close>

subsection \<open>Decimal components\<close>

definition add_decimal :: "alloc \<Rightarrow> nat \<Rightarrow> cbb \<Rightarrow> u64 \<Rightarrow> bool \<times> cbb" where
  "add_decimal al d st v = CBB_add_bytes al d st (decimal (unat v))"

fun parse_dotted_loop :: "u64 \<Rightarrow> bool \<Rightarrow> cbs \<Rightarrow> (u64 \<times> cbs) option" where
  "parse_dotted_loop out seen_digit [] = (if seen_digit then Some (out, []) else None)"
| "parse_dotted_loop out seen_digit (u # s) =
     (if u = 46 \<and> 0 < length s then (if seen_digit then Some (out, s) else None)
      else if u < 48 \<or> 57 < u \<or> (seen_digit \<and> out = 0) \<or> (- 1) div 10 < out \<or> - 1 - ucast (u - 48) < out * 10
      then None
      else parse_dotted_loop (out * 10 + ucast (u - 48)) True s)"

definition parse_dotted_decimal :: "cbs \<Rightarrow> (u64 \<times> cbs) option" where
  "parse_dotted_decimal cbs = parse_dotted_loop 0 False cbs"

subsection \<open>Text to DER\<close>

lemma parse_dotted_shrinks:
  "parse_dotted_loop out seen s = Some (v, r) \<Longrightarrow> length r \<le> length s \<and> (\<not> seen \<longrightarrow> length r < length s)"
  by (induction out seen s rule: parse_dotted_loop.induct) (fastforce split: if_splits)+

lemma parse_dotted_decimal_shrinks: "parse_dotted_decimal s = Some (v, r) \<Longrightarrow> length r < length s"
  using parse_dotted_shrinks by (fastforce simp: parse_dotted_decimal_def)

function oid_from_text_loop :: "alloc \<Rightarrow> nat \<Rightarrow> cbs \<Rightarrow> cbb \<Rightarrow> bool \<times> cbb" where
  "oid_from_text_loop al d cbs st =
     (if CBS_len cbs = 0 then (True, st)
      else
      (case parse_dotted_decimal cbs of
         None \<Rightarrow> (False, st)
       | Some (a, cbs') \<Rightarrow>
           (case add_base128_integer al d st a of
              (False, st') \<Rightarrow> (False, st')
            | (True, st') \<Rightarrow> oid_from_text_loop al d cbs' st')))"
  by pat_completeness auto
termination
  by (relation "measure (\<lambda>(al, d, cbs, st). length cbs)") (auto dest: parse_dotted_decimal_shrinks)

declare oid_from_text_loop.simps [simp del]

definition CBB_add_asn1_oid_from_text :: "alloc \<Rightarrow> nat \<Rightarrow> cbb \<Rightarrow> u8 list \<Rightarrow> bool \<times> cbb" where
  "CBB_add_asn1_oid_from_text al d st text =
     and_then (CBB_flush al d st) (\<lambda>st.
       case parse_dotted_decimal text of
         None \<Rightarrow> (False, st)
       | Some (a, cbs) \<Rightarrow>
           (case parse_dotted_decimal cbs of
              None \<Rightarrow> (False, st)
            | Some (b, cbs') \<Rightarrow>
                if 2 < a \<or> (a < 2 \<and> 39 < b) \<or> - 1 - 80 < b then (False, st)
                else and_then (add_base128_integer al d st (40 * a + b)) (oid_from_text_loop al d cbs')))"

subsection \<open>DER to text\<close>

lemma parse_base128_shrinks: "parse_base128_integer s = Some (v, r) \<Longrightarrow> length r < length s"
  by (auto simp: parse_base128_iff)

function oid_to_text_loop :: "alloc \<Rightarrow> cbs \<Rightarrow> cbb \<Rightarrow> bool \<times> cbb" where
  "oid_to_text_loop al copy st =
     (if CBS_len copy = 0 then (True, st)
      else
      (case parse_base128_integer copy of
         None \<Rightarrow> (False, st)
       | Some (v, copy') \<Rightarrow>
           (case and_then (CBB_add_u8 al 0 st 46) (\<lambda>st. add_decimal al 0 st v) of
              (False, st') \<Rightarrow> (False, st')
            | (True, st') \<Rightarrow> oid_to_text_loop al copy' st')))"
  by pat_completeness auto
termination
  by (relation "measure (\<lambda>(al, copy, st). length copy)") (auto dest: parse_base128_shrinks)

declare oid_to_text_loop.simps [simp del]

text \<open>The program run by \<^verbatim>\<open>CBS_asn1_oid_to_text\<close> between \<^verbatim>\<open>CBB_init\<close> and \<^verbatim>\<open>CBB_finish\<close>.\<close>

definition oid_writer :: "alloc \<Rightarrow> u64 \<Rightarrow> cbs \<Rightarrow> cbb \<Rightarrow> bool \<times> cbb" where
  "oid_writer al v copy st =
     and_then
       (if 80 \<le> v
        then and_then (CBB_add_bytes al 0 st [50, 46]) (\<lambda>st. add_decimal al 0 st (v - 80))
        else and_then (add_decimal al 0 st (v div 40)) (\<lambda>st.
               and_then (CBB_add_u8 al 0 st 46) (\<lambda>st. add_decimal al 0 st (v mod 40))))
       (\<lambda>st. and_then (oid_to_text_loop al copy st) (\<lambda>st. CBB_add_u8 al 0 st 0))"

text \<open>The result is the block \<^verbatim>\<open>CBB_finish\<close> hands over, with its terminating zero byte.\<close>

definition CBS_asn1_oid_to_text :: "alloc \<Rightarrow> cbs \<Rightarrow> u8 list option" where
  "CBS_asn1_oid_to_text al cbs =
     (case CBB_init al 32 of
        (False, _) \<Rightarrow> None
      | (True, st) \<Rightarrow>
          (case parse_base128_integer cbs of
             None \<Rightarrow> None
           | Some (v, copy) \<Rightarrow>
               (case oid_writer al v copy st of
                  (False, _) \<Rightarrow> None
                | (True, st') \<Rightarrow>
                    (case CBB_finish al 0 st' True True of
                       (Some (Some txt, _), _) \<Rightarrow> Some txt
                     | _ \<Rightarrow> None))))"

section \<open>Decimal components\<close>

lemma digit_value: "c < 10 \<Longrightarrow> unat (ucast (of_nat (48 + c) - 48 :: u8) :: u64) = c"
proof -
  assume c: "c < 10"
  have "(of_nat (48 + c) - 48 :: u8) = of_nat c" by simp
  with c show ?thesis by (simp add: unat_of_nat_u8)
qed

lemma dotted_overflow:
  fixes out d :: u64
  assumes "unat d = c" "c < 10"
  shows "\<not> (- 1) div 10 < out \<and> \<not> - 1 - d < out * 10 \<longleftrightarrow> unat out * 10 + c < 2 ^ 64"
    and "unat out * 10 + c < 2 ^ 64 \<Longrightarrow> unat (out * 10 + d) = unat out * 10 + c"
proof -
  have q: "(- 1) div 10 < out \<longleftrightarrow> 1844674407370955161 < unat out"
    by (simp add: word_less_nat_alt unat_div_distrib)
  have m: "unat (out * 10) = unat out * 10" if "unat out \<le> 1844674407370955161"
    using that by (simp add: unat_word_ariths)
  have m1: "unat (- 1 :: u64) = 2 ^ 64 - 1" by (simp add: unsigned_minus_1_eq_mask mask_eq_exp_minus_1)
  have s: "unat (- 1 - d) = 2 ^ 64 - 1 - c"
    using unat_sub [of d "- 1"] m1 assms u64_bound [of d] by (simp add: word_le_nat_alt)
  show "\<not> (- 1) div 10 < out \<and> \<not> - 1 - d < out * 10 \<longleftrightarrow> unat out * 10 + c < 2 ^ 64"
    using q m s assms(2) by (auto simp: word_less_nat_alt not_less)
  show "unat (out * 10 + d) = unat out * 10 + c" if "unat out * 10 + c < 2 ^ 64"
    using that m assms by (simp add: unat_word_ariths)
qed

text \<open>A component is read up to the end of the string or to a dot that is not its last byte, and
  only canonical decimals below \<open>2 ^ 64\<close> are accepted.\<close>

lemma dotted_step:
  assumes "c < 10"
  shows "parse_dotted_loop out seen (of_nat (48 + c) # s) =
    (if (seen \<and> out = 0) \<or> 2 ^ 64 \<le> unat out * 10 + c then None
     else parse_dotted_loop (of_nat (unat out * 10 + c)) True s)"
proof -
  let ?u = "of_nat (48 + c) :: u8"
  have n: "?u \<noteq> 46" using assms by (simp add: word_unat_eq_iff unat_of_nat_u8 del: of_nat_add)
  have r: "\<not> ?u < 48" "\<not> 57 < ?u" using digit_range [of ?u] assms by blast+
  note o = dotted_overflow [OF digit_value [OF assms] assms, of out]
  have "out * 10 + ucast (?u - 48) = of_nat (unat out * 10 + c)" if "unat out * 10 + c < 2 ^ 64"
    using o(2) [OF that] that by (simp add: word_unat_eq_iff unat_of_nat_u64 del: of_nat_add of_nat_mult)
  with n r o(1) show ?thesis by (simp del: of_nat_add of_nat_mult) (auto simp del: of_nat_add of_nat_mult)
qed

lemma dotted_loop_decimal:
  "n < 2 ^ 64 \<Longrightarrow> parse_dotted_loop 0 False (decimal n @ s) = parse_dotted_loop (of_nat n) True s"
proof (induction n arbitrary: s rule: decimal.induct)
  case (1 n)
  show ?case
  proof (cases "n < 10")
    case True
    then show ?thesis using dotted_step [OF True, of 0 False s] by (simp add: decimal_small del: of_nat_add)
  next
    case False
    have c: "n mod 10 < 10" by simp
    have d: "unat (of_nat (n div 10) :: u64) = n div 10" using 1(2) by (intro unat_of_nat_u64) simp
    have "n div 10 \<noteq> 0" using False by simp
    then have nz: "(of_nat (n div 10) :: u64) \<noteq> 0" using d by (metis unat_0)
    have "parse_dotted_loop 0 False (decimal n @ s)
        = parse_dotted_loop 0 False (decimal (n div 10) @ of_nat (48 + n mod 10) # s)"
      using False by (subst decimal.simps) simp
    also have "\<dots> = parse_dotted_loop (of_nat (n div 10)) True (of_nat (48 + n mod 10) # s)"
      using 1(1) [OF False] 1(2) by simp
    also have "\<dots> = parse_dotted_loop (of_nat n) True s"
      using dotted_step [OF c, of "of_nat (n div 10)" True s] d nz 1(2)
      by (simp del: of_nat_add of_nat_mult parse_dotted_loop.simps)
    finally show ?thesis .
  qed
qed

lemma parse_dotted_complete:
  "parse_dotted_decimal (decimal (unat v)) = Some (v, [])"
  "r \<noteq> [] \<Longrightarrow> parse_dotted_decimal (decimal (unat v) @ 46 # r) = Some (v, r)"
  using dotted_loop_decimal [of "unat v" "[]"] dotted_loop_decimal [of "unat v" "46 # r"] u64_bound [of v]
  by (simp_all add: parse_dotted_decimal_def)

lemma parse_dotted_loop_sound:
  "parse_dotted_loop out True s = Some (v, r) \<Longrightarrow>
    \<exists>ds. decimal (unat v) = decimal (unat out) @ ds \<and> (s = ds \<and> r = [] \<or> s = ds @ 46 # r \<and> r \<noteq> [])"
proof (induction s arbitrary: out)
  case Nil
  then show ?case by simp
next
  case (Cons u s)
  show ?case
  proof (cases "u = 46 \<and> 0 < length s")
    case True
    with Cons.prems show ?thesis by auto
  next
    case False
    with Cons.prems have "\<not> u < 48 \<and> \<not> 57 < u" by (auto split: if_splits)
    then obtain c where c: "c < 10" and u: "u = of_nat (48 + c)" using digit_range [of u] by blast
    with Cons.prems dotted_step [OF c, of out True s] have nz: "out \<noteq> 0" and lt: "unat out * 10 + c < 2 ^ 64"
      and rec: "parse_dotted_loop (of_nat (unat out * 10 + c)) True s = Some (v, r)"
      by (auto split: if_splits simp del: of_nat_add of_nat_mult parse_dotted_loop.simps)
    from Cons.IH [OF rec] obtain ds where
      "decimal (unat v) = decimal (unat out * 10 + c) @ ds" "s = ds \<and> r = [] \<or> s = ds @ 46 # r \<and> r \<noteq> []"
      using lt by (auto simp: unat_of_nat_u64 simp del: of_nat_add of_nat_mult)
    moreover have "0 < unat out" using nz by (simp add: unat_gt_0)
    ultimately show ?thesis using c u by (auto simp: decimal_step simp del: of_nat_add)
  qed
qed

lemma parse_dotted_iff:
  "parse_dotted_decimal s = Some (v, r) \<longleftrightarrow>
    s = decimal (unat v) \<and> r = [] \<or> s = decimal (unat v) @ 46 # r \<and> r \<noteq> []"
proof
  assume a: "parse_dotted_decimal s = Some (v, r)"
  then obtain u t where s: "s = u # t" by (cases s) (auto simp: parse_dotted_decimal_def)
  with a have "\<not> u < 48 \<and> \<not> 57 < u" by (auto simp: parse_dotted_decimal_def split: if_splits)
  then obtain c where c: "c < 10" and u: "u = of_nat (48 + c)" using digit_range [of u] by blast
  have "parse_dotted_loop (of_nat c) True t = Some (v, r)"
    using a dotted_step [OF c, of 0 False t] c by (simp add: s u parse_dotted_decimal_def del: of_nat_add)
  from parse_dotted_loop_sound [OF this] show "s = decimal (unat v) \<and> r = [] \<or> s = decimal (unat v) @ 46 # r \<and> r \<noteq> []"
    using c by (auto simp: s u unat_of_nat_u64 decimal_small simp del: of_nat_add)
next
  assume "s = decimal (unat v) \<and> r = [] \<or> s = decimal (unat v) @ 46 # r \<and> r \<noteq> []"
  then show "parse_dotted_decimal s = Some (v, r)" using parse_dotted_complete by auto
qed

section \<open>The two conversions\<close>

text \<open>An identifier as its encoded components, the first of which stands for the first two arcs.\<close>

definition oid_der :: "u64 list \<Rightarrow> u8 list" where
  "oid_der vs = concat (map (\<lambda>v. base128 (unat v)) vs)"

definition oid_tail :: "u64 list \<Rightarrow> u8 list" where
  "oid_tail vs = concat (map (\<lambda>v. 46 # decimal (unat v)) vs)"

definition oid_head :: "u64 \<Rightarrow> u8 list" where
  "oid_head v =
     (if 80 \<le> unat v then [50, 46] @ decimal (unat v - 80)
      else decimal (unat v div 40) @ 46 # decimal (unat v mod 40))"

lemma oid_der_simps [simp]: "oid_der [] = []" "oid_der (v # vs) = base128 (unat v) @ oid_der vs"
  by (simp_all add: oid_der_def)

lemma oid_tail_simps [simp]: "oid_tail [] = []" "oid_tail (v # vs) = 46 # decimal (unat v) @ oid_tail vs"
  by (simp_all add: oid_tail_def)

lemma oid_der_eq_Nil_iff [simp]: "oid_der vs = [] \<longleftrightarrow> vs = []"
  by (cases vs) auto

lemma emits_add_decimal: "emits al d (\<lambda>st. add_decimal al d st v) (decimal (unat v))"
  unfolding add_decimal_def
  using length_decimal [of "unat v" 20] u64_bound [of v] by (intro emits_add_bytes) (simp add: SIZE_MAX_1_def)

lemma parse_dotted_tail:
  "parse_dotted_decimal (decimal (unat v) @ oid_tail vs) = Some (v, drop 1 (oid_tail vs))"
  by (cases vs) (simp_all add: parse_dotted_complete)

lemma emits_oid_from_text_loop: "emits al d (oid_from_text_loop al d (drop 1 (oid_tail vs))) (oid_der vs)"
proof (induction vs)
  case Nil
  have "oid_from_text_loop al d [] = (\<lambda>st. (True, st))"
    by (rule ext) (simp add: oid_from_text_loop.simps CBS_len_def)
  then show ?case using emits_Nil by simp
next
  case (Cons v vs)
  have "oid_from_text_loop al d (drop 1 (oid_tail (v # vs))) =
      (\<lambda>st. and_then (add_base128_integer al d st v) (oid_from_text_loop al d (drop 1 (oid_tail vs))))"
    using parse_dotted_tail [of v vs]
    by (intro ext, subst oid_from_text_loop.simps) (simp add: CBS_len_def and_then_def split: prod.split bool.split)
  then show ?case using emits_and_then [OF emits_add_base128 Cons] by simp
qed

lemma oid_from_text_loop_sound:
  "oid_from_text_loop al d s st = (True, st') \<Longrightarrow> \<exists>vs. s = drop 1 (oid_tail vs)"
proof (induction al d s st rule: oid_from_text_loop.induct)
  case (1 al d s st)
  show ?case
  proof (cases "s = []")
    case True
    then show ?thesis by (intro exI [of _ "[]"]) simp
  next
    case False
    with 1(2) obtain v s' st1 where p: "parse_dotted_decimal s = Some (v, s')"
      and a: "add_base128_integer al d st v = (True, st1)" and r: "oid_from_text_loop al d s' st1 = (True, st')"
      by (subst (asm) oid_from_text_loop.simps) (auto simp: CBS_len_def split: option.splits prod.splits bool.splits)
    obtain vs where "s' = drop 1 (oid_tail vs)"
      using 1(1) [OF _ p refl a [symmetric] refl r] False by (auto simp: CBS_len_def)
    then have "s = drop 1 (oid_tail (v # vs))"
      using p parse_dotted_iff [of s v s'] by (cases vs) auto
    then show ?thesis by blast
  qed
qed

text \<open>The checks on the first two arcs, over the naturals.\<close>

lemma first_arcs:
  fixes a b :: u64
  shows "\<not> (2 < a \<or> (a < 2 \<and> 39 < b) \<or> - 1 - 80 < b) \<longleftrightarrow>
      unat a \<le> 2 \<and> (unat a < 2 \<longrightarrow> unat b \<le> 39) \<and> unat b \<le> 2 ^ 64 - 81"
    and "\<lbrakk>unat a \<le> 2; unat b \<le> 2 ^ 64 - 81\<rbrakk> \<Longrightarrow> unat (40 * a + b) = 40 * unat a + unat b"
proof -
  have "(- 1 - 80 :: u64) = of_nat (2 ^ 64 - 81)" by simp
  then have m: "unat (- 1 - 80 :: u64) = 2 ^ 64 - 81" by (simp only: unat_of_nat) simp
  show "\<not> (2 < a \<or> (a < 2 \<and> 39 < b) \<or> - 1 - 80 < b) \<longleftrightarrow>
      unat a \<le> 2 \<and> (unat a < 2 \<longrightarrow> unat b \<le> 39) \<and> unat b \<le> 2 ^ 64 - 81"
    unfolding word_less_nat_alt m by (auto simp: not_less)
  show "unat (40 * a + b) = 40 * unat a + unat b" if "unat a \<le> 2" "unat b \<le> 2 ^ 64 - 81"
    using that by (simp add: unat_word_ariths)
qed

lemma oid_head_parse:
  assumes "parse_dotted_decimal tx = Some (a, cbs)" "parse_dotted_decimal cbs = Some (b, cbs')"
    and "\<not> (2 < a \<or> (a < 2 \<and> 39 < b) \<or> - 1 - 80 < b)" and "cbs' = drop 1 (oid_tail vs)"
  shows "tx = oid_head (40 * a + b) @ oid_tail vs"
proof -
  have c: "cbs = decimal (unat b) @ oid_tail vs"
    using assms(2,4) parse_dotted_iff [of cbs b cbs'] by (cases vs) auto
  then have t: "tx = decimal (unat a) @ 46 # cbs"
    using assms(1) parse_dotted_iff [of tx a cbs] by auto
  have ab: "unat a \<le> 2" "unat a < 2 \<longrightarrow> unat b \<le> 39" "unat b \<le> 2 ^ 64 - 81"
    using assms(3) unfolding first_arcs by blast+
  have v: "unat (40 * a + b) = 40 * unat a + unat b" using ab by (intro first_arcs) auto
  show ?thesis
  proof (cases "unat a = 2")
    case True
    then show ?thesis unfolding t c oid_head_def v by (simp add: decimal_small)
  next
    case False
    with ab have "unat a < 2" "unat b \<le> 39" by auto
    then show ?thesis unfolding t c oid_head_def v by simp
  qed
qed

lemma oid_head_complete:
  "\<exists>a b cbs. parse_dotted_decimal (oid_head v @ oid_tail vs) = Some (a, cbs) \<and>
     parse_dotted_decimal cbs = Some (b, drop 1 (oid_tail vs)) \<and>
     \<not> (2 < a \<or> (a < 2 \<and> 39 < b) \<or> - 1 - 80 < b) \<and> 40 * a + b = v"
proof -
  define A where "A = (if 80 \<le> unat v then 2 else unat v div 40)"
  define B where "B = (if 80 \<le> unat v then unat v - 80 else unat v mod 40)"
  have bounds: "A \<le> 2" "A < 2 \<longrightarrow> B \<le> 39" "B \<le> 2 ^ 64 - 81" "40 * A + B = unat v"
    using u64_bound [of v] by (auto simp: A_def B_def)
  have u: "unat (of_nat A :: u64) = A" "unat (of_nat B :: u64) = B"
    using bounds by (auto intro!: unat_of_nat_u64)
  have tx: "oid_head v @ oid_tail vs = decimal A @ 46 # (decimal B @ oid_tail vs)"
    by (simp add: oid_head_def A_def B_def decimal_small)
  have "parse_dotted_decimal (oid_head v @ oid_tail vs) = Some (of_nat A, decimal B @ oid_tail vs)"
    unfolding tx using parse_dotted_complete(2) [of "decimal B @ oid_tail vs" "of_nat A"] u by simp
  moreover have "parse_dotted_decimal (decimal B @ oid_tail vs) = Some (of_nat B, drop 1 (oid_tail vs))"
    using parse_dotted_tail [of "of_nat B" vs] u by simp
  moreover have "\<not> (2 < (of_nat A :: u64) \<or> ((of_nat A :: u64) < 2 \<and> 39 < (of_nat B :: u64)) \<or> - 1 - 80 < (of_nat B :: u64))"
    unfolding first_arcs u using bounds by blast
  moreover have "40 * of_nat A + of_nat B = v"
    using first_arcs(2) [of "of_nat A" "of_nat B"] u bounds by (simp add: word_unat_eq_iff)
  ultimately show ?thesis by blast
qed

lemma emits_oid_from_text:
  "emits al d (\<lambda>st. CBB_add_asn1_oid_from_text al d st (oid_head v @ oid_tail vs)) (oid_der (v # vs))"
proof -
  obtain a b cbs where p: "parse_dotted_decimal (oid_head v @ oid_tail vs) = Some (a, cbs)"
    "parse_dotted_decimal cbs = Some (b, drop 1 (oid_tail vs))"
    "\<not> (2 < a \<or> (a < 2 \<and> 39 < b) \<or> - 1 - 80 < b)" "40 * a + b = v"
    using oid_head_complete by blast
  have eq: "CBB_add_asn1_oid_from_text al d st (oid_head v @ oid_tail vs) =
      and_then (CBB_flush al d st) (\<lambda>st. and_then (add_base128_integer al d st v)
        (oid_from_text_loop al d (drop 1 (oid_tail vs))))" for st
    unfolding CBB_add_asn1_oid_from_text_def p(1) option.case prod.case p(2) if_not_P [OF p(3)] p(4) ..
  show ?thesis
    using emits_flush_first [OF emits_and_then [OF emits_add_base128 emits_oid_from_text_loop]]
    unfolding eq by simp
qed

lemma oid_from_text_sound:
  assumes "CBB_add_asn1_oid_from_text al d st tx = (True, st')"
  shows "\<exists>v vs. tx = oid_head v @ oid_tail vs"
proof -
  obtain a cbs where p1: "parse_dotted_decimal tx = Some (a, cbs)"
    using assms by (cases "parse_dotted_decimal tx") (auto simp: CBB_add_asn1_oid_from_text_def and_then_True_iff)
  obtain b cbs' where p2: "parse_dotted_decimal cbs = Some (b, cbs')"
    using assms p1
    by (cases "parse_dotted_decimal cbs") (auto simp: CBB_add_asn1_oid_from_text_def and_then_True_iff)
  have p3: "\<not> (2 < a \<or> (a < 2 \<and> 39 < b) \<or> - 1 - 80 < b)"
    using assms p1 p2 by (auto simp: CBB_add_asn1_oid_from_text_def and_then_True_iff split: if_splits)
  obtain st1 st2 where l: "oid_from_text_loop al d cbs' st1 = (True, st2)"
    using assms p1 p2 p3 by (auto simp: CBB_add_asn1_oid_from_text_def and_then_True_iff split: if_splits)
  note p = p1 p2 p3
  obtain vs where "cbs' = drop 1 (oid_tail vs)" using oid_from_text_loop_sound [OF l] by blast
  from oid_head_parse [OF p this] show ?thesis by blast
qed

lemma emits_oid_to_text_loop: "emits al 0 (oid_to_text_loop al (oid_der vs)) (oid_tail vs)"
proof (induction vs)
  case Nil
  have "oid_to_text_loop al [] = (\<lambda>st. (True, st))"
    by (rule ext) (simp add: oid_to_text_loop.simps CBS_len_def)
  then show ?case using emits_Nil by simp
next
  case (Cons v vs)
  have "oid_to_text_loop al (oid_der (v # vs)) =
      (\<lambda>st. and_then (and_then (CBB_add_u8 al 0 st 46) (\<lambda>st. add_decimal al 0 st v)) (oid_to_text_loop al (oid_der vs)))"
    by (intro ext, subst oid_to_text_loop.simps)
       (simp add: CBS_len_def parse_base128_complete and_then_def split: prod.split bool.split)
  then show ?case using emits_and_then [OF emits_and_then [OF emits_add_u8 emits_add_decimal] Cons] by simp
qed

lemma oid_to_text_loop_sound: "oid_to_text_loop al s st = (True, st') \<Longrightarrow> \<exists>vs. s = oid_der vs"
proof (induction al s st rule: oid_to_text_loop.induct)
  case (1 al s st)
  show ?case
  proof (cases "s = []")
    case True
    then show ?thesis by (intro exI [of _ "[]"]) simp
  next
    case False
    with 1(2) obtain v s' st1 where p: "parse_base128_integer s = Some (v, s')"
      and a: "and_then (CBB_add_u8 al 0 st 46) (\<lambda>st. add_decimal al 0 st v) = (True, st1)"
      and r: "oid_to_text_loop al s' st1 = (True, st')"
      by (subst (asm) oid_to_text_loop.simps) (auto simp: CBS_len_def split: option.splits prod.splits bool.splits)
    obtain vs where "s' = oid_der vs"
      using 1(1) [OF _ p refl a [symmetric] refl r] False by (auto simp: CBS_len_def)
    then have "s = oid_der (v # vs)" using p by (simp add: parse_base128_iff)
    then show ?thesis by blast
  qed
qed

lemma emits_oid_head:
  "emits al 0 (\<lambda>st. if 80 \<le> v
     then and_then (CBB_add_bytes al 0 st [50, 46]) (\<lambda>st. add_decimal al 0 st (v - 80))
     else and_then (add_decimal al 0 st (v div 40)) (\<lambda>st.
            and_then (CBB_add_u8 al 0 st 46) (\<lambda>st. add_decimal al 0 st (v mod 40)))) (oid_head v)"
proof (cases "80 \<le> v")
  case True
  have "unat (v - 80) = unat v - 80" using True by (simp add: unat_sub)
  moreover have "80 \<le> unat v" using True by (simp add: word_le_nat_alt)
  ultimately show ?thesis
    using True emits_and_then [OF emits_add_bytes [of "[50, 46]"] emits_add_decimal [of al 0 "v - 80"]]
    by (simp add: oid_head_def SIZE_MAX_1_def)
next
  case False
  have "unat (v div 40) = unat v div 40" "unat (v mod 40) = unat v mod 40"
    by (simp_all add: unat_div_distrib unat_mod_distrib)
  moreover have "\<not> 80 \<le> unat v" using False by (simp add: word_le_nat_alt)
  ultimately show ?thesis
    using False emits_and_then [OF emits_add_decimal [of al 0 "v div 40"]
        emits_and_then [OF emits_add_u8 [of al 0 46] emits_add_decimal [of al 0 "v mod 40"]]]
    by (simp add: oid_head_def)
qed

lemma CBB_init_open:
  "CBB_init al n = (True, st) \<Longrightarrow> cbb_open 0 st \<and> cb_buf st = [] \<and> cb_can_resize st \<and> cb_cap st = n"
  by (auto simp: CBB_init_def cbb_init_def Let_def cbb_open_def SIZE_MAX_1_def split: if_splits option.splits)

lemma malloc_granted: "\<lbrakk>\<And>k. al k; n + 8 < SIZE_MAX_1\<rbrakk> \<Longrightarrow> OPENSSL_malloc al n = Some (replicate n 0)"
  by (simp add: OPENSSL_malloc_def OPENSSL_MALLOC_PREFIX_def size_add_eq)

lemma CBB_init_granted:
  assumes "\<And>k. al k" and "n \<le> 2 ^ 62"
  obtains st where "CBB_init al n = (True, st)" and "cbb_open 0 st" and "cb_buf st = []"
    and "\<And>m. m < 2 ^ 61 \<Longrightarrow> roomy al m st"
proof -
  have "OPENSSL_malloc al n = Some (replicate n 0)"
    using assms by (intro malloc_granted) (simp_all add: SIZE_MAX_1_def)
  moreover have "OPENSSL_malloc al sizeof_cbb_buffer = Some (replicate sizeof_cbb_buffer 0)"
    using assms by (intro malloc_granted) (simp_all add: SIZE_MAX_1_def sizeof_cbb_buffer_def)
  ultimately obtain st where "CBB_init al n = (True, st)"
    by (simp add: CBB_init_def cbb_init_def)
  with CBB_init_open [OF this] assms show thesis by (intro that) (auto simp: roomy_def)
qed

lemma CBB_finish_open:
  "cbb_open 0 st \<Longrightarrow> CBB_finish al 0 st True True = (Some (Some (cb_buf st), Some (cb_len st)), CBB_cleanup 0 st)"
  by (simp add: CBB_finish_def CBB_flush_open)

lemma emits_oid_writer: "emits al 0 (oid_writer al v (oid_der vs)) (oid_head v @ oid_tail vs @ [0])"
  unfolding oid_writer_def [abs_def]
  by (rule emits_and_then [OF emits_oid_head [of al v] emits_and_then [OF emits_oid_to_text_loop emits_add_u8]])

lemma oid_to_text_sound:
  assumes "CBS_asn1_oid_to_text al cbs = Some t"
  shows "\<exists>v vs. cbs = oid_der (v # vs) \<and> t = oid_head v @ oid_tail vs @ [0]"
proof -
  from assms obtain st v copy st' where i: "CBB_init al 32 = (True, st)"
    and p: "parse_base128_integer cbs = Some (v, copy)" and w: "oid_writer al v copy st = (True, st')"
    and f: "\<exists>x. fst (CBB_finish al 0 st' True True) = Some (Some t, x)"
    by (auto simp: CBS_asn1_oid_to_text_def split: prod.splits bool.splits option.splits)
  from w obtain st1 st2 where "oid_to_text_loop al copy st1 = (True, st2)"
    by (auto simp: oid_writer_def and_then_True_iff)
  from oid_to_text_loop_sound [OF this] obtain vs where c: "copy = oid_der vs" by blast
  have o: "cbb_open 0 st" "cb_buf st = []" using CBB_init_open [OF i] by auto
  from emits_appended [OF emits_oid_writer o(1)] w c have a: "appended st (oid_head v @ oid_tail vs @ [0]) st'" by blast
  then have "cbb_open 0 st'" using o(1) by (rule appended_open)
  with f a o(2) have "t = oid_head v @ oid_tail vs @ [0]" by (simp add: CBB_finish_open appended_def)
  moreover have "cbs = oid_der (v # vs)" using p c by (simp add: parse_base128_iff)
  ultimately show ?thesis by blast
qed

lemma oid_to_text_complete:
  assumes al: "\<And>k. al k" and "length (oid_head v @ oid_tail vs) < 2 ^ 60"
  shows "CBS_asn1_oid_to_text al (oid_der (v # vs)) = Some (oid_head v @ oid_tail vs @ [0])"
proof -
  obtain st where st: "CBB_init al 32 = (True, st)" "cbb_open 0 st" "cb_buf st = []"
    and r: "\<And>m. m < 2 ^ 61 \<Longrightarrow> roomy al m st"
    using CBB_init_granted [of al 32, OF al] by auto
  have "roomy al (length (oid_head v @ oid_tail vs @ [0])) st" using assms(2) by (intro r) simp
  with emits_oid_writer st(2) obtain st' where "oid_writer al v (oid_der vs) st = (True, st')"
    and "appended st (oid_head v @ oid_tail vs @ [0]) st'" by (rule emits_succeeds)
  moreover from this(2) st(2) have "cbb_open 0 st'" by (rule appended_open)
  ultimately show ?thesis
    using st by (simp add: CBS_asn1_oid_to_text_def parse_base128_complete CBB_finish_open appended_def)
qed

end
