(* ===== verification/Qsort.thy ===== *)
theory Qsort
  imports Prelude "HOL-Library.Multiset"
begin

text \<open>
  The C library's \<^verbatim>\<open>qsort\<close>, used by \<^verbatim>\<open>cbb.c\<close> and \<^verbatim>\<open>stack.c\<close>, as an insertion sort, and the interface of
  a comparison function with what sorting by it gives.
\<close>

fun qsort_insert :: "('a \<Rightarrow> 'a \<Rightarrow> int) \<Rightarrow> 'a \<Rightarrow> 'a list \<Rightarrow> 'a list" where
  "qsort_insert cmp x [] = [x]"
| "qsort_insert cmp x (y # ys) = (if cmp x y \<le> 0 then x # y # ys else y # qsort_insert cmp x ys)"

definition qsort :: "('a \<Rightarrow> 'a \<Rightarrow> int) \<Rightarrow> 'a list \<Rightarrow> 'a list" where
  "qsort cmp xs = foldr (qsort_insert cmp) xs []"

text \<open>What \<^verbatim>\<open>qsort\<close> needs of a comparison function, and what it then gives.\<close>

locale sort_order =
  fixes cmp :: "'a \<Rightarrow> 'a \<Rightarrow> int"
  assumes cmp_total: "cmp x y \<le> 0 \<or> cmp y x \<le> 0"
    and cmp_trans: "\<lbrakk>cmp x y \<le> 0; cmp y z \<le> 0\<rbrakk> \<Longrightarrow> cmp x z \<le> 0"
begin

lemma mset_insert: "mset (qsort_insert cmp x ys) = add_mset x (mset ys)"
  by (induction ys) auto

lemma qsort_perm: "mset (qsort cmp xs) = mset xs"
  by (induction xs) (simp_all add: qsort_def mset_insert)

lemma sorted_insert:
  "sorted_wrt (\<lambda>a b. cmp a b \<le> 0) ys \<Longrightarrow> sorted_wrt (\<lambda>a b. cmp a b \<le> 0) (qsort_insert cmp x ys)"
proof (induction ys)
  case (Cons y ys)
  have set: "set (qsort_insert cmp x ys) = insert x (set ys)"
    using mset_insert [of x ys] by (metis set_mset_add_mset_insert set_mset_mset)
  from Cons show ?case using cmp_total [of x y] set by (auto intro: cmp_trans)
qed simp

lemma qsort_sorted: "sorted_wrt (\<lambda>a b. cmp a b \<le> 0) (qsort cmp xs)"
  by (induction xs) (simp_all add: qsort_def sorted_insert)

end

text \<open>A comparison function whose sign is reversed when its arguments are exchanged.\<close>

locale compare_order = sort_order cmp for cmp :: "'a \<Rightarrow> 'a \<Rightarrow> int" +
  assumes cmp_anti: "cmp x y < 0 \<longleftrightarrow> 0 < cmp y x"
begin

lemma above_trans: "\<lbrakk>0 < cmp p y; cmp x y \<le> 0\<rbrakk> \<Longrightarrow> 0 < cmp p x"
  using cmp_trans [of p x y] by (meson not_le)

lemma below_trans: "\<lbrakk>cmp p x < 0; cmp x y \<le> 0\<rbrakk> \<Longrightarrow> cmp p y < 0"
  using cmp_trans [of x y p] cmp_anti by (meson not_le)

end

end
