(* ===== verification/Set_Of.thy ===== *)
theory Set_Of
  imports Oid Qsort
begin

text \<open>
  \<^verbatim>\<open>CBB_flush_asn1_set_of\<close> and its comparison function \<^verbatim>\<open>compare_set_of_element\<close>
  (\<^verbatim>\<open>BoringSSL-GRPC/src/crypto/bytestring/cbb.c\<close>): the DER elements written to a SET OF are put in
  ascending order of their encodings. The theory closes the model of \<^verbatim>\<open>cbb.c\<close> with the step relation
  of all its public operations and the safety of the buffer under every sequence of calls.
\<close>

section \<open>Model\<close>

text \<open>\<^verbatim>\<open>memcmp\<close> promises the sign of its result.\<close>

fun memcmp :: "u8 list \<Rightarrow> u8 list \<Rightarrow> int" where
  "memcmp (a # as) (b # bs) = (if a = b then memcmp as bs else if a < b then - 1 else 1)"
| "memcmp _ _ = 0"

definition compare_set_of_element :: "cbs \<Rightarrow> cbs \<Rightarrow> int" where
  "compare_set_of_element a b =
     (let a_len = CBS_len a; b_len = CBS_len b; min_len = (if a_len < b_len then a_len else b_len);
          ret = memcmp (take min_len (CBS_data a)) (take min_len (CBS_data b))
      in if ret \<noteq> 0 then ret else if a_len = b_len then 0 else if a_len < b_len then - 1 else 1)"

lemma get_any_element_shrinks: "CBS_get_any_asn1_element s = Some (x, r) \<Longrightarrow> length r < length s"
  by (cases x) (auto simp: CBS_get_any_asn1_element_iff der_element_def der_header_def)

function set_of_count :: "cbs \<Rightarrow> nat option" where
  "set_of_count cbs =
     (if CBS_len cbs = 0 then Some 0
      else
      (case CBS_get_any_asn1_element cbs of
         None \<Rightarrow> None
       | Some (_, cbs') \<Rightarrow> (case set_of_count cbs' of None \<Rightarrow> None | Some n \<Rightarrow> Some (Suc n))))"
  by pat_completeness auto
termination
  by (relation "measure length") (auto dest: get_any_element_shrinks)

declare set_of_count.simps [simp del]

fun set_of_children :: "nat \<Rightarrow> cbs \<Rightarrow> cbs list option" where
  "set_of_children 0 cbs = Some []"
| "set_of_children (Suc n) cbs =
     (case CBS_get_any_asn1_element cbs of
        None \<Rightarrow> None
      | Some ((out, _), cbs') \<Rightarrow>
          (case set_of_children n cbs' of None \<Rightarrow> None | Some es \<Rightarrow> Some (out # es)))"

fun set_of_write :: "alloc \<Rightarrow> nat \<Rightarrow> cbs list \<Rightarrow> cbb \<Rightarrow> bool \<times> cbb" where
  "set_of_write al d [] st = (True, st)"
| "set_of_write al d (e # es) st = and_then (CBB_add_bytes al d st e) (set_of_write al d es)"

text \<open>The size of a \<^verbatim>\<open>CBS\<close> on the 64-bit targets: a pointer and a \<^verbatim>\<open>size_t\<close>.\<close>

definition sizeof_CBS :: nat where
  "sizeof_CBS = 16"

definition CBB_flush_asn1_set_of :: "alloc \<Rightarrow> nat \<Rightarrow> cbb \<Rightarrow> bool \<times> cbb" where
  "CBB_flush_asn1_set_of al d st =
     and_then (CBB_flush al d st) (\<lambda>st.
       case set_of_count (CBB_data d st) of
         None \<Rightarrow> (False, st)
       | Some num_children \<Rightarrow>
           if num_children < 2 then (True, st)
           else if (SIZE_MAX_1 - 1) div sizeof_CBS < num_children then (False, st)
           else
           (case OPENSSL_memdup al (CBB_data d st) of
              None \<Rightarrow> (False, st)
            | Some buf \<Rightarrow>
                if OPENSSL_malloc al (num_children * sizeof_CBS) = None then (False, st)
                else
                (case set_of_children num_children buf of
                   None \<Rightarrow> (False, st)
                 | Some children \<Rightarrow>
                     set_of_write al d (qsort compare_set_of_element children)
                       (let fr = cb_frames st ! d
                        in st\<lparr>cb_buf := take (fr_offset fr + fr_pending_len_len fr) (cb_buf st)\<rparr>))))"

section \<open>Sorting by encoding\<close>

text \<open>The comparison is the lexicographic order of byte strings.\<close>

fun lex_le :: "u8 list \<Rightarrow> u8 list \<Rightarrow> bool" where
  "lex_le [] ys \<longleftrightarrow> True"
| "lex_le (x # xs) [] \<longleftrightarrow> False"
| "lex_le (x # xs) (y # ys) \<longleftrightarrow> x < y \<or> (x = y \<and> lex_le xs ys)"

lemma compare_set_of_Cons:
  "compare_set_of_element (x # xs) (y # ys) =
    (if x = y then compare_set_of_element xs ys else if x < y then - 1 else 1)"
  by (simp add: compare_set_of_element_def CBS_len_def CBS_data_def Let_def)

lemma compare_set_of_lex: "compare_set_of_element a b \<le> 0 \<longleftrightarrow> lex_le a b"
proof (induction a b rule: lex_le.induct)
  case (1 ys)
  show ?case by (simp add: compare_set_of_element_def CBS_len_def CBS_data_def)
next
  case (2 x xs)
  show ?case by (simp add: compare_set_of_element_def CBS_len_def CBS_data_def)
next
  case (3 x xs y ys)
  then show ?case by (simp add: compare_set_of_Cons)
qed

lemma lex_le_total: "lex_le a b \<or> lex_le b a"
  by (induction a b rule: lex_le.induct) auto

lemma lex_le_trans: "\<lbrakk>lex_le a b; lex_le b c\<rbrakk> \<Longrightarrow> lex_le a c"
proof (induction a c arbitrary: b rule: lex_le.induct)
  case (2 x xs)
  then show ?case by (cases b) auto
next
  case (3 x xs y ys)
  then show ?case by (cases b) (auto intro: less_trans)
qed simp

lemma compare_set_of_anti: "compare_set_of_element a b = - compare_set_of_element b a"
proof (induction a b rule: lex_le.induct)
  case (3 x xs y ys)
  then show ?case by (auto simp: compare_set_of_Cons)
qed (simp_all add: compare_set_of_element_def CBS_len_def CBS_data_def)

interpretation set_of_order: compare_order compare_set_of_element
proof
  fix a b c :: cbs
  show "compare_set_of_element a b \<le> 0 \<or> compare_set_of_element b a \<le> 0"
    unfolding compare_set_of_lex by (rule lex_le_total)
  show "\<lbrakk>compare_set_of_element a b \<le> 0; compare_set_of_element b c \<le> 0\<rbrakk> \<Longrightarrow> compare_set_of_element a c \<le> 0"
    unfolding compare_set_of_lex by (rule lex_le_trans)
  show "compare_set_of_element a b < 0 \<longleftrightarrow> 0 < compare_set_of_element b a"
    unfolding compare_set_of_anti [of a b] by simp
qed

section \<open>What the sort leaves in the buffer\<close>

definition single_element :: "u8 list \<Rightarrow> bool" where
  "single_element e \<longleftrightarrow> (\<exists>t body. length body < 2 ^ 32 \<and> e = der_element t body)"

lemma set_of_count_sound:
  "set_of_count s = Some n \<Longrightarrow>
    \<exists>es. set_of_children n s = Some es \<and> s = concat es \<and> length es = n \<and> list_all single_element es"
proof (induction s arbitrary: n rule: set_of_count.induct)
  case (1 s)
  show ?case
  proof (cases "s = []")
    case True
    with 1(2) show ?thesis by (simp add: set_of_count.simps CBS_len_def)
  next
    case False
    with 1(2) obtain out t hl s' m where g: "CBS_get_any_asn1_element s = Some ((out, t, hl), s')"
      and c: "set_of_count s' = Some m" and n: "n = Suc m"
      by (subst (asm) set_of_count.simps) (auto simp: CBS_len_def split: option.splits)
    from 1(1) [OF _ g refl c] False obtain es where
      "set_of_children m s' = Some es" "s' = concat es" "length es = m" "list_all single_element es"
      by (auto simp: CBS_len_def)
    moreover from g have "single_element out" "s = out @ s'"
      by (auto simp: CBS_get_any_asn1_element_iff single_element_def)
    ultimately show ?thesis using g n by (intro exI [of _ "out # es"]) simp
  qed
qed



lemma concat_size: "\<lbrakk>length (concat es) < n; e \<in> set es\<rbrakk> \<Longrightarrow> length e < n"
  by (induction es) auto




lemma keeps_set_of_write:
  "list_all (\<lambda>e. length e < SIZE_MAX_1) es \<Longrightarrow> keeps st (snd (set_of_write al d es st))"
  by (induction es arbitrary: st) (auto intro!: inv_intros)

lemma keeps_rewind:
  assumes "length (cb_frames st) = Suc d"
  shows "keeps st (let fr = cb_frames st ! d
    in st\<lparr>cb_buf := take (fr_offset fr + fr_pending_len_len fr) (cb_buf st)\<rparr>)"
  using frames_ok_end [of 0 "cb_frames st" "cb_len st" d] assms
  by (auto simp: keeps_def cbb_inv_def chain_ok_def Let_def min_def)

lemma keeps_flush_asn1_set_of [inv_intros]: "keeps st (snd (CBB_flush_asn1_set_of al d st))"
proof (rule keepsI)
  assume i: "cbb_inv st"
  show "keeps st (snd (CBB_flush_asn1_set_of al d st))"
    unfolding CBB_flush_asn1_set_of_def
  proof (rule keeps_and_then, rule keeps_flush)
    fix s assume f: "CBB_flush al d st = (True, s)"
    have inner: "length (cb_frames s) = Suc d" using f i by (rule CBB_flush_innermost)
    have "cbb_inv s" using CBB_flush_cases [OF f i] i by (simp add: keeps_def)
    then have len: "length (CBB_data d s) < SIZE_MAX_1"
      by (auto simp: CBB_data_def cbb_inv_def Let_def)
    have wr: "keeps s (snd (set_of_write al d (qsort compare_set_of_element es)
        (let fr = cb_frames s ! d in s\<lparr>cb_buf := take (fr_offset fr + fr_pending_len_len fr) (cb_buf s)\<rparr>)))"
      if n: "set_of_count (CBB_data d s) = Some n" and e: "set_of_children n (CBB_data d s) = Some es" for n es
    proof (rule keeps_trans [OF keeps_rewind [OF inner] keeps_set_of_write])
      have "CBB_data d s = concat es" using set_of_count_sound [OF n] e by auto
      moreover have "set (qsort compare_set_of_element es) = set es"
        using set_of_order.qsort_perm [of es] by (metis set_mset_mset)
      ultimately show "list_all (\<lambda>e. length e < SIZE_MAX_1) (qsort compare_set_of_element es)"
        using len by (auto simp: list_all_iff intro: concat_size)
    qed
    have md: "OPENSSL_memdup al (CBB_data d s) = Some buf \<Longrightarrow> buf = CBB_data d s" for buf
      by (auto simp: OPENSSL_memdup_def split: if_splits option.splits)
    show "keeps s (snd (case set_of_count (CBB_data d s) of
         None \<Rightarrow> (False, s)
       | Some num_children \<Rightarrow>
           if num_children < 2 then (True, s)
           else if (SIZE_MAX_1 - 1) div sizeof_CBS < num_children then (False, s)
           else
           (case OPENSSL_memdup al (CBB_data d s) of
              None \<Rightarrow> (False, s)
            | Some buf \<Rightarrow>
                if OPENSSL_malloc al (num_children * sizeof_CBS) = None then (False, s)
                else
                (case set_of_children num_children buf of
                   None \<Rightarrow> (False, s)
                 | Some children \<Rightarrow>
                     set_of_write al d (qsort compare_set_of_element children)
                       (let fr = cb_frames s ! d
                        in s\<lparr>cb_buf := take (fr_offset fr + fr_pending_len_len fr) (cb_buf s)\<rparr>)))))"
      using wr md by (auto split: option.split)
  qed
qed




section \<open>Every sequence of calls\<close>

lemma keeps_oid_from_text [inv_intros]: "keeps st (snd (CBB_add_asn1_oid_from_text al d st s))"
proof -
  have "keeps st (snd (oid_from_text_loop al d s st))" for s st
  proof (induction al d s st rule: oid_from_text_loop.induct)
    case (1 al d s st)
    show ?case
    proof (cases "CBS_len s = 0 \<or> parse_dotted_decimal s = None")
      case True
      then show ?thesis by (subst oid_from_text_loop.simps) auto
    next
      case False
      then obtain v s' where p: "parse_dotted_decimal s = Some (v, s')" by auto
      obtain ok st1 where a: "add_base128_integer al d st v = (ok, st1)" by fastforce
      have k: "keeps st st1" using add_base128_keeps [of st al d v] a by simp
      have "oid_from_text_loop al d s st = (if ok then oid_from_text_loop al d s' st1 else (False, st1))"
        using False p a by (subst oid_from_text_loop.simps) (simp split: bool.split)
      with k show ?thesis using 1(1) [OF _ p refl a [symmetric]] False by (auto intro: keeps_trans)
    qed
  qed
  then show ?thesis
    unfolding CBB_add_asn1_oid_from_text_def
    by (intro keeps_and_then keeps_flush) (auto split: option.split intro!: inv_intros)
qed

text \<open>One call on an object that shares the buffer; sizes are \<^verbatim>\<open>size_t\<close> values.\<close>

inductive cbb_step :: "alloc \<Rightarrow> cbb \<Rightarrow> cbb \<Rightarrow> bool" for al where
  flush: "cbb_step al st (snd (CBB_flush al d st))"
| finish: "cbb_step al st (snd (CBB_finish al d st out_data out_len))"
| cleanup: "cbb_step al st (CBB_cleanup d st)"
| discard_child: "cbb_step al st (CBB_discard_child d st)"
| add_bytes: "length data < SIZE_MAX_1 \<Longrightarrow> cbb_step al st (snd (CBB_add_bytes al d st data))"
| add_space: "n < SIZE_MAX_1 \<Longrightarrow> cbb_step al st (snd (CBB_add_space al d st n))"
| add_zeros: "n < SIZE_MAX_1 \<Longrightarrow> cbb_step al st (snd (CBB_add_zeros al d st n))"
| reserve: "n < SIZE_MAX_1 \<Longrightarrow> cbb_step al st (snd (CBB_reserve al d st n))"
| did_write: "length data < SIZE_MAX_1 \<Longrightarrow> cbb_step al st (snd (CBB_did_write d st data))"
| add_u8: "cbb_step al st (snd (CBB_add_u8 al d st b))"
| add_u16: "cbb_step al st (snd (CBB_add_u16 al d st w))"
| add_u16le: "cbb_step al st (snd (CBB_add_u16le al d st w))"
| add_u24: "cbb_step al st (snd (CBB_add_u24 al d st x))"
| add_u32: "cbb_step al st (snd (CBB_add_u32 al d st x))"
| add_u32le: "cbb_step al st (snd (CBB_add_u32le al d st x))"
| add_u64: "cbb_step al st (snd (CBB_add_u64 al d st v))"
| add_u64le: "cbb_step al st (snd (CBB_add_u64le al d st v))"
| u8_prefixed: "cbb_step al st (snd (CBB_add_u8_length_prefixed al d st))"
| u16_prefixed: "cbb_step al st (snd (CBB_add_u16_length_prefixed al d st))"
| u24_prefixed: "cbb_step al st (snd (CBB_add_u24_length_prefixed al d st))"
| add_asn1: "cbb_step al st (snd (CBB_add_asn1 al d st tag))"
| add_uint64: "cbb_step al st (snd (CBB_add_asn1_uint64 al d st v))"
| add_int64: "cbb_step al st (snd (CBB_add_asn1_int64 al d st v))"
| add_octet_string: "length data < SIZE_MAX_1 \<Longrightarrow> cbb_step al st (snd (CBB_add_asn1_octet_string al d st data))"
| add_bool: "cbb_step al st (snd (CBB_add_asn1_bool al d st i))"
| oid_from_text: "cbb_step al st (snd (CBB_add_asn1_oid_from_text al d st s))"
| set_of: "cbb_step al st (snd (CBB_flush_asn1_set_of al d st))"

inductive cbb_reaches :: "alloc \<Rightarrow> cbb \<Rightarrow> cbb \<Rightarrow> bool" for al st where
  start: "cbb_reaches al st st"
| call: "\<lbrakk>cbb_reaches al st st'; cbb_step al st' st''\<rbrakk> \<Longrightarrow> cbb_reaches al st st''"

lemma cbb_step_keeps: "cbb_step al st st' \<Longrightarrow> keeps st st'"
  by (induction rule: cbb_step.induct)
     (auto intro!: inv_intros simp: CBB_add_u8_length_prefixed_def CBB_add_u16_length_prefixed_def
        CBB_add_u24_length_prefixed_def)

lemma cbb_reaches_keeps: "cbb_reaches al st st' \<Longrightarrow> keeps st st'"
  by (induction rule: cbb_reaches.induct) (auto intro: keeps_trans cbb_step_keeps)

lemma CBB_init_inv: "\<lbrakk>CBB_init al n = (True, st); n < SIZE_MAX_1\<rbrakk> \<Longrightarrow> cbb_inv st"
  by (auto simp: CBB_init_def cbb_init_def Let_def cbb_inv_def chain_ok_def top_frame_def split: if_splits option.splits)

lemma CBB_init_fixed_inv:
  "\<lbrakk>CBB_init_fixed al n = (True, st); n < SIZE_MAX_1\<rbrakk> \<Longrightarrow> cbb_inv st \<and> \<not> cb_can_resize st \<and> cb_cap st = n"
  by (auto simp: CBB_init_fixed_def cbb_init_def Let_def cbb_inv_def chain_ok_def top_frame_def and_then_def
      split: if_splits option.splits)

section \<open>Properties\<close>

text \<open>C3: However the public operations of \<^verbatim>\<open>cbb.c\<close> are called after \<^verbatim>\<open>CBB_init_fixed\<close>, on any of the
  objects and in any order, whether they succeed or fail, the buffer never holds more than the
  bytes it was given, and the open children stay inside what was written.\<close>

theorem cbb_fixed_never_overflows:
  assumes "CBB_init_fixed al n = (True, st)" and "n < SIZE_MAX_1" and "cbb_reaches al st st'"
  shows "cb_len st' \<le> n \<and> cb_cap st' = n \<and> chain_ok (cb_frames st') (cb_len st')"
  using CBB_init_fixed_inv [OF assms(1,2)] cbb_reaches_keeps [OF assms(3)]
  by (auto simp: keeps_def cbb_inv_def)

theorem cbb_fixed_never_overflows_witness:
  "cb_len (snd (CBB_add_u16 (\<lambda>_. True) 0 (snd (CBB_init_fixed (\<lambda>_. True) 1)) 7)) \<le> 1"
proof -
  let ?al = "\<lambda>_. True" and ?st = "snd (CBB_init_fixed (\<lambda>_. True) 1)"
  have "CBB_init_fixed ?al 1 = (True, ?st)"
    by (simp add: CBB_init_fixed_def cbb_init_def OPENSSL_malloc_def OPENSSL_MALLOC_PREFIX_def
        sizeof_cbb_buffer_def size_add_def SIZE_MAX_1_def)
  moreover have "cbb_reaches ?al ?st (snd (CBB_add_u16 ?al 0 ?st 7))"
    by (rule cbb_reaches.call [OF cbb_reaches.start]) (rule cbb_step.add_u16)
  ultimately show ?thesis using cbb_fixed_never_overflows [of ?al 1 ?st] by (simp add: SIZE_MAX_1_def)
qed



text \<open>The text \<^verbatim>\<open>CBS_asn1_oid_to_text\<close> prints for the contents of an OBJECT IDENTIFIER is
  zero-terminated, and \<^verbatim>\<open>CBB_add_asn1_oid_from_text\<close> turns it back into exactly those contents.\<close>

lemma oid_der_text_der:
  assumes "CBS_asn1_oid_to_text al der = Some t"
  shows "\<exists>s. t = s @ [0] \<and> emits al' d (\<lambda>st. CBB_add_asn1_oid_from_text al' d st s) der"
  using oid_to_text_sound [OF assms] emits_oid_from_text by (metis append.assoc)

text \<open>The other way round: whatever text \<^verbatim>\<open>CBB_add_asn1_oid_from_text\<close> accepts, the bytes it appends
  are printed by \<^verbatim>\<open>CBS_asn1_oid_to_text\<close> as the same text, when memory is granted.\<close>

lemma oid_text_der_text:
  assumes "cbb_open d st" and "CBB_add_asn1_oid_from_text al d st s = (True, st')"
    and "\<And>k. al' k" and "length s < 2 ^ 60"
  shows "\<exists>der. appended st der st' \<and> CBS_asn1_oid_to_text al' der = Some (s @ [0])"
proof -
  obtain v vs where s: "s = oid_head v @ oid_tail vs" using oid_from_text_sound [OF assms(2)] by blast
  have "appended st (oid_der (v # vs)) st'"
    using emits_appended [OF emits_oid_from_text assms(1)] assms(2) s by blast
  moreover have "CBS_asn1_oid_to_text al' (oid_der (v # vs)) = Some (s @ [0])"
    using oid_to_text_complete [of al' v vs] assms(3,4) s by simp
  ultimately show ?thesis by blast
qed

end
