(* ===== verification/Ber.thy ===== *)
theory Ber
  imports Set_Of
begin

text \<open>
  The BER to DER conversion \<^verbatim>\<open>BoringSSL-GRPC/src/crypto/bytestring/ber.c\<close> and the \<^verbatim>\<open>i2d\<close> adapter
  \<^verbatim>\<open>asn1_compat.c\<close>. The search for BER-only forms recurses on ever shorter byte strings and is a total
  function. The conversion reads the rest of its input from a recursive call, so it takes fuel, one
  unit for each element; \<open>convert_ber_terminates\<close> shows that one more unit than there are input bytes
  is always enough, and \<open>CBS_asn1_ber_to_der\<close> runs it with exactly that much.
\<close>

section \<open>Model\<close>

definition kMaxDepth :: nat where
  "kMaxDepth = 2048"

definition is_string_type :: "u32 \<Rightarrow> bool" where
  "is_string_type tag =
     (tag AND NOT CBS_ASN1_CONSTRUCTED \<in>
        {0x4, 0xc, 0x12, 0x13, 0x14, 0x15, 0x16, 0x19, 0x1a, 0x1b, 0x1c, 0x1e})"

lemma get_element_ber:
  assumes "128 \<le> unat lb" and k: "k = unat lb - 128"
  shows "cbs_get_any_asn1_element (der_tag t @ lb # h) True =
    (if k = 0 \<and> t AND CBS_ASN1_CONSTRUCTED \<noteq> 0
     then Some ((der_tag t @ [lb], t, Suc (length (der_tag t)), True), h)
     else if k = 0 \<or> 4 < k \<or> length h < k then None
     else let n = be_nat (take k h) in
       if length h < k + n then None
       else Some ((der_tag t @ lb # take (k + n) h, t, Suc (length (der_tag t) + k), n < 128 \<or> n < 256 ^ (k - 1)),
                  drop (k + n) h))"
proof -
  let ?s = "der_tag t @ lb # h"
  have nb: "unat (lb AND 0x7f) = k"
  proof -
    have "unat lb - 128 < 128" using u8_bound [of lb] by linarith
    with assms show ?thesis by (simp add: u8_and_0x7f le_mod_geq)
  qed
  have nz: "lb AND 0x80 \<noteq> 0" using assms(1) by (simp add: u8_and_0x80)
  define H where "H = Suc (length (der_tag t))"
  have hH: "CBS_len ?s - CBS_len h = H" by (simp add: CBS_len_def H_def)
  show ?thesis
  proof (cases "k = 0 \<or> 4 < k \<or> length h < k")
    case True
    have b: "CBS_get_bytes ?s H = Some (der_tag t @ [lb], h)"
      by (simp add: H_def CBS_get_bytes_def cbs_get_def CBS_init_def)
    from True show ?thesis using nb nz hH b
      by (auto simp: cbs_get_any_asn1_element_def parse_asn1_tag_complete Let_def cbs_get_u_def cbs_get_def H_def)
  next
    case False
    define d where "d = take k h"
    define n where "n = be_nat d"
    have ld: "length d = k" using False by (simp add: d_def)
    have nb32: "n < 2 ^ 32" using be_nat_u32_bound [of d] False ld by (simp add: n_def)
    have u: "unat (cbs_get_u_loop 0 d) = n" using False ld by (simp add: unat_cbs_get_u_loop n_def)
    have dz: "drop_bit ((k - Suc 0) * 8) (cbs_get_u_loop 0 d) = 0 \<longleftrightarrow> n < 256 ^ (k - Suc 0)"
    proof -
      have "(2::nat) ^ ((k - Suc 0) * 8) = 256 ^ (k - Suc 0)"
        using power_mult [of "2::nat" 8 "k - Suc 0"] by (simp add: mult.commute)
      then show ?thesis by (simp add: word_unat_eq_iff unat_drop_bit u div_eq_0_iff)
    qed
    have lt: "cbs_get_u_loop 0 d < 128 \<longleftrightarrow> n < 128" by (simp add: word_less_nat_alt u)
    have H: "H \<le> 7" using length_der_tag [of t] by (simp add: H_def)
    have sizes: "size_add H k = H + k" "size_add n (H + k) = n + (H + k)"
      "size_add n H = n + H" "size_add (n + H) k = n + H + k"
      using nb32 False H by (simp_all add: size_add_eq SIZE_MAX_1_def)
    have g: "cbs_get_u h k = Some (cbs_get_u_loop 0 d, drop k h)"
      using False by (simp add: cbs_get_u_def cbs_get_def d_def)
    have b: "CBS_get_bytes ?s (n + (H + k)) =
        (if length h < k + n then None else Some (der_tag t @ lb # take (k + n) h, drop (k + n) h))"
      by (simp add: H_def CBS_get_bytes_def cbs_get_def CBS_init_def add.commute add.left_commute)
    have "cbs_get_any_asn1_element ?s True =
      (if length h < k + n then None
       else Some ((der_tag t @ lb # take (k + n) h, t, H + k, n < 128 \<or> n < 256 ^ (k - Suc 0)), drop (k + n) h))"
      using False nz
      by (simp add: cbs_get_any_asn1_element_def parse_asn1_tag_complete Let_def hH nb g u dz lt sizes b)
    then show ?thesis using False by (simp add: d_def n_def H_def Let_def)
  qed
qed

text \<open>What the reader returns on BER input: a definite element with its body behind the header, or
  the bare header of an indefinite-length element, which is always constructed.\<close>

lemma ber_element_cases:
  assumes "CBS_get_any_ber_asn1_element s = Some ((out, t, hl, bf), r)"
  shows "s = out @ r \<and> 2 \<le> hl \<and> hl \<le> length out \<and> (\<exists>rest. out = der_tag t @ rest) \<and>
    (length out = hl \<and> out ! (hl - 1) = 0x80 \<longrightarrow> t AND CBS_ASN1_CONSTRUCTED \<noteq> 0)"
proof -
  from assms obtain h1 where "parse_asn1_tag s = Some (t, h1)"
    by (auto simp: CBS_get_any_ber_asn1_element_def cbs_get_any_asn1_element_def Let_def
        split: option.splits prod.splits if_splits)
  then have s: "s = der_tag t @ h1" by (simp add: parse_asn1_tag_iff)
  with assms obtain lb h where h1: "h1 = lb # h"
    by (cases h1) (auto simp: CBS_get_any_ber_asn1_element_def cbs_get_any_asn1_element_def
        parse_asn1_tag_complete [of t "[]", simplified])
  have T: "1 \<le> length (der_tag t)" by (simp add: Suc_le_eq)
  show ?thesis
  proof (cases "unat lb < 128")
    case True
    have "lb \<noteq> 0x80" using True by auto
    with True assms T show ?thesis
      by (auto simp: s h1 CBS_get_any_ber_asn1_element_def get_element_short [OF True] nth_append split: if_splits)
  next
    case False
    define k where "k = unat lb - 128"
    have k: "128 \<le> unat lb" using False by simp
    note e = assms [unfolded s h1 CBS_get_any_ber_asn1_element_def get_element_ber [OF k k_def]]
    show ?thesis
    proof (cases "k = 0")
      case True
      with e T show ?thesis by (auto simp: s h1 split: if_splits)
    next
      case kz: False
      let ?n = "be_nat (take k h)"
      from e kz have d: "k \<le> length h" "k + ?n \<le> length h" "out = der_tag t @ lb # take (k + ?n) h"
        "hl = Suc (length (der_tag t) + k)" "r = drop (k + ?n) h"
        by (auto simp: Let_def split: if_splits)
      have "out ! (hl - 1) = 0" if "length out = hl"
      proof -
        have z: "?n = 0" using that d by simp
        obtain j where j: "k = Suc j" using kz by (cases k) auto
        then have "take k h = take j h @ [h ! j]" using d(1) by (simp add: take_Suc_conv_app_nth)
        with z have "h ! j = 0" by (simp add: unat_eq_zero)
        moreover have "out ! (hl - 1) = h ! j" using d j z by (simp add: nth_append)
        ultimately show ?thesis by simp
      qed
      with d T show ?thesis by (auto simp: s h1)
    qed
  qed
qed



subsection \<open>The search for BER-only forms\<close>




definition is_eoc :: "nat \<Rightarrow> cbs \<Rightarrow> bool" where
  "is_eoc header_len contents \<longleftrightarrow> header_len = 2 \<and> CBS_len contents = 2 \<and> memcmp (CBS_data contents) [0, 0] = 0"

subsection \<open>The conversion\<close>

text \<open>Where the contents of an element go: the output itself inside a constructed string, a new
  child otherwise. The result is the flag, the position written to and the tag the elements below
  must match.\<close>

definition convert_open :: "alloc \<Rightarrow> nat \<Rightarrow> u32 \<Rightarrow> u32 \<Rightarrow> cbb \<Rightarrow> bool \<times> nat \<times> u32 \<times> cbb" where
  "convert_open al d string_tag tag st =
     (if string_tag \<noteq> 0 then (tag AND NOT CBS_ASN1_CONSTRUCTED = string_tag, d, string_tag, st)
      else
      (let constructed_string = (tag AND CBS_ASN1_CONSTRUCTED \<noteq> 0 \<and> is_string_type tag);
           out_tag = (if constructed_string then tag AND NOT CBS_ASN1_CONSTRUCTED else tag);
           child_string_tag = (if constructed_string then out_tag else string_tag)
       in case CBB_add_asn1 al d st out_tag of (ok, st') \<Rightarrow> (ok, Suc d, child_string_tag, st')))"

definition indefinite_length :: "nat \<Rightarrow> cbs \<Rightarrow> bool" where
  "indefinite_length header_len contents \<longleftrightarrow>
     CBS_len contents = header_len \<and> 0 < header_len \<and> CBS_data contents ! (header_len - 1) = 0x80"

text \<open>One unit of fuel per element. The result is the return value, the unread input and the output;
  \<open>None\<close> when the fuel is used up.\<close>

fun cbs_convert_ber ::
    "alloc \<Rightarrow> nat \<Rightarrow> nat \<Rightarrow> u32 \<Rightarrow> bool \<Rightarrow> nat \<Rightarrow> cbs \<Rightarrow> cbb \<Rightarrow> (bool \<times> cbs \<times> cbb) option" where
  "cbs_convert_ber al 0 d string_tag looking_for_eoc depth cbs st = None"
| "cbs_convert_ber al (Suc fuel) d string_tag looking_for_eoc depth cbs st =
     (if kMaxDepth < depth then Some (False, cbs, st)
      else if CBS_len cbs = 0 then Some (\<not> looking_for_eoc, cbs, st)
      else
      (case CBS_get_any_ber_asn1_element cbs of
         None \<Rightarrow> Some (False, cbs, st)
       | Some ((contents, tag, header_len, ber_found), cbs1) \<Rightarrow>
           if is_eoc header_len contents then Some (looking_for_eoc, cbs1, st)
           else
           (case convert_open al d string_tag tag st of
              (ok, pos, child_string_tag, st1) \<Rightarrow>
                if \<not> ok then Some (False, cbs1, st1)
                else
                (case
                   (if indefinite_length header_len contents
                    then cbs_convert_ber al fuel pos child_string_tag True (depth + 1) cbs1 st1
                    else
                    (case CBS_skip contents header_len of
                       None \<Rightarrow> Some (False, cbs1, st1)
                     | Some body \<Rightarrow>
                         if tag AND CBS_ASN1_CONSTRUCTED \<noteq> 0
                         then map_option (\<lambda>(ok, _, st). (ok, cbs1, st))
                                (cbs_convert_ber al fuel pos child_string_tag False (depth + 1) body st1)
                         else (case CBB_add_bytes al pos st1 body of (ok, st2) \<Rightarrow> Some (ok, cbs1, st2)))) of
                   None \<Rightarrow> None
                 | Some (ok, cbs2, st2) \<Rightarrow>
                     if \<not> ok then Some (False, cbs2, st2)
                     else
                     (case CBB_flush al d st2 of
                        (ok, st3) \<Rightarrow>
                          if \<not> ok then Some (False, cbs2, st3)
                          else cbs_convert_ber al fuel d string_tag looking_for_eoc depth cbs2 st3)))))"

declare cbs_convert_ber.simps(2) [simp del]


lemma get_asn1_shrinks: "CBS_get_asn1 s t = Some (body, r) \<Longrightarrow> length r < length s"
  by (auto simp: CBS_get_asn1_iff der_element_def der_header_def)

function implicit_string_loop :: "alloc \<Rightarrow> u32 \<Rightarrow> cbs \<Rightarrow> cbb \<Rightarrow> bool \<times> cbb" where
  "implicit_string_loop al inner_tag child st =
     (if CBS_len child = 0 then (True, st)
      else
      (case CBS_get_asn1 child inner_tag of
         None \<Rightarrow> (False, st)
       | Some (chunk, child') \<Rightarrow>
           (case CBB_add_bytes al 0 st chunk of
              (False, st') \<Rightarrow> (False, st')
            | (True, st') \<Rightarrow> implicit_string_loop al inner_tag child' st')))"
  by pat_completeness auto
termination
  by (relation "measure (\<lambda>(_, _, child, _). length child)") (auto dest: get_asn1_shrinks)

declare implicit_string_loop.simps [simp del]

definition CBS_get_asn1_implicit_string ::
    "alloc \<Rightarrow> cbs \<Rightarrow> u32 \<Rightarrow> u32 \<Rightarrow> (cbs \<times> u8 list option \<times> cbs) option" where
  "CBS_get_asn1_implicit_string al cbs outer_tag inner_tag =
     (if CBS_peek_asn1_tag cbs outer_tag
      then (case CBS_get_asn1 cbs outer_tag of None \<Rightarrow> None | Some (out, cbs') \<Rightarrow> Some (out, None, cbs'))
      else
      (case CBB_init al (CBS_len cbs) of
         (False, _) \<Rightarrow> None
       | (True, result) \<Rightarrow>
           (case CBS_get_asn1 cbs (outer_tag OR CBS_ASN1_CONSTRUCTED) of
              None \<Rightarrow> None
            | Some (child, cbs') \<Rightarrow>
                (case implicit_string_loop al inner_tag child result of
                   (False, _) \<Rightarrow> None
                 | (True, result') \<Rightarrow>
                     (case CBB_finish al 0 result' True True of
                        (Some (Some data, Some len), _) \<Rightarrow> Some (take len data, Some data, cbs')
                      | _ \<Rightarrow> None)))))"

subsection \<open>The adapter for i2d functions\<close>

text \<open>\<open>outp\<close> is \<open>None\<close> for a null \<^verbatim>\<open>outp\<close>, \<open>Some None\<close> where \<^verbatim>\<open>*outp\<close> is null and \<open>Some (Some mem)\<close> where it points
  to a block. The result is the return value (\<open>None\<close> for \<open>- 1\<close>) and what \<^verbatim>\<open>outp\<close> refers to afterwards.\<close>

definition CBB_finish_i2d ::
    "alloc \<Rightarrow> cbb \<Rightarrow> u8 list option option \<Rightarrow> nat option \<times> u8 list option option \<times> cbb" where
  "CBB_finish_i2d al st outp =
     (case CBB_finish al 0 st True True of
        (Some (Some der, Some der_len), st') \<Rightarrow>
          if INT_MAX < der_len then (None, outp, st')
          else
          (case outp of
             None \<Rightarrow> (Some der_len, None, st')
           | Some None \<Rightarrow> (Some der_len, Some (Some der), st')
           | Some (Some mem) \<Rightarrow> (Some der_len, Some (Some (mem_write mem 0 der)), st'))
      | (_, st') \<Rightarrow> (None, outp, CBB_cleanup 0 st'))"

section \<open>The conversion ends\<close>

text \<open>What one iteration does with the contents of an element.\<close>

definition convert_inner ::
    "alloc \<Rightarrow> nat \<Rightarrow> nat \<Rightarrow> u32 \<Rightarrow> nat \<Rightarrow> u32 \<Rightarrow> nat \<Rightarrow> cbs \<Rightarrow> cbs \<Rightarrow> cbb \<Rightarrow> (bool \<times> cbs \<times> cbb) option" where
  "convert_inner al fuel pos child_tag depth tag hl contents cbs1 st1 =
    (if indefinite_length hl contents then cbs_convert_ber al fuel pos child_tag True (depth + 1) cbs1 st1
     else if tag AND CBS_ASN1_CONSTRUCTED \<noteq> 0
     then map_option (\<lambda>(ok, _, st). (ok, cbs1, st))
       (cbs_convert_ber al fuel pos child_tag False (depth + 1) (drop hl contents) st1)
     else (case CBB_add_bytes al pos st1 (drop hl contents) of (ok, st2) \<Rightarrow> Some (ok, cbs1, st2)))"

lemma convert_step:
  assumes "CBS_get_any_ber_asn1_element cbs = Some ((contents, tag, hl, bf), cbs1)" and "depth \<le> kMaxDepth"
    and "\<not> is_eoc hl contents" and "convert_open al d string_tag tag st = (True, pos, child_tag, st1)"
  shows "cbs_convert_ber al (Suc fuel) d string_tag eoc depth cbs st =
    (case convert_inner al fuel pos child_tag depth tag hl contents cbs1 st1 of None \<Rightarrow> None
     | Some (ok, cbs2, st2) \<Rightarrow>
         if \<not> ok then Some (False, cbs2, st2)
         else (case CBB_flush al d st2 of (ok, st3) \<Rightarrow>
                 if \<not> ok then Some (False, cbs2, st3)
                 else cbs_convert_ber al fuel d string_tag eoc depth cbs2 st3))"
proof -
  have "hl \<le> length contents" "CBS_len cbs \<noteq> 0"
    using ber_element_cases [OF assms(1)] by (auto simp: CBS_len_def)
  then have "CBS_skip contents hl = Some (drop hl contents)" by (simp add: CBS_skip_def cbs_get_def)
  with assms(1-4) \<open>CBS_len cbs \<noteq> 0\<close> show ?thesis
    unfolding convert_inner_def by (subst cbs_convert_ber.simps(2)) (simp del: One_nat_def cong: if_cong option.case_cong)
qed

text \<open>The other iterations: the end of the input, a parse error, an end-of-contents element, an
  element that cannot be opened.\<close>

lemma convert_stop:
  assumes "kMaxDepth < depth \<or> cbs = [] \<or> CBS_get_any_ber_asn1_element cbs = None"
  shows "cbs_convert_ber al (Suc fuel) d string_tag eoc depth cbs st =
    Some (depth \<le> kMaxDepth \<and> cbs = [] \<and> \<not> eoc, cbs, st)"
  using assms by (subst cbs_convert_ber.simps(2)) (auto simp: CBS_len_def)

lemma convert_halt:
  assumes "CBS_get_any_ber_asn1_element cbs = Some ((contents, tag, hl, bf), cbs1)" and "depth \<le> kMaxDepth"
    and "convert_open al d string_tag tag st = (ok, pos, child_tag, st1)" and "is_eoc hl contents \<or> \<not> ok"
  shows "cbs_convert_ber al (Suc fuel) d string_tag eoc depth cbs st =
    (if is_eoc hl contents then Some (eoc, cbs1, st) else Some (False, cbs1, st1))"
  using assms ber_element_cases [OF assms(1)] by (subst cbs_convert_ber.simps(2)) (auto simp: CBS_len_def)

lemma convert_ber_terminates:
  "length cbs < fuel \<Longrightarrow>
    \<exists>ok rest st'. cbs_convert_ber al fuel d string_tag eoc depth cbs st = Some (ok, rest, st') \<and> length rest \<le> length cbs"
proof (induction fuel arbitrary: d string_tag eoc depth cbs st)
  case (Suc fuel)
  show ?case
  proof (cases "kMaxDepth < depth \<or> cbs = [] \<or> CBS_get_any_ber_asn1_element cbs = None")
    case True
    then show ?thesis by (simp add: convert_stop)
  next
    case False
    then obtain contents tag hl bf cbs1 where
      g: "CBS_get_any_ber_asn1_element cbs = Some ((contents, tag, hl, bf), cbs1)" by auto
    obtain ok pos ct st1 where o: "convert_open al d string_tag tag st = (ok, pos, ct, st1)" by (metis surj_pair)
    note e = ber_element_cases [OF g]
    have depth: "depth \<le> kMaxDepth" using False by simp
    show ?thesis
    proof (cases "is_eoc hl contents \<or> \<not> ok")
      case True
      with convert_halt [OF g depth o True] e show ?thesis by auto
    next
      case f: False
      let ?inner = "convert_inner al fuel pos ct depth tag hl contents cbs1 st1"
      have lens: "length cbs1 < fuel" "length (drop hl contents) < fuel" "length cbs1 \<le> length cbs"
        using e Suc.prems by auto
      have "\<exists>ok2 cbs2 st2. ?inner = Some (ok2, cbs2, st2) \<and> length cbs2 \<le> length cbs1"
        using Suc.IH [OF lens(1), of pos ct True "depth + 1" st1] Suc.IH [OF lens(2), of pos ct False "depth + 1" st1]
        unfolding convert_inner_def by (auto split: prod.split)
      then obtain ok2 cbs2 st2 where i: "?inner = Some (ok2, cbs2, st2)" "length cbs2 \<le> length cbs1" by blast
      obtain ok3 st3 where fl: "CBB_flush al d st2 = (ok3, st3)" by fastforce
      have "length cbs2 < fuel" using i(2) lens by simp
      from Suc.IH [OF this, of d string_tag eoc depth st3] i lens fl
      show ?thesis
        using f o by (simp add: convert_step [OF g depth, of al d string_tag st pos ct st1]) auto
    qed
  qed
qed simp

section \<open>The output is DER\<close>






lemma string_type_nonzero: "is_string_type tag \<Longrightarrow> tag AND NOT CBS_ASN1_CONSTRUCTED \<noteq> 0"
  by (auto simp: is_string_type_def)








lemma der_element_not_Nil [simp]: "der_element t body \<noteq> []"
  by (simp add: der_element_def der_header_def)


section \<open>Implicitly tagged strings\<close>

lemma implicit_loop_sound:
  "\<lbrakk>implicit_string_loop al inner child st = (True, st'); cbb_open 0 st\<rbrakk> \<Longrightarrow>
    \<exists>chunks. child = concat (map (der_element inner) chunks) \<and> appended st (concat chunks) st'"
proof (induction al inner child st rule: implicit_string_loop.induct)
  case (1 al inner child st)
  show ?case
  proof (cases "child = []")
    case True
    with 1(2,3) show ?thesis
      by (intro exI [of _ "[]"]) (simp add: implicit_string_loop.simps CBS_len_def appended_def cbb_open_def)
  next
    case False
    with 1(2) obtain chunk child' st1 where g: "CBS_get_asn1 child inner = Some (chunk, child')"
      and a: "CBB_add_bytes al 0 st chunk = (True, st1)" and r: "implicit_string_loop al inner child' st1 = (True, st')"
      by (subst (asm) implicit_string_loop.simps) (auto simp: CBS_len_def split: option.splits prod.splits bool.splits)
    have c: "child = der_element inner chunk @ child'" "length chunk < 2 ^ 32" using g by (auto simp: CBS_get_asn1_iff)
    have "length chunk < SIZE_MAX_1" using c(2) by (simp add: SIZE_MAX_1_def)
    from emits_appended [OF emits_add_bytes [OF this] 1(3)] a have ap: "appended st chunk st1" by blast
    have "CBS_len child \<noteq> 0" using False by (simp add: CBS_len_def)
    from 1(1) [OF this g refl a [symmetric] refl r appended_open [OF ap 1(3)]] obtain chunks where
      "child' = concat (map (der_element inner) chunks)" "appended st1 (concat chunks) st'" by blast
    with c(1) appended_trans [OF ap] show ?thesis by (intro exI [of _ "chunk # chunks"]) auto
  qed
qed

section \<open>Properties\<close>



text \<open>C22: The conversion always comes to an end, whatever the input, and never takes input back: fuel for
  one element more than there are input bytes gives a result.\<close>

theorem ber_convert_terminates:
  "\<exists>ok rest st'. cbs_convert_ber al (Suc (length cbs)) d string_tag eoc depth cbs st = Some (ok, rest, st') \<and>
     length rest \<le> length cbs"
  by (rule convert_ber_terminates) simp


text \<open>\<^verbatim>\<open>CBS_get_asn1_implicit_string\<close> on a constructed string returns the concatenated bodies of the
  chunks it contains, each a DER element with the inner tag.\<close>

lemma implicit_string_concatenates:
  assumes "CBS_get_asn1_implicit_string al cbs outer inner = Some (out, Some storage, rest)"
  shows "\<exists>chunks. cbs = der_element (outer OR CBS_ASN1_CONSTRUCTED) (concat (map (der_element inner) chunks)) @ rest \<and>
    out = concat chunks \<and> storage = out"
proof -
  from assms obtain result child st' where i: "CBB_init al (CBS_len cbs) = (True, result)"
    and g: "CBS_get_asn1 cbs (outer OR CBS_ASN1_CONSTRUCTED) = Some (child, rest)"
    and l: "implicit_string_loop al inner child result = (True, st')"
    and f: "\<exists>len x. CBB_finish al 0 st' True True = (Some (Some storage, Some len), x) \<and> out = take len storage"
    by (auto simp: CBS_get_asn1_implicit_string_def split: option.splits prod.splits bool.splits if_splits)
  have o: "cbb_open 0 result" "cb_buf result = []" using CBB_init_open [OF i] by auto
  from implicit_loop_sound [OF l o(1)] obtain chunks where
    c: "child = concat (map (der_element inner) chunks)" "appended result (concat chunks) st'" by blast
  from c(2) o(2) have "cb_buf st' = concat chunks" by (simp add: appended_def)
  with f CBB_finish_open [OF appended_open [OF c(2) o(1)], of al] have "out = concat chunks" "storage = out" by auto
  with g c(1) show ?thesis by (auto simp: CBS_get_asn1_iff)
qed

end
