(* ===== verification/Base64.thy ===== *)
theory Base64
  imports Mem
begin

text \<open>
  Base64: \<^verbatim>\<open>BoringSSL-GRPC/src/crypto/base64/base64.c\<close> with the constant-time helpers it uses from
  \<^verbatim>\<open>crypto/internal.h\<close>. The encoder and the decoder are modelled as one-shot functions and as the
  streaming interface over an \<^verbatim>\<open>EVP_ENCODE_CTX\<close>. The bytes a function writes to its output pointer are
  part of its result, the terminating zero byte included where the code writes one.
\<close>

section \<open>Model\<close>

subsection \<open>Constant-time helpers\<close>

text \<open>\<^verbatim>\<open>crypto_word_t\<close> has 64 bits on the 64-bit targets. The optimisation barrier
  \<^verbatim>\<open>value_barrier_w\<close> is the identity.\<close>

definition constant_time_msb_w :: "u64 \<Rightarrow> u64" where
  "constant_time_msb_w a = 0 - drop_bit (64 - 1) a"

definition constant_time_lt_w :: "u64 \<Rightarrow> u64 \<Rightarrow> u64" where
  "constant_time_lt_w a b = constant_time_msb_w (a XOR ((a XOR b) OR ((a - b) XOR a)))"

definition constant_time_lt_8 :: "u64 \<Rightarrow> u64 \<Rightarrow> u8" where
  "constant_time_lt_8 a b = ucast (constant_time_lt_w a b)"

definition constant_time_ge_w :: "u64 \<Rightarrow> u64 \<Rightarrow> u64" where
  "constant_time_ge_w a b = NOT (constant_time_lt_w a b)"

definition constant_time_ge_8 :: "u64 \<Rightarrow> u64 \<Rightarrow> u8" where
  "constant_time_ge_8 a b = ucast (constant_time_ge_w a b)"

definition constant_time_is_zero_w :: "u64 \<Rightarrow> u64" where
  "constant_time_is_zero_w a = constant_time_msb_w (NOT a AND (a - 1))"

definition constant_time_is_zero_8 :: "u64 \<Rightarrow> u8" where
  "constant_time_is_zero_8 a = ucast (constant_time_is_zero_w a)"

definition constant_time_eq_w :: "u64 \<Rightarrow> u64 \<Rightarrow> u64" where
  "constant_time_eq_w a b = constant_time_is_zero_w (a XOR b)"

definition constant_time_eq_8 :: "u64 \<Rightarrow> u64 \<Rightarrow> u8" where
  "constant_time_eq_8 a b = ucast (constant_time_eq_w a b)"

definition constant_time_select_w :: "u64 \<Rightarrow> u64 \<Rightarrow> u64 \<Rightarrow> u64" where
  "constant_time_select_w m a b = (m AND a) OR (NOT m AND b)"

definition constant_time_select_8 :: "u8 \<Rightarrow> u8 \<Rightarrow> u8 \<Rightarrow> u8" where
  "constant_time_select_8 m a b = ucast (constant_time_select_w (ucast m) (ucast a) (ucast b))"

definition constant_time_lt_args_8 :: "u8 \<Rightarrow> u8 \<Rightarrow> u8" where
  "constant_time_lt_args_8 a b = ucast (constant_time_msb_w (ucast a - ucast b))"

definition constant_time_in_range_8 :: "u8 \<Rightarrow> u8 \<Rightarrow> u8 \<Rightarrow> u8" where
  "constant_time_in_range_8 a lo hi = constant_time_lt_args_8 (a - lo) (hi - lo + 1)"

subsection \<open>Encoding\<close>

definition conv_bin2ascii :: "u8 \<Rightarrow> u8" where
  "conv_bin2ascii a0 =
     (let a = a0 AND 0x3f;
          ret1 = constant_time_select_8 (constant_time_eq_8 (ucast a) 62) 43 47;
          ret2 = constant_time_select_8 (constant_time_lt_args_8 a 62) (a - 52 + 48) ret1;
          ret3 = constant_time_select_8 (constant_time_lt_args_8 a 52) (a - 26 + 97) ret2
      in constant_time_select_8 (constant_time_lt_args_8 a 26) (a + 65) ret3)"

text \<open>\<^verbatim>\<open>size_t\<close> shifts drop the bits above the 64th.\<close>

definition EVP_EncodedLength :: "nat \<Rightarrow> nat option" where
  "EVP_EncodedLength len0 =
     (if size_add len0 2 < len0 then None
      else
      (let len1 = size_add len0 2 div 3; len2 = (len1 * 4) mod SIZE_MAX_1
       in if len2 div 4 \<noteq> len1 then None
          else if size_add len2 1 < len2 then None
          else Some (size_add len2 1)))"

record evp_encode_ctx =
  ec_data_used :: nat
  ec_data :: "u8 list"
  ec_eof_seen :: bool
  ec_error_encountered :: bool

definition sizeof_ctx_data :: nat where
  "sizeof_ctx_data = 48"

definition EVP_EncodeInit :: evp_encode_ctx where
  "EVP_EncodeInit =
     \<lparr>ec_data_used = 0, ec_data = replicate sizeof_ctx_data 0, ec_eof_seen = False, ec_error_encountered = False\<rparr>"

text \<open>The size of \<^verbatim>\<open>EVP_ENCODE_CTX\<close>: the counter, 48 bytes of data, two flags and padding.\<close>

definition sizeof_EVP_ENCODE_CTX :: nat where
  "sizeof_EVP_ENCODE_CTX = 56"

definition EVP_ENCODE_CTX_new :: "alloc \<Rightarrow> evp_encode_ctx option" where
  "EVP_ENCODE_CTX_new al = map_option (\<lambda>_. EVP_EncodeInit) (OPENSSL_malloc al sizeof_EVP_ENCODE_CTX)"

fun encode_loop :: "u8 list \<Rightarrow> u8 list" where
  "encode_loop [] = []"
| "encode_loop (a # b # c # src) =
     (let l = push_bit 16 (ucast a) OR push_bit 8 (ucast b) OR ucast c :: u32
      in conv_bin2ascii (ucast (drop_bit 18 l)) # conv_bin2ascii (ucast (drop_bit 12 l)) #
         conv_bin2ascii (ucast (drop_bit 6 l)) # conv_bin2ascii (ucast l) # encode_loop src)"
| "encode_loop [a, b] =
     (let l = push_bit 16 (ucast a) OR push_bit 8 (ucast b) :: u32
      in [conv_bin2ascii (ucast (drop_bit 18 l)), conv_bin2ascii (ucast (drop_bit 12 l)),
          conv_bin2ascii (ucast (drop_bit 6 l)), 61])"
| "encode_loop [a] =
     (let l = push_bit 16 (ucast a) :: u32
      in [conv_bin2ascii (ucast (drop_bit 18 l)), conv_bin2ascii (ucast (drop_bit 12 l)), 61, 61])"

text \<open>What is written to \<^verbatim>\<open>dst\<close>, with its zero byte, and the number returned.\<close>

definition EVP_EncodeBlock :: "u8 list \<Rightarrow> u8 list \<times> nat" where
  "EVP_EncodeBlock src = (encode_loop src @ [0], length (encode_loop src))"

text \<open>The loop over whole lines. The result is whether \<^verbatim>\<open>total\<close> stayed in range, the unread input, what was
  written so far without the zero byte, and \<^verbatim>\<open>total\<close>.\<close>

function encode_lines :: "u8 list \<Rightarrow> u8 list \<Rightarrow> nat \<Rightarrow> bool \<times> u8 list \<times> u8 list \<times> nat" where
  "encode_lines inp out tot =
     (if sizeof_ctx_data \<le> length inp
      then
        (let (dst, encoded) = EVP_EncodeBlock (take sizeof_ctx_data inp);
             inp' = drop sizeof_ctx_data inp; out' = out @ take encoded dst @ [10];
             tot' = size_add tot (encoded + 1)
         in if tot' < tot then (False, inp', out', tot) else encode_lines inp' out' tot')
      else (True, inp, out, tot))"
  by pat_completeness auto
termination
  by (relation "measure (\<lambda>(inp, _, _). length inp)") (auto simp: sizeof_ctx_data_def)

declare encode_lines.simps [simp del]

text \<open>The result is the context, the bytes written without the zero byte that follows them, and
  \<^verbatim>\<open>*out_len\<close>.\<close>

definition EVP_EncodeUpdate :: "evp_encode_ctx \<Rightarrow> u8 list \<Rightarrow> evp_encode_ctx \<times> u8 list \<times> nat" where
  "EVP_EncodeUpdate ctx inp =
     (if length inp = 0 then (ctx, [], 0)
      else if length inp < sizeof_ctx_data - ec_data_used ctx
      then (ctx\<lparr>ec_data := mem_write (ec_data ctx) (ec_data_used ctx) inp,
                ec_data_used := ec_data_used ctx + length inp\<rparr>, [], 0)
      else
      (let (ctx1, inp1, out1, total1) =
             (if ec_data_used ctx \<noteq> 0
              then
                (let todo = sizeof_ctx_data - ec_data_used ctx;
                     data = mem_write (ec_data ctx) (ec_data_used ctx) (take todo inp);
                     (dst, encoded) = EVP_EncodeBlock data
                 in (ctx\<lparr>ec_data := data, ec_data_used := 0\<rparr>, drop todo inp,
                     take encoded dst @ [10], encoded + 1))
              else (ctx, inp, [], 0))
       in case encode_lines inp1 out1 total1 of
            (ok, inp2, out2, total2) \<Rightarrow>
              if \<not> ok then (ctx1, out2, 0)
              else
              (ctx1\<lparr>ec_data := (if length inp2 \<noteq> 0 then mem_write (ec_data ctx1) 0 inp2 else ec_data ctx1),
                    ec_data_used := length inp2\<rparr>,
               out2, if INT_MAX < total2 then 0 else total2)))"

definition EVP_EncodeFinal :: "evp_encode_ctx \<Rightarrow> evp_encode_ctx \<times> u8 list \<times> nat" where
  "EVP_EncodeFinal ctx =
     (if ec_data_used ctx = 0 then (ctx, [], 0)
      else
      (let (dst, encoded) = EVP_EncodeBlock (take (ec_data_used ctx) (ec_data ctx))
       in (ctx\<lparr>ec_data_used := 0\<rparr>, take encoded dst @ [10, 0], encoded + 1)))"

subsection \<open>Decoding\<close>

definition EVP_DecodedLength :: "nat \<Rightarrow> nat option" where
  "EVP_DecodedLength len = (if len mod 4 \<noteq> 0 then None else Some (len div 4 * 3))"

definition EVP_DecodeInit :: evp_encode_ctx where
  "EVP_DecodeInit = EVP_EncodeInit"

definition base64_ascii_to_bin :: "u8 \<Rightarrow> u8" where
  "base64_ascii_to_bin a =
     (let is_upper = constant_time_in_range_8 a 65 90;
          is_lower = constant_time_in_range_8 a 97 122;
          is_digit = constant_time_in_range_8 a 48 57;
          is_plus = constant_time_eq_8 (ucast a) 43;
          is_slash = constant_time_eq_8 (ucast a) 47;
          is_equals = constant_time_eq_8 (ucast a) 61;
          is_valid = is_upper OR is_lower OR is_digit OR is_plus OR is_slash OR is_equals
      in (is_upper AND (a - 65)) OR (is_lower AND (a - 97 + 26)) OR (is_digit AND (a - 48 + 52)) OR
         (is_plus AND 62) OR (is_slash AND 63) OR NOT is_valid)"

text \<open>\<open>None\<close> is the return value 0; otherwise the bytes written, \<^verbatim>\<open>*out_num_bytes\<close> of them.\<close>

definition base64_decode_quad :: "u8 \<Rightarrow> u8 \<Rightarrow> u8 \<Rightarrow> u8 \<Rightarrow> u8 list option" where
  "base64_decode_quad in0 in1 in2 in3 =
     (let a = base64_ascii_to_bin in0; b = base64_ascii_to_bin in1;
          c = base64_ascii_to_bin in2; d = base64_ascii_to_bin in3
      in if a = 0xff \<or> b = 0xff \<or> c = 0xff \<or> d = 0xff then None
         else
         (let v = push_bit 18 (ucast a) OR push_bit 12 (ucast b) OR push_bit 6 (ucast c) OR ucast d :: u32;
              padding_pattern = (if in0 = 61 then 8 else 0) + (if in1 = 61 then 4 else 0) +
                (if in2 = 61 then 2 else 0) + (if in3 = 61 then 1 else 0 :: nat)
          in if padding_pattern = 0 then Some [ucast (drop_bit 16 v), ucast (drop_bit 8 v), ucast v]
             else if padding_pattern = 1 then Some [ucast (drop_bit 16 v), ucast (drop_bit 8 v)]
             else if padding_pattern = 3 then Some [ucast (drop_bit 16 v)]
             else None))"

definition is_base64_space :: "u8 \<Rightarrow> bool" where
  "is_base64_space c \<longleftrightarrow> c = 32 \<or> c = 9 \<or> c = 13 \<or> c = 10"

text \<open>The loop of \<^verbatim>\<open>EVP_DecodeUpdate\<close>: the context, whether it ran to its end, and the bytes written.\<close>

fun decode_update_loop :: "evp_encode_ctx \<Rightarrow> u8 list \<Rightarrow> u8 list \<Rightarrow> evp_encode_ctx \<times> bool \<times> u8 list" where
  "decode_update_loop ctx out [] = (ctx, True, out)"
| "decode_update_loop ctx out (c # inp) =
     (if is_base64_space c then decode_update_loop ctx out inp
      else if ec_eof_seen ctx then (ctx\<lparr>ec_error_encountered := True\<rparr>, False, out)
      else
      (let data = (ec_data ctx)[ec_data_used ctx := c];
           ctx1 = ctx\<lparr>ec_data := data, ec_data_used := ec_data_used ctx + 1\<rparr>
       in if ec_data_used ctx1 = 4
          then
            (case base64_decode_quad (data ! 0) (data ! 1) (data ! 2) (data ! 3) of
               None \<Rightarrow> (ctx1\<lparr>ec_error_encountered := True\<rparr>, False, out)
             | Some bytes \<Rightarrow>
                 decode_update_loop
                   (ctx1\<lparr>ec_data_used := 0, ec_eof_seen := (length bytes < 3)\<rparr>) (out @ bytes) inp)
          else decode_update_loop ctx1 out inp))"

text \<open>The result is the context, the return value, the bytes written and \<^verbatim>\<open>*out_len\<close>.\<close>

definition EVP_DecodeUpdate :: "evp_encode_ctx \<Rightarrow> u8 list \<Rightarrow> evp_encode_ctx \<times> int \<times> u8 list \<times> nat" where
  "EVP_DecodeUpdate ctx inp =
     (if ec_error_encountered ctx then (ctx, - 1, [], 0)
      else
      (case decode_update_loop ctx [] inp of
         (ctx1, ok, out) \<Rightarrow>
           if \<not> ok then (ctx1, - 1, out, 0)
           else if INT_MAX < length out then (ctx1\<lparr>ec_error_encountered := True\<rparr>, - 1, out, 0)
           else (ctx1, if ec_eof_seen ctx1 then 0 else 1, out, length out)))"

definition EVP_DecodeFinal :: "evp_encode_ctx \<Rightarrow> int" where
  "EVP_DecodeFinal ctx = (if ec_error_encountered ctx \<or> ec_data_used ctx \<noteq> 0 then - 1 else 1)"

text \<open>The loop of \<^verbatim>\<open>EVP_DecodeBase64\<close>; only the last quad may be padded.\<close>

fun decode_quads :: "u8 list \<Rightarrow> u8 list option" where
  "decode_quads (a # b # c # d # inp) =
     (case base64_decode_quad a b c d of
        None \<Rightarrow> None
      | Some bytes \<Rightarrow>
          if length bytes \<noteq> 3 \<and> inp \<noteq> [] then None
          else (case decode_quads inp of None \<Rightarrow> None | Some rest \<Rightarrow> Some (bytes @ rest)))"
| "decode_quads inp = Some []"

definition EVP_DecodeBase64 :: "nat \<Rightarrow> u8 list \<Rightarrow> u8 list option" where
  "EVP_DecodeBase64 max_out inp =
     (if length inp mod 4 \<noteq> 0 then None
      else
      (case EVP_DecodedLength (length inp) of
         None \<Rightarrow> None
       | Some max_len \<Rightarrow> if max_out < max_len then None else decode_quads inp))"

definition trim_base64 :: "u8 list \<Rightarrow> u8 list" where
  "trim_base64 src =
     rev (dropWhile is_base64_space (rev (dropWhile (\<lambda>c. c = 32 \<or> c = 9) src)))"

text \<open>\<open>None\<close> is the return value \<open>- 1\<close>; the zero bytes stand for the padding.\<close>

definition EVP_DecodeBlock :: "u8 list \<Rightarrow> u8 list option" where
  "EVP_DecodeBlock src0 =
     (let src = trim_base64 src0
      in case EVP_DecodedLength (length src) of
           None \<Rightarrow> None
         | Some dst_len \<Rightarrow>
             if INT_MAX < dst_len then None
             else
             (case EVP_DecodeBase64 dst_len src of
                None \<Rightarrow> None
              | Some dst \<Rightarrow> Some (dst @ replicate ((3 - length dst mod 3) mod 3) 0)))"

section \<open>The constant-time helpers\<close>

lemma msb_w: "constant_time_msb_w a = (if 2 ^ 63 \<le> unat a then - 1 else 0)"
proof -
  have "unat (drop_bit 63 a) = unat a div 2 ^ 63" by (simp add: unat_drop_bit)
  moreover have "unat a div 2 ^ 63 < 2" using u64_bound [of a] by (simp add: less_mult_imp_div_less)
  ultimately have "unat (drop_bit 63 a) = (if 2 ^ 63 \<le> unat a then 1 else 0)"
    by (auto simp: less_2_cases_iff div_eq_0_iff not_less)
  then have "drop_bit 63 a = (if 2 ^ 63 \<le> unat a then 1 else 0)" by (auto simp: word_unat_eq_iff split: if_splits)
  then show ?thesis by (simp add: constant_time_msb_w_def)
qed

lemma msb_bit: "2 ^ 63 \<le> unat (a::u64) \<longleftrightarrow> bit a 63"
proof -
  have "unat a div 2 ^ 63 < 2" using u64_bound [of a] by (simp add: less_mult_imp_div_less)
  then show ?thesis by (auto simp: bit_word_iff_odd less_2_cases_iff div_eq_0_iff not_less)
qed

lemma unat_sub_wrap: "unat (a - b :: u64) = (if b \<le> a then unat a - unat b else unat a + 2 ^ 64 - unat b)"
  using unat_sub [of b a] u64_bound [of b] unat_sub_if_size [of a b] by (simp add: word_size word_le_nat_alt)

lemma lt_w: "constant_time_lt_w a b = (if a < b then - 1 else 0)"
proof -
  have "bit (a XOR ((a XOR b) OR ((a - b) XOR a))) 63 \<longleftrightarrow>
      (bit a 63 \<noteq> (bit a 63 \<noteq> bit b 63 \<or> bit (a - b) 63 \<noteq> bit a 63))"
    by (simp add: bit_simps)
  also have "\<dots> \<longleftrightarrow> a < b"
    unfolding msb_bit [symmetric] using u64_bound [of a] u64_bound [of b]
    by (auto simp: unat_sub_wrap word_less_nat_alt word_le_nat_alt)
  finally have "bit (a XOR ((a XOR b) OR ((a - b) XOR a))) 63 \<longleftrightarrow> a < b" .
  then show ?thesis unfolding constant_time_lt_w_def msb_w msb_bit by simp
qed

lemma is_zero_w: "constant_time_is_zero_w a = (if a = 0 then - 1 else 0)"
proof -
  have "bit (NOT a AND (a - 1)) 63 \<longleftrightarrow> a = 0"
  proof (cases "a = 0")
    case True
    then show ?thesis by (simp add: bit_simps)
  next
    case False
    then have "1 \<le> a" by (simp add: word_le_nat_alt Suc_le_eq unat_gt_0)
    then have "unat (a - 1) = unat a - 1" by (simp add: unat_sub_wrap)
    then have "\<not> (\<not> bit a 63 \<and> bit (a - 1) 63)" unfolding msb_bit [symmetric] by linarith
    with False show ?thesis by (simp add: bit_simps)
  qed
  then show ?thesis unfolding constant_time_is_zero_w_def msb_w msb_bit by simp
qed

lemma ucast_ones [simp]: "(ucast (- 1 :: u64) :: u8) = - 1"
  by (rule bit_eqI) (simp add: bit_simps)

lemma unat_ones_u8: "unat (- 1 :: u8) = 255"
  by (simp add: unsigned_minus_1_eq_mask mask_eq_exp_minus_1)

lemma eq_w: "constant_time_eq_w a b = (if a = b then - 1 else 0)"
  by (simp add: constant_time_eq_w_def is_zero_w)

lemma eq_8: "constant_time_eq_8 a b = (if a = b then - 1 else 0)"
  by (simp add: constant_time_eq_8_def eq_w)

lemma lt_args_8: "constant_time_lt_args_8 a b = (if a < b then - 1 else 0)"
proof -
  have "2 ^ 63 \<le> unat (ucast a - ucast b :: u64) \<longleftrightarrow> a < b"
    using u8_le [of a] u8_le [of b] by (auto simp: unat_sub_wrap word_less_nat_alt word_le_nat_alt)
  then show ?thesis by (simp add: constant_time_lt_args_8_def msb_w)
qed

lemma unat_sub_wrap8: "unat (a - b :: u8) = (if b \<le> a then unat a - unat b else unat a + 256 - unat b)"
  using unat_sub_if_size [of a b] by (simp add: word_size word_le_nat_alt)

lemma in_range_8:
  assumes "unat lo \<le> unat hi" and "unat hi - unat lo < 255"
  shows "constant_time_in_range_8 a lo hi = (if lo \<le> a \<and> a \<le> hi then - 1 else 0)"
proof -
  have d: "unat (hi - lo + 1) = unat hi - unat lo + 1"
    using assms by (simp add: unat_word_ariths(1) unat_sub_wrap8 word_le_nat_alt)
  have "a - lo < hi - lo + 1 \<longleftrightarrow> lo \<le> a \<and> a \<le> hi"
    using assms u8_le [of a] u8_le [of hi] by (auto simp: word_less_nat_alt d unat_sub_wrap8 word_le_nat_alt)
  then show ?thesis by (simp add: constant_time_in_range_8_def lt_args_8)
qed

lemma select_8: "constant_time_select_8 (if p then - 1 else 0) a b = (if p then a else b)"
  by (rule bit_eqI) (auto simp: constant_time_select_8_def constant_time_select_w_def bit_simps)

lemma ucast_eq_iff_unat: "(ucast (a::u8) :: u64) = b \<longleftrightarrow> unat a = unat b"
  by (simp add: word_unat_eq_iff)

section \<open>The alphabet\<close>

lemma bin2ascii_eq:
  "conv_bin2ascii a0 =
    (let a = a0 AND 0x3f
     in if a < 26 then a + 65 else if a < 52 then a - 26 + 97 else if a < 62 then a - 52 + 48
        else if a = 62 then 43 else 47)"
  by (simp add: conv_bin2ascii_def Let_def lt_args_8 eq_8 select_8 ucast_eq_iff_unat word_unat_eq_iff [where 'a = 8])


lemma and_ones [simp]: "(if p then - 1 else 0) AND a = (if p then a else (0::u8))"
  by simp

lemma ascii2bin_eq:
  "base64_ascii_to_bin a =
    (if 65 \<le> a \<and> a \<le> 90 then a - 65 else if 97 \<le> a \<and> a \<le> 122 then a - 97 + 26
     else if 48 \<le> a \<and> a \<le> 57 then a - 48 + 52 else if a = 43 then 62 else if a = 47 then 63
     else if a = 61 then 0 else 0xff)"
proof -
  have r: "constant_time_in_range_8 a 65 90 = (if 65 \<le> a \<and> a \<le> 90 then - 1 else 0)"
    "constant_time_in_range_8 a 97 122 = (if 97 \<le> a \<and> a \<le> 122 then - 1 else 0)"
    "constant_time_in_range_8 a 48 57 = (if 48 \<le> a \<and> a \<le> 57 then - 1 else 0)"
    by (simp_all add: in_range_8)
  have e: "(ucast a :: u64) = 43 \<longleftrightarrow> a = 43" "(ucast a :: u64) = 47 \<longleftrightarrow> a = 47" "(ucast a :: u64) = 61 \<longleftrightarrow> a = 61"
    by (simp_all add: word_unat_eq_iff)
  show ?thesis
    unfolding base64_ascii_to_bin_def r eq_8 e Let_def
    by (auto simp: word_le_nat_alt word_unat_eq_iff [where 'a = 8] unat_ones_u8 split: if_splits)
qed

text \<open>The 64 characters are decoded to their values and are neither padding nor white space.\<close>

lemma and_0x3f: "unat (a AND 0x3f) = unat (a::u8) mod 64"
proof -
  have "(0x3f :: u8) = mask 6" by (simp add: mask_eq_exp_minus_1)
  then show ?thesis by (simp only: unat_and_mask) simp
qed

lemma alphabet:
  shows "base64_ascii_to_bin (conv_bin2ascii a) = a AND 0x3f" and "conv_bin2ascii a \<noteq> 61"
    and "\<not> is_base64_space (conv_bin2ascii a)"
proof -
  define w where "w = a AND 0x3f"
  define c where "c = conv_bin2ascii a"
  have n: "unat w < 64" unfolding w_def and_0x3f by simp
  have c: "c = (if w < 26 then w + 65 else if w < 52 then w - 26 + 97 else if w < 62 then w - 52 + 48
      else if w = 62 then 43 else 47)"
    unfolding c_def bin2ascii_eq Let_def w_def ..
  have u: "unat c = (if unat w < 26 then unat w + 65 else if unat w < 52 then unat w + 71
      else if unat w < 62 then unat w - 4 else if unat w = 62 then 43 else 47)"
    unfolding c using n
    by (auto simp: word_less_nat_alt word_unat_eq_iff [where 'a = 8] unat_word_ariths(1) unat_sub_wrap8 word_le_nat_alt)
  have "unat (base64_ascii_to_bin c) = unat w"
    unfolding ascii2bin_eq using u n
    by (auto simp: word_less_nat_alt word_unat_eq_iff [where 'a = 8] unat_word_ariths(1) unat_sub_wrap8 word_le_nat_alt
        split: if_splits)
  then show "base64_ascii_to_bin (conv_bin2ascii a) = a AND 0x3f"
    unfolding c_def [symmetric] w_def [symmetric] by (rule unsigned_word_eqI)
  show "conv_bin2ascii a \<noteq> 61" unfolding c_def [symmetric] using u n by (auto split: if_splits)
  show "\<not> is_base64_space (conv_bin2ascii a)"
    unfolding c_def [symmetric] is_base64_space_def using u n by (auto split: if_splits)
qed

section \<open>Quads\<close>

lemma unat_sextets:
  fixes a b c d :: u8
  assumes "unat a < 64" "unat b < 64" "unat c < 64" "unat d < 64"
  shows "unat (push_bit 18 (ucast a) OR push_bit 12 (ucast b) OR push_bit 6 (ucast c) OR ucast d :: u32)
    = ((unat a * 64 + unat b) * 64 + unat c) * 64 + unat d"
proof -
  have 1: "unat (push_bit 6 (ucast c) OR ucast d :: u32) = unat c * 64 + unat d"
    using assms by (subst unat_shift_or) simp_all
  have 2: "unat (push_bit 12 (ucast b) OR push_bit 6 (ucast c) OR ucast d :: u32) = unat b * 4096 + (unat c * 64 + unat d)"
    using assms by (subst unat_shift_or) (simp_all add: 1)
  show ?thesis using assms by (subst unat_shift_or) (simp_all add: 2)
qed

lemma unat_octets:
  fixes a b c :: u8
  shows "unat (push_bit 16 (ucast a) OR push_bit 8 (ucast b) OR ucast c :: u32) = (unat a * 256 + unat b) * 256 + unat c"
proof -
  have 1: "unat (push_bit 8 (ucast b) OR ucast c :: u32) = unat b * 256 + unat c"
    using u8_le [of b] u8_le [of c] by (subst unat_shift_or) simp_all
  show ?thesis using u8_le [of a] u8_le [of b] u8_le [of c] by (subst unat_shift_or) (simp_all add: 1)
qed

lemma sextet: "unat ((ucast (drop_bit k (l::u32)) :: u8) AND 0x3f) = unat l div 2 ^ k mod 64"
  by (simp add: and_0x3f unat_ucast unat_drop_bit mod_mod_cancel)

text \<open>Four characters of 24 bits, decoded.\<close>

lemma sextets_join: "n < 2 ^ 24 \<Longrightarrow>
    ((n div 262144 mod 64 * 64 + n div 4096 mod 64) * 64 + n div 64 mod 64) * 64 + n mod 64 = (n::nat)"
proof -
  assume n: "n < 2 ^ 24"
  have d: "n div 4096 = n div 64 div 64" "n div 262144 = n div 64 div 64 div 64" by (simp_all flip: div_mult2_eq)
  have "n div 64 div 64 div 64 < 64" using n by (simp add: div_less_iff_less_mult)
  then have "n div 64 div 64 div 64 mod 64 = n div 64 div 64 div 64" by simp
  then show ?thesis unfolding d by (simp only: div_mult_mod_eq)
qed

lemma quad_value:
  fixes l :: u32
  assumes "unat l < 2 ^ 24"
  shows "(push_bit 18 (ucast ((ucast (drop_bit 18 l) :: u8) AND 0x3f)) OR push_bit 12 (ucast ((ucast (drop_bit 12 l) :: u8) AND 0x3f)) OR
      push_bit 6 (ucast ((ucast (drop_bit 6 l) :: u8) AND 0x3f)) OR ucast ((ucast l :: u8) AND 0x3f) :: u32) = l"
proof -
  have s: "unat ((ucast l :: u8) AND 0x3f) = unat l mod 64" using sextet [of 0 l] by simp
  note x = sextet [of 18 l] sextet [of 12 l] sextet [of 6 l] s
  have "unat (push_bit 18 (ucast ((ucast (drop_bit 18 l) :: u8) AND 0x3f)) OR push_bit 12 (ucast ((ucast (drop_bit 12 l) :: u8) AND 0x3f)) OR
      push_bit 6 (ucast ((ucast (drop_bit 6 l) :: u8) AND 0x3f)) OR ucast ((ucast l :: u8) AND 0x3f) :: u32) = unat l"
    using x sextets_join [OF assms] by (subst unat_sextets) simp_all
  then show ?thesis by (rule unsigned_word_eqI)
qed

lemma sextet_valid: "(x::u8) AND 0x3f \<noteq> 0xff"
proof -
  have "unat (x AND 0x3f) < 64" unfolding and_0x3f by simp
  then show ?thesis by auto
qed

lemma radix256: "(x * 256 + unat (c::u8)) div 256 = x" "(x * 256 + unat c) mod 256 = unat c"
  using u8_le [of c] by (simp_all add: div_mult_self3 mod_mult_self3)

lemma octets_bytes:
  fixes a b c :: u8
  defines "l \<equiv> push_bit 16 (ucast a) OR push_bit 8 (ucast b) OR ucast c :: u32"
  shows "(ucast (drop_bit 16 l) :: u8) = a" "(ucast (drop_bit 8 l) :: u8) = b" "(ucast l :: u8) = c" "unat l < 2 ^ 24"
proof -
  have u: "unat l = (unat a * 256 + unat b) * 256 + unat c" unfolding l_def by (rule unat_octets)
  have d: "unat l div 256 = unat a * 256 + unat b" "unat l mod 256 = unat c"
    unfolding u by (rule radix256) (rule radix256)
  have d2: "unat l div 65536 = unat a"
    using div_mult2_eq [of "unat l" 256 256] d(1) u8_le [of b] by simp
  show "(ucast (drop_bit 16 l) :: u8) = a" "(ucast (drop_bit 8 l) :: u8) = b" "(ucast l :: u8) = c"
    by (simp_all add: word_unat_eq_iff unat_ucast unat_drop_bit d d2)
  show "unat l < 2 ^ 24" using u u8_le [of a] u8_le [of b] u8_le [of c] by simp
qed

lemma decode_full_quad:
  fixes a b c :: u8
  defines "l \<equiv> push_bit 16 (ucast a) OR push_bit 8 (ucast b) OR ucast c :: u32"
  shows "base64_decode_quad (conv_bin2ascii (ucast (drop_bit 18 l))) (conv_bin2ascii (ucast (drop_bit 12 l)))
    (conv_bin2ascii (ucast (drop_bit 6 l))) (conv_bin2ascii (ucast l)) = Some [a, b, c]"
  using octets_bytes [of a b c, folded l_def] quad_value [of l]
  by (simp add: base64_decode_quad_def alphabet sextet_valid Let_def)

lemma low_sextets:
  fixes a b :: u8
  shows "(ucast (push_bit 16 (ucast a) OR push_bit 8 (ucast b) :: u32) :: u8) AND 0x3f = 0"
    and "(ucast (drop_bit 6 (push_bit 16 (ucast a) :: u32)) :: u8) AND 0x3f = 0"
proof -
  let ?l = "push_bit 16 (ucast a) OR push_bit 8 (ucast b) :: u32"
  have "unat ?l = (unat a * 256 + unat b) * 256" using unat_octets [of a b 0] by simp
  then have "unat ((ucast ?l :: u8) AND 0x3f) = (unat a * 256 + unat b) * 256 mod 64" using sextet [of 0 ?l] by simp
  also have "\<dots> = 0" by (simp add: mod_eq_0_iff_dvd)
  finally show "(ucast ?l :: u8) AND 0x3f = 0" by (simp add: word_unat_eq_iff)
  have "unat (push_bit 16 (ucast a) :: u32) = unat a * 65536" using unat_octets [of a 0 0] by simp
  then have "unat ((ucast (drop_bit 6 (push_bit 16 (ucast a) :: u32)) :: u8) AND 0x3f) = unat a * 65536 div 64 mod 64"
    using sextet [of 6 "push_bit 16 (ucast a)"] by simp
  also have "unat a * 65536 div 64 = unat a * 1024" by simp
  finally show "(ucast (drop_bit 6 (push_bit 16 (ucast a) :: u32)) :: u8) AND 0x3f = 0"
    by (simp add: word_unat_eq_iff mod_eq_0_iff_dvd)
qed

lemma ascii2bin_pad: "base64_ascii_to_bin 61 = 0"
  by (simp add: ascii2bin_eq)

lemma decode_two_bytes:
  fixes a b :: u8
  defines "l \<equiv> push_bit 16 (ucast a) OR push_bit 8 (ucast b) :: u32"
  shows "base64_decode_quad (conv_bin2ascii (ucast (drop_bit 18 l))) (conv_bin2ascii (ucast (drop_bit 12 l)))
    (conv_bin2ascii (ucast (drop_bit 6 l))) 61 = Some [a, b]"
proof -
  have l: "l = push_bit 16 (ucast a) OR push_bit 8 (ucast b) OR ucast (0::u8)" by (simp add: l_def)
  have "(ucast l :: u8) AND 0x3f = 0" unfolding l_def by (rule low_sextets)
  then show ?thesis
    using octets_bytes [of a b 0, folded l] quad_value [of l]
    by (simp add: base64_decode_quad_def alphabet sextet_valid Let_def ascii2bin_pad)
qed

lemma decode_one_byte:
  fixes a :: u8
  defines "l \<equiv> push_bit 16 (ucast a) :: u32"
  shows "base64_decode_quad (conv_bin2ascii (ucast (drop_bit 18 l))) (conv_bin2ascii (ucast (drop_bit 12 l))) 61 61 = Some [a]"
proof -
  have l: "l = push_bit 16 (ucast a) OR push_bit 8 (ucast (0::u8)) OR ucast (0::u8)" by (simp add: l_def)
  have "(ucast l :: u8) AND 0x3f = 0" using low_sextets(1) [of a 0] by (simp add: l_def)
  moreover have "(ucast (drop_bit 6 l) :: u8) AND 0x3f = 0" unfolding l_def by (rule low_sextets)
  ultimately show ?thesis
    using octets_bytes [of a 0 0, folded l] quad_value [of l]
    by (simp add: base64_decode_quad_def alphabet sextet_valid Let_def ascii2bin_pad)
qed

section \<open>One-shot encoding and decoding\<close>

lemma length_encode_loop: "length (encode_loop src) = 4 * ((length src + 2) div 3)"
proof (induction src rule: encode_loop.induct)
  case (2 a b c src)
  have "(3 + (length src + 2)) div 3 = (length src + 2) div 3 + 1" by simp
  moreover have "3 + (length src + 2) = length (a # b # c # src) + 2" by simp
  ultimately have e: "(length (a # b # c # src) + 2) div 3 = (length src + 2) div 3 + 1" by (simp only:)
  show ?case unfolding e using 2 by (simp add: Let_def)
qed (simp_all add: Let_def)

lemma decode_quads_encode: "decode_quads (encode_loop src) = Some src"
proof (induction src rule: encode_loop.induct)
  case (2 a b c src)
  then show ?case using decode_full_quad [of a b c] by (simp add: Let_def)
next
  case (3 a b)
  then show ?case using decode_two_bytes [of a b] by (simp add: Let_def)
next
  case (4 a)
  then show ?case using decode_one_byte [of a] by (simp add: Let_def)
qed simp

lemma encoded_length_eq:
  assumes "n < SIZE_MAX_1"
  shows "EVP_EncodedLength n = (if 4 * ((n + 2) div 3) < SIZE_MAX_1 then Some (4 * ((n + 2) div 3) + 1) else None)"
proof (cases "n + 2 < SIZE_MAX_1")
  case False
  then have "size_add n 2 < n" using assms size_add_overflow_iff [of n 2] by (simp add: SIZE_MAX_1_def)
  moreover have "SIZE_MAX_1 \<le> 4 * ((n + 2) div 3)" using False by (simp add: SIZE_MAX_1_def)
  ultimately show ?thesis by (simp add: EVP_EncodedLength_def)
next
  case True
  define k where "k = (n + 2) div 3"
  have s: "size_add n 2 = n + 2" using True by (rule size_add_eq)
  have e: "EVP_EncodedLength n = (let len2 = (k * 4) mod SIZE_MAX_1
      in if len2 div 4 \<noteq> k then None else if size_add len2 1 < len2 then None else Some (size_add len2 1))"
    unfolding EVP_EncodedLength_def s k_def Let_def by simp
  show ?thesis unfolding e k_def [symmetric]
  proof (cases "4 * k < SIZE_MAX_1")
    case t: True
    then have "4 * k + 1 < SIZE_MAX_1" by (simp add: SIZE_MAX_1_def)
    with t show "(let len2 = (k * 4) mod SIZE_MAX_1
      in if len2 div 4 \<noteq> k then None else if size_add len2 1 < len2 then None else Some (size_add len2 1)) =
      (if 4 * k < SIZE_MAX_1 then Some (4 * k + 1) else None)" by (simp add: Let_def size_add_eq mult.commute)
  next
    case f: False
    have "k * 4 mod SIZE_MAX_1 div 4 \<noteq> k"
    proof
      assume "k * 4 mod SIZE_MAX_1 div 4 = k"
      moreover have "k * 4 mod SIZE_MAX_1 < SIZE_MAX_1" by (simp add: SIZE_MAX_1_def)
      ultimately have "k < SIZE_MAX_1 div 4" by (simp add: SIZE_MAX_1_def)
      with f show False by (simp add: SIZE_MAX_1_def)
    qed
    with f show "(let len2 = (k * 4) mod SIZE_MAX_1
      in if len2 div 4 \<noteq> k then None else if size_add len2 1 < len2 then None else Some (size_add len2 1)) =
      (if 4 * k < SIZE_MAX_1 then Some (4 * k + 1) else None)" by (simp add: Let_def)
  qed
qed

section \<open>Streaming\<close>

text \<open>The specification: whole lines of 48 bytes, each followed by a line feed, and the bytes left over.\<close>

definition leftover :: "u8 list \<Rightarrow> u8 list" where
  "leftover d = drop (48 * (length d div 48)) d"

function enc_lines :: "u8 list \<Rightarrow> u8 list" where
  "enc_lines d = (if length d < 48 then [] else encode_loop (take 48 d) @ [10] @ enc_lines (drop 48 d))"
  by pat_completeness auto
termination
  by (relation "measure length") auto

declare enc_lines.simps [simp del]

lemma length_leftover [simp]: "length (leftover d) = length d mod 48"
  by (simp add: leftover_def minus_mult_div_eq_mod)

lemma leftover_short: "length d < 48 \<Longrightarrow> leftover d = d"
  by (simp add: leftover_def)

lemma leftover_drop: "48 \<le> length d \<Longrightarrow> leftover (drop 48 d) = leftover d"
  by (simp add: leftover_def le_div_geq add.commute)

lemma enc_lines_short: "length d < 48 \<Longrightarrow> enc_lines d = []"
  by (simp add: enc_lines.simps)

lemma enc_lines_app: "enc_lines (d @ e) = enc_lines d @ enc_lines (leftover d @ e)"
  and leftover_app: "leftover (d @ e) = leftover (leftover d @ e)"
proof (induction d rule: enc_lines.induct)
  case (1 d)
  have "enc_lines (d @ e) = enc_lines d @ enc_lines (leftover d @ e) \<and> leftover (d @ e) = leftover (leftover d @ e)"
  proof (cases "length d < 48")
    case True
    then show ?thesis by (simp add: leftover_short enc_lines_short)
  next
    case False
    then have "enc_lines (d @ e) = encode_loop (take 48 d) @ [10] @ enc_lines (drop 48 d @ e)"
      by (subst enc_lines.simps) simp
    moreover have "enc_lines d = encode_loop (take 48 d) @ [10] @ enc_lines (drop 48 d)"
      using False by (subst enc_lines.simps) simp
    moreover have "leftover (drop 48 (d @ e)) = leftover (d @ e)" using False by (intro leftover_drop) simp
    ultimately show ?thesis using 1 [OF False] False by (simp add: leftover_drop)
  qed
  then show "enc_lines (d @ e) = enc_lines d @ enc_lines (leftover d @ e)" "leftover (d @ e) = leftover (leftover d @ e)"
    by simp_all
qed

lemma encode_block_fst: "take (length (encode_loop s)) (encode_loop s @ [0]) = encode_loop s"
  by simp

lemma length_encode_line: "length s = 48 \<Longrightarrow> length (encode_loop s) = 64"
  by (simp add: length_encode_loop)

lemma length_enc_lines: "length (enc_lines d) = 65 * (length d div 48)"
proof (induction d rule: enc_lines.induct)
  case (1 d)
  show ?case
  proof (cases "length d < 48")
    case False
    then have "length (encode_loop (take 48 d)) = 64" by (intro length_encode_line) simp
    with 1 False show ?thesis by (simp add: enc_lines.simps [of d] le_div_geq)
  qed (simp add: enc_lines_short)
qed

lemma encode_lines_eq:
  "tot + 65 * (length inp div 48) < SIZE_MAX_1 \<Longrightarrow>
   encode_lines inp out tot = (True, leftover inp, out @ enc_lines inp, tot + 65 * (length inp div 48))"
proof (induction inp arbitrary: out tot rule: enc_lines.induct)
  case (1 inp)
  show ?case
  proof (cases "length inp < 48")
    case True
    then show ?thesis by (simp add: encode_lines.simps sizeof_ctx_data_def leftover_short enc_lines_short)
  next
    case False
    then have k: "length inp div 48 = length (drop 48 inp) div 48 + 1" by (simp add: le_div_geq)
    have t: "tot + 65 + 65 * (length (drop 48 inp) div 48) < SIZE_MAX_1" using 1(2) unfolding k by simp
    then have s: "size_add tot 65 = tot + 65" by (intro size_add_eq) simp
    have "length (encode_loop (take 48 inp)) = 64" using False by (intro length_encode_line) simp
    then have "encode_lines inp out tot =
        encode_lines (drop 48 inp) (out @ encode_loop (take 48 inp) @ [10]) (tot + 65)"
      using False s by (subst encode_lines.simps) (simp add: sizeof_ctx_data_def EVP_EncodeBlock_def)
    also have "\<dots> = (True, leftover (drop 48 inp), (out @ encode_loop (take 48 inp) @ [10]) @ enc_lines (drop 48 inp),
        tot + 65 + 65 * (length (drop 48 inp) div 48))"
      using 1(1) [OF False t] .
    also have "\<dots> = (True, leftover inp, out @ enc_lines inp, tot + 65 * (length inp div 48))"
      unfolding k using False by (simp add: leftover_drop enc_lines.simps [of inp])
    finally show ?thesis .
  qed
qed

text \<open>What an encoder context holds: the bytes \<open>r\<close> that do not fill a line yet.\<close>

definition holds :: "evp_encode_ctx \<Rightarrow> u8 list \<Rightarrow> bool" where
  "holds ctx r \<longleftrightarrow> length (ec_data ctx) = 48 \<and> length r < 48 \<and> ec_data_used ctx = length r \<and>
     take (length r) (ec_data ctx) = r"

lemma holds_init: "holds EVP_EncodeInit []"
  by (simp add: holds_def EVP_EncodeInit_def sizeof_ctx_data_def)

lemma encode_update:
  assumes h: "holds ctx r" and b: "65 * (length (r @ inp) div 48) \<le> INT_MAX"
  shows "\<exists>ctx'. EVP_EncodeUpdate ctx inp = (ctx', enc_lines (r @ inp), length (enc_lines (r @ inp))) \<and>
    holds ctx' (leftover (r @ inp))"
proof (cases "length inp = 0")
  case True
  with h have "length r < 48" by (simp add: holds_def)
  with True h show ?thesis by (simp add: EVP_EncodeUpdate_def enc_lines_short leftover_short)
next
  case nz: False
  note hd = h [unfolded holds_def]
  show ?thesis
  proof (cases "length inp < 48 - length r")
    case True
    then have s: "length (r @ inp) < 48" by simp
    from True nz hd have "EVP_EncodeUpdate ctx inp = (ctx\<lparr>ec_data := mem_write (ec_data ctx) (length r) inp,
        ec_data_used := length r + length inp\<rparr>, [], 0)"
      by (simp add: EVP_EncodeUpdate_def sizeof_ctx_data_def)
    with s hd show ?thesis by (simp add: enc_lines_short leftover_short holds_def mem_write_def)
  next
    case False
    define ctx1 where "ctx1 = (if length r = 0 then ctx else ctx\<lparr>ec_data := r @ take (48 - length r) inp, ec_data_used := 0\<rparr>)"
    define inp1 where "inp1 = (if length r = 0 then inp else drop (48 - length r) inp)"
    define out1 where "out1 = (if length r = 0 then [] else encode_loop (r @ take (48 - length r) inp) @ [10])"
    have w: "mem_write (ec_data ctx) (length r) (take (48 - length r) inp) = r @ take (48 - length r) inp"
      using hd False by (simp add: mem_write_def)
    have l: "length (encode_loop (r @ take (48 - length r) inp)) = 64" using hd False by (intro length_encode_line) simp
    have first: "(if ec_data_used ctx \<noteq> 0
              then
                (let todo = sizeof_ctx_data - ec_data_used ctx;
                     data = mem_write (ec_data ctx) (ec_data_used ctx) (take todo inp);
                     (dst, encoded) = EVP_EncodeBlock data
                 in (ctx\<lparr>ec_data := data, ec_data_used := 0\<rparr>, drop todo inp,
                     take encoded dst @ [10], encoded + 1))
              else (ctx, inp, [], 0)) = (ctx1, inp1, out1, length out1)"
      using hd w l by (simp add: ctx1_def inp1_def out1_def sizeof_ctx_data_def Let_def EVP_EncodeBlock_def)
    have cat: "out1 @ enc_lines inp1 = enc_lines (r @ inp)" "leftover inp1 = leftover (r @ inp)"
      "length out1 + 65 * (length inp1 div 48) = 65 * (length (r @ inp) div 48)"
    proof -
      have d: "drop 48 (r @ inp) = inp1" "take 48 (r @ inp) = r @ take (48 - length r) inp" if "length r \<noteq> 0"
        using that hd by (simp_all add: inp1_def)
      show "out1 @ enc_lines inp1 = enc_lines (r @ inp)"
        using d False by (cases "length r = 0") (simp_all add: inp1_def out1_def enc_lines.simps [of "r @ inp"])
      show "leftover inp1 = leftover (r @ inp)"
        using d leftover_drop [of "r @ inp"] False by (cases "length r = 0") (simp_all add: inp1_def)
      show "length out1 + 65 * (length inp1 div 48) = 65 * (length (r @ inp) div 48)"
      proof (cases "length r = 0")
        case nr: False
        have "length (r @ inp) = length inp1 + 48" using nr hd False by (simp add: inp1_def)
        then have "length (r @ inp) div 48 = length inp1 div 48 + 1" by (simp only: div_add_self2)
        then show ?thesis unfolding out1_def using nr l by simp
      qed (simp add: inp1_def out1_def)
    qed
    have lines: "encode_lines inp1 out1 (length out1) =
        (True, leftover (r @ inp), enc_lines (r @ inp), 65 * (length (r @ inp) div 48))"
      using encode_lines_eq [of "length out1" inp1 out1] b unfolding cat by (simp add: SIZE_MAX_1_def INT_MAX_def)
    have c1: "length (ec_data ctx1) = 48" using hd False by (simp add: ctx1_def)
    have e: "leftover (r @ inp) = [] \<Longrightarrow> (length r + length inp) mod 48 = 0"
      by (metis length_leftover length_append list.size(3))
    show ?thesis
      using nz False hd b c1 cat(3) e
      unfolding EVP_EncodeUpdate_def first
      by (auto simp: sizeof_ctx_data_def lines holds_def mem_write_def length_enc_lines)
  qed
qed

text \<open>A client that encodes a sequence of chunks, keeping \<^verbatim>\<open>*out_len\<close> bytes of each call, and one that decodes
  a sequence of chunks until a call fails.\<close>

fun encode_chunks :: "evp_encode_ctx \<Rightarrow> u8 list list \<Rightarrow> u8 list" where
  "encode_chunks ctx [] = (case EVP_EncodeFinal ctx of (_, out, n) \<Rightarrow> take n out)"
| "encode_chunks ctx (c # cs) = (case EVP_EncodeUpdate ctx c of (ctx', out, n) \<Rightarrow> take n out @ encode_chunks ctx' cs)"

fun decode_chunks :: "evp_encode_ctx \<Rightarrow> u8 list list \<Rightarrow> u8 list option" where
  "decode_chunks ctx [] = (if EVP_DecodeFinal ctx = 1 then Some [] else None)"
| "decode_chunks ctx (c # cs) =
     (case EVP_DecodeUpdate ctx c of
        (ctx', ret, out, n) \<Rightarrow>
          if ret < 0 then None else (case decode_chunks ctx' cs of None \<Rightarrow> None | Some rest \<Rightarrow> Some (take n out @ rest)))"

definition base64_lines :: "u8 list \<Rightarrow> u8 list" where
  "base64_lines d = enc_lines d @ (if leftover d = [] then [] else encode_loop (leftover d) @ [10])"

lemma encode_chunks_from:
  assumes "holds ctx r" and "\<forall>c\<in>set cs. length c \<le> 1500000000"
  shows "encode_chunks ctx cs = base64_lines (r @ concat cs)"
  using assms
proof (induction cs arbitrary: ctx r)
  case Nil
  then have "length r < 48" "ec_data_used ctx = length r" "take (length r) (ec_data ctx) = r" by (simp_all add: holds_def)
  then show ?case
    by (simp add: EVP_EncodeFinal_def EVP_EncodeBlock_def base64_lines_def enc_lines_short leftover_short)
next
  case (Cons c cs)
  have "length r < 48" "length c \<le> 1500000000" using Cons.prems by (simp_all add: holds_def)
  then have "65 * (length (r @ c) div 48) \<le> INT_MAX" by (simp add: INT_MAX_def)
  then obtain ctx' where u: "EVP_EncodeUpdate ctx c = (ctx', enc_lines (r @ c), length (enc_lines (r @ c)))"
    and h: "holds ctx' (leftover (r @ c))"
    using encode_update [OF Cons.prems(1)] by blast
  have "encode_chunks ctx' cs = base64_lines (leftover (r @ c) @ concat cs)" using Cons.IH [OF h] Cons.prems(2) by simp
  then have "encode_chunks ctx (c # cs) = enc_lines (r @ c) @ base64_lines (leftover (r @ c) @ concat cs)" using u by simp
  also have "\<dots> = base64_lines ((r @ c) @ concat cs)"
    unfolding base64_lines_def enc_lines_app [of "r @ c"] leftover_app [of "r @ c"] by simp
  finally show ?case by simp
qed

subsection \<open>Decoding a stream\<close>

lemma decode_loop_app:
  "decode_update_loop ctx out (xs @ ys) =
     (case decode_update_loop ctx out xs of
        (ctx', ok, out') \<Rightarrow> if ok then decode_update_loop ctx' out' ys else (ctx', ok, out'))"
  by (induction ctx out xs rule: decode_update_loop.induct) (auto simp: Let_def split: option.split)

lemma decode_loop_out:
  "decode_update_loop ctx out xs = (case decode_update_loop ctx [] xs of (ctx', ok, out') \<Rightarrow> (ctx', ok, out @ out'))"
proof (induction xs arbitrary: ctx out)
  case (Cons c xs)
  show ?case
  proof (cases "base64_decode_quad ((ec_data ctx)[ec_data_used ctx := c] ! 0) ((ec_data ctx)[ec_data_used ctx := c] ! 1)
      ((ec_data ctx)[ec_data_used ctx := c] ! 2) ((ec_data ctx)[ec_data_used ctx := c] ! 3)")
    case None
    then show ?thesis using Cons [of _ out] by (auto simp: Let_def)
  next
    case (Some bytes)
    then show ?thesis
      using Cons [of _ out] Cons [of _ "out @ bytes"] Cons [of _ bytes]
      by (auto simp: Let_def split: prod.split)
  qed
qed simp

lemma decode_loop_no_error:
  "\<lbrakk>decode_update_loop ctx out xs = (ctx', True, out'); \<not> ec_error_encountered ctx\<rbrakk> \<Longrightarrow> \<not> ec_error_encountered ctx'"
  by (induction ctx out xs rule: decode_update_loop.induct) (auto simp: Let_def split: option.splits if_splits)

lemma decode_chunks_concat:
  assumes "decode_update_loop ctx [] (concat cs) = (ctx', True, d)" and "\<not> ec_error_encountered ctx"
    and "length d \<le> INT_MAX" and "EVP_DecodeFinal ctx' = 1"
  shows "decode_chunks ctx cs = Some d"
  using assms
proof (induction cs arbitrary: ctx d)
  case (Cons c cs)
  obtain ctx1 ok out where l: "decode_update_loop ctx [] c = (ctx1, ok, out)" by (cases "decode_update_loop ctx [] c")
  with Cons.prems(1) have ok: "ok" and r: "decode_update_loop ctx1 out (concat cs) = (ctx', True, d)"
    by (auto simp: decode_loop_app split: if_splits)
  from r obtain d' where d': "decode_update_loop ctx1 [] (concat cs) = (ctx', True, d')" "d = out @ d'"
    using decode_loop_out [of ctx1 out] by (auto split: prod.splits)
  have e: "\<not> ec_error_encountered ctx1" using decode_loop_no_error [OF _ Cons.prems(2)] l ok by simp
  have "decode_chunks ctx1 cs = Some d'" using Cons.IH [OF d'(1) e] Cons.prems d'(2) by simp
  moreover have "EVP_DecodeUpdate ctx c = (ctx1, if ec_eof_seen ctx1 then 0 else 1, out, length out)"
    using l ok Cons.prems d'(2) by (simp add: EVP_DecodeUpdate_def)
  ultimately show ?case using d'(2) by simp
qed simp

text \<open>The decoder between two quads.\<close>

definition idle :: "evp_encode_ctx \<Rightarrow> bool \<Rightarrow> bool" where
  "idle ctx eof \<longleftrightarrow> length (ec_data ctx) = 48 \<and> ec_data_used ctx = 0 \<and> ec_eof_seen ctx = eof \<and> \<not> ec_error_encountered ctx"

lemma decode_one_quad:
  assumes "idle ctx False" and "\<not> is_base64_space a" "\<not> is_base64_space b" "\<not> is_base64_space c" "\<not> is_base64_space d"
    and "base64_decode_quad a b c d = Some bytes"
  shows "\<exists>ctx'. (\<forall>inp. decode_update_loop ctx out (a # b # c # d # inp) = decode_update_loop ctx' (out @ bytes) inp) \<and>
    idle ctx' (length bytes < 3)"
proof -
  obtain v w x y rest where "ec_data ctx = v # w # x # y # rest"
    using assms(1) Suc_le_length_iff [of 3 "ec_data ctx"] by (auto simp: idle_def Suc_le_length_iff numeral_eq_Suc)
  with assms show ?thesis
    by (intro exI [of _ "ctx\<lparr>ec_data := a # b # c # d # rest, ec_data_used := 0, ec_eof_seen := length bytes < 3\<rparr>"])
      (simp add: idle_def Let_def)
qed

lemma decode_loop_space: "is_base64_space c \<Longrightarrow> decode_update_loop ctx out (c # inp) = decode_update_loop ctx out inp"
  by simp

lemma not_space_pad: "\<not> is_base64_space 61"
  by (simp add: is_base64_space_def)

lemma decode_loop_encode:
  assumes "idle ctx False"
  shows "\<exists>ctx'. (\<forall>inp. decode_update_loop ctx out (encode_loop s @ inp) = decode_update_loop ctx' (out @ s) inp) \<and>
    idle ctx' (length s mod 3 \<noteq> 0)"
  using assms
proof (induction s arbitrary: ctx out rule: encode_loop.induct)
  case (2 a b c src)
  define l where "l = (push_bit 16 (ucast a) OR push_bit 8 (ucast b) OR ucast c :: u32)"
  obtain ctx1 where s: "\<And>inp. decode_update_loop ctx out (conv_bin2ascii (ucast (drop_bit 18 l)) #
      conv_bin2ascii (ucast (drop_bit 12 l)) # conv_bin2ascii (ucast (drop_bit 6 l)) # conv_bin2ascii (ucast l) # inp) =
      decode_update_loop ctx1 (out @ [a, b, c]) inp" and i: "idle ctx1 False"
    using decode_one_quad [OF 2(2) alphabet(3) alphabet(3) alphabet(3) alphabet(3) decode_full_quad [of a b c], of out]
    unfolding l_def by auto
  have e: "encode_loop (a # b # c # src) @ inp = conv_bin2ascii (ucast (drop_bit 18 l)) #
      conv_bin2ascii (ucast (drop_bit 12 l)) # conv_bin2ascii (ucast (drop_bit 6 l)) # conv_bin2ascii (ucast l) #
      (encode_loop src @ inp)" for inp
    by (simp add: Let_def l_def)
  have m: "length (a # b # c # src) mod 3 = length src mod 3" using mod_add_self2 [of "length src" 3] by simp
  obtain ctx' where "\<And>inp. decode_update_loop ctx1 (out @ [a, b, c]) (encode_loop src @ inp) =
      decode_update_loop ctx' ((out @ [a, b, c]) @ src) inp" and "idle ctx' (length src mod 3 \<noteq> 0)"
    using 2(1) [OF refl i, of "out @ [a, b, c]"] by blast
  then show ?case unfolding m e s by auto
next
  case (3 a b)
  show ?case
    using decode_one_quad [OF 3 alphabet(3) alphabet(3) alphabet(3) not_space_pad decode_two_bytes [of a b], of out]
    by (simp add: Let_def)
next
  case (4 a)
  show ?case
    using decode_one_quad [OF 4 alphabet(3) alphabet(3) not_space_pad not_space_pad decode_one_byte [of a], of out]
    by (simp add: Let_def)
qed (auto simp: idle_def)

lemma decode_loop_lines:
  assumes "idle ctx False"
  shows "\<exists>ctx'. (\<forall>inp. decode_update_loop ctx out (enc_lines d @ inp) =
      decode_update_loop ctx' (out @ take (48 * (length d div 48)) d) inp) \<and> idle ctx' False"
  using assms
proof (induction d arbitrary: ctx out rule: enc_lines.induct)
  case (1 d)
  show ?case
  proof (cases "length d < 48")
    case True
    then show ?thesis using 1(2) by (auto simp: enc_lines_short)
  next
    case False
    obtain ctx1 where s: "\<And>inp. decode_update_loop ctx out (encode_loop (take 48 d) @ inp) =
        decode_update_loop ctx1 (out @ take 48 d) inp" and i: "idle ctx1 False"
      using decode_loop_encode [OF 1(2), of out "take 48 d"] False by auto
    obtain ctx2 where t: "\<And>inp. decode_update_loop ctx1 (out @ take 48 d) (enc_lines (drop 48 d) @ inp) =
        decode_update_loop ctx2 ((out @ take 48 d) @ take (48 * (length (drop 48 d) div 48)) (drop 48 d)) inp"
      and j: "idle ctx2 False"
      using 1(1) [OF False i, of "out @ take 48 d"] by auto
    have k: "take 48 d @ take (48 * (length (drop 48 d) div 48)) (drop 48 d) = take (48 * (length d div 48)) d"
      using False by (simp add: le_div_geq flip: take_add)
    have "decode_update_loop ctx out (enc_lines d @ inp) = decode_update_loop ctx2 (out @ take (48 * (length d div 48)) d) inp" for inp
      using False s t k by (simp add: enc_lines.simps [of d] decode_loop_space is_base64_space_def)
    with j show ?thesis by blast
  qed
qed

lemma decode_loop_base64_lines:
  assumes "idle ctx False"
  shows "\<exists>ctx'. decode_update_loop ctx [] (base64_lines d) = (ctx', True, d) \<and> idle ctx' (length d mod 3 \<noteq> 0)"
proof -
  obtain ctx1 where s: "\<And>inp. decode_update_loop ctx [] (enc_lines d @ inp) =
      decode_update_loop ctx1 (take (48 * (length d div 48)) d) inp" and i: "idle ctx1 False"
    using decode_loop_lines [OF assms, of "[]" d] by auto
  obtain ctx2 where t: "\<And>inp. decode_update_loop ctx1 (take (48 * (length d div 48)) d) (encode_loop (leftover d) @ inp) =
      decode_update_loop ctx2 (take (48 * (length d div 48)) d @ leftover d) inp" and j: "idle ctx2 (length (leftover d) mod 3 \<noteq> 0)"
    using decode_loop_encode [OF i] by blast
  have m: "length (leftover d) mod 3 = length d mod 3" by (simp add: mod_mod_cancel)
  have c: "take (48 * (length d div 48)) d @ leftover d = d" by (simp add: leftover_def)
  show ?thesis
  proof (cases "leftover d = []")
    case True
    then show ?thesis using s [of "[]"] i m c by (auto simp: base64_lines_def)
  next
    case False
    then show ?thesis using s t [of "[10]"] j m c by (simp add: base64_lines_def is_base64_space_def)
  qed
qed

section \<open>Properties\<close>

text \<open>Decoding what the encoder writes gives the input back, for every input, whenever the output buffer has
  \<^verbatim>\<open>EVP_DecodedLength\<close> bytes; the zero-padded variant \<^verbatim>\<open>EVP_DecodeBlock\<close> returns it with the padding its
  interface promises.\<close>

lemma base64_roundtrip:
  assumes "EVP_DecodedLength (snd (EVP_EncodeBlock src)) = Some max_len" and "max_len \<le> max_out"
  shows "EVP_DecodeBase64 max_out (take (snd (EVP_EncodeBlock src)) (fst (EVP_EncodeBlock src))) = Some src"
  using assms by (simp add: EVP_EncodeBlock_def EVP_DecodeBase64_def EVP_DecodedLength_def decode_quads_encode
      length_encode_loop split: if_splits)

text \<open>For every length that fits in a \<^verbatim>\<open>size_t\<close>, \<^verbatim>\<open>EVP_EncodedLength\<close> computes exactly the number of bytes
  \<^verbatim>\<open>EVP_EncodeBlock\<close> writes, its terminating zero included, and fails exactly when that number does not fit.\<close>

lemma base64_encoded_length_exact:
  assumes "length src < SIZE_MAX_1"
  shows "EVP_EncodedLength (length src) =
    (if length (fst (EVP_EncodeBlock src)) < SIZE_MAX_1 then Some (length (fst (EVP_EncodeBlock src))) else None)"
proof -
  define k where "k = (length src + 2) div 3"
  have l: "length (fst (EVP_EncodeBlock src)) = 4 * k + 1" by (simp add: EVP_EncodeBlock_def length_encode_loop k_def)
  have "4 * k < SIZE_MAX_1 \<longleftrightarrow> 4 * k + 1 < SIZE_MAX_1" by (simp add: SIZE_MAX_1_def) presburger
  then show ?thesis unfolding encoded_length_eq [OF assms] k_def [symmetric] l by simp
qed

text \<open>C4: The streaming interface is independent of how the data is split. However the input of the encoder and the
  text given to the decoder are cut into chunks, every call succeeds, \<^verbatim>\<open>EVP_DecodeFinal\<close> accepts, and the decoder
  returns the data that was encoded.\<close>

theorem base64_stream_roundtrip:
  assumes "\<forall>c\<in>set chunks. length c \<le> 1500000000" and "length (concat chunks) \<le> INT_MAX"
    and "concat pieces = encode_chunks EVP_EncodeInit chunks"
  shows "decode_chunks EVP_DecodeInit pieces = Some (concat chunks)"
proof -
  have p: "concat pieces = base64_lines (concat chunks)" using encode_chunks_from [OF holds_init assms(1)] assms(3) by simp
  have "idle EVP_DecodeInit False" by (simp add: idle_def EVP_DecodeInit_def EVP_EncodeInit_def sizeof_ctx_data_def)
  from decode_loop_base64_lines [OF this] obtain ctx' where
    "decode_update_loop EVP_DecodeInit [] (concat pieces) = (ctx', True, concat chunks)" and "ec_data_used ctx' = 0"
    and "\<not> ec_error_encountered ctx'"
    unfolding p by (auto simp: idle_def)
  then show ?thesis
    using assms(2) by (intro decode_chunks_concat) (simp_all add: EVP_DecodeFinal_def EVP_DecodeInit_def EVP_EncodeInit_def)
qed

theorem base64_stream_roundtrip_witness:
  "decode_chunks EVP_DecodeInit [encode_chunks EVP_EncodeInit [[1, 2], [], [3, 4, 5]]] = Some [1, 2, 3, 4, 5]"
  using base64_stream_roundtrip [of "[[1, 2], [], [3, 4, 5]]" "[encode_chunks EVP_EncodeInit [[1, 2], [], [3, 4, 5]]]"]
  by (simp add: INT_MAX_def)

text \<open>The constant-time comparisons compute comparisons: the mask is all ones or zero, on every pair of words.\<close>

lemma constant_time_masks:
  "constant_time_lt_w a b = (if a < b then - 1 else 0) \<and> constant_time_ge_w a b = (if b \<le> a then - 1 else 0) \<and>
   constant_time_eq_w a b = (if a = b then - 1 else 0) \<and>
   constant_time_select_w (constant_time_lt_w a b) x y = (if a < b then x else y)"
  by (auto simp: lt_w eq_w constant_time_ge_w_def constant_time_select_w_def)

end
