(* ===== verification/Stack.thy ===== *)
theory Stack
  imports Mem Qsort
begin

text \<open>
  The pointer stack of \<^verbatim>\<open>BoringSSL-GRPC/src/crypto/stack/stack.c\<close>. A \<^verbatim>\<open>void *\<close> element is an \<^typ>\<open>'a option\<close>,
  \<^term>\<open>None\<close> the null pointer, and a \<^verbatim>\<open>_STACK *\<close> argument is an option too. The comparison function stored in the
  stack is a value of type \<open>'c\<close> that the callback \<^verbatim>\<open>call_cmp_func\<close> of the caller, a parameter, applies to two
  elements. The theory shows that the operations implement those of a list, that sorting and binary search are
  correct while the \<^verbatim>\<open>sorted\<close> flag tells the truth, and which operation makes it lie.
\<close>

section \<open>Model\<close>

record ('a, 'c) stack =
  st_num :: nat
  st_data :: "'a option list"
  st_sorted :: bool
  st_num_alloc :: nat
  st_comp :: "'c option"

definition kMinSize :: nat where
  "kMinSize = 4"

text \<open>The sizes of a pointer and of \<^verbatim>\<open>_STACK\<close> on the 64-bit targets.\<close>

definition sizeof_ptr :: nat where
  "sizeof_ptr = 8"

definition sizeof_STACK :: nat where
  "sizeof_STACK = 40"

definition sk_new :: "alloc \<Rightarrow> 'c option \<Rightarrow> ('a, 'c) stack option" where
  "sk_new al cmpf =
     (if OPENSSL_malloc al sizeof_STACK = None then None
      else if OPENSSL_malloc al (sizeof_ptr * kMinSize) = None then None
      else Some \<lparr>st_num = 0, st_data = replicate kMinSize None, st_sorted = False, st_num_alloc = kMinSize,
                 st_comp = cmpf\<rparr>)"

definition sk_new_null :: "alloc \<Rightarrow> ('a, 'c) stack option" where
  "sk_new_null al = sk_new al None"

definition sk_num :: "('a, 'c) stack option \<Rightarrow> nat" where
  "sk_num sk = (case sk of None \<Rightarrow> 0 | Some s \<Rightarrow> st_num s)"

definition sk_zero :: "('a, 'c) stack option \<Rightarrow> ('a, 'c) stack option" where
  "sk_zero sk =
     (case sk of
        None \<Rightarrow> None
      | Some s \<Rightarrow>
          if st_num s = 0 then Some s
          else Some (s\<lparr>st_data := mem_write (st_data s) 0 (replicate (st_num s) None), st_num := 0,
                       st_sorted := False\<rparr>))"

definition sk_value :: "('a, 'c) stack option \<Rightarrow> nat \<Rightarrow> 'a option" where
  "sk_value sk i = (case sk of None \<Rightarrow> None | Some s \<Rightarrow> if st_num s \<le> i then None else st_data s ! i)"


text \<open>The elements handed to \<^verbatim>\<open>call_free_func\<close>, in order, before the stack itself is freed.\<close>

fun pop_free_loop :: "'a option list \<Rightarrow> nat \<Rightarrow> nat \<Rightarrow> 'a list" where
  "pop_free_loop data i 0 = []"
| "pop_free_loop data i (Suc n) =
     (case data ! i of None \<Rightarrow> pop_free_loop data (Suc i) n | Some x \<Rightarrow> x # pop_free_loop data (Suc i) n)"

definition sk_pop_free_ex :: "('a, 'c) stack option \<Rightarrow> 'a list" where
  "sk_pop_free_ex sk = (case sk of None \<Rightarrow> [] | Some s \<Rightarrow> pop_free_loop (st_data s) 0 (st_num s))"

definition sk_pop_free :: "('a, 'c) stack option \<Rightarrow> 'a list" where
  "sk_pop_free sk = sk_pop_free_ex sk"

text \<open>Growing the array: \<^verbatim>\<open>new_alloc\<close> and \<^verbatim>\<open>alloc_size\<close>, with the products reduced as \<^verbatim>\<open>size_t\<close>.\<close>

definition alloc_overflows :: "nat \<Rightarrow> nat \<Rightarrow> bool" where
  "alloc_overflows old new_alloc \<longleftrightarrow>
     new_alloc < old \<or> (new_alloc * sizeof_ptr) mod SIZE_MAX_1 div sizeof_ptr \<noteq> new_alloc"

definition grown_alloc :: "nat \<Rightarrow> nat option" where
  "grown_alloc old =
     (let doubled = (old * 2) mod SIZE_MAX_1;
          new_alloc = (if alloc_overflows old doubled then size_add old 1 else doubled)
      in if alloc_overflows old new_alloc then None else Some new_alloc)"

definition realloc_ptrs :: "alloc \<Rightarrow> 'a option list \<Rightarrow> nat \<Rightarrow> 'a option list option" where
  "realloc_ptrs al data new_alloc =
     (case OPENSSL_malloc al ((new_alloc * sizeof_ptr) mod SIZE_MAX_1) of
        None \<Rightarrow> None
      | Some _ \<Rightarrow> Some (take new_alloc data @ replicate (new_alloc - length data) None))"

definition sk_grow :: "alloc \<Rightarrow> ('a, 'c) stack \<Rightarrow> ('a, 'c) stack option" where
  "sk_grow al s =
     (if st_num_alloc s \<le> size_add (st_num s) 1
      then
        (case grown_alloc (st_num_alloc s) of
           None \<Rightarrow> None
         | Some new_alloc \<Rightarrow>
             (case realloc_ptrs al (st_data s) new_alloc of
                None \<Rightarrow> None
              | Some data \<Rightarrow> Some (s\<lparr>st_data := data, st_num_alloc := new_alloc\<rparr>)))
      else Some s)"

definition sk_insert ::
    "alloc \<Rightarrow> ('a, 'c) stack option \<Rightarrow> 'a option \<Rightarrow> nat \<Rightarrow> nat \<times> ('a, 'c) stack option" where
  "sk_insert al sk p wh =
     (case sk of
        None \<Rightarrow> (0, None)
      | Some s0 \<Rightarrow>
          (case sk_grow al s0 of
             None \<Rightarrow> (0, Some s0)
           | Some s \<Rightarrow>
               (let data =
                      (if st_num s \<le> wh then (st_data s)[st_num s := p]
                       else (mem_move (st_data s) (wh + 1) wh (st_num s - wh))[wh := p])
                in (st_num s + 1,
                    Some (s\<lparr>st_data := data, st_num := st_num s + 1, st_sorted := False\<rparr>)))))"

definition sk_delete :: "('a, 'c) stack option \<Rightarrow> nat \<Rightarrow> 'a option \<times> ('a, 'c) stack option" where
  "sk_delete sk wh =
     (case sk of
        None \<Rightarrow> (None, None)
      | Some s \<Rightarrow>
          if st_num s \<le> wh then (None, Some s)
          else
          (st_data s ! wh,
           Some (s\<lparr>st_data :=
                     (if wh \<noteq> st_num s - 1 then mem_move (st_data s) wh (wh + 1) (st_num s - wh - 1)
                      else st_data s),
                   st_num := st_num s - 1\<rparr>)))"

text \<open>The linear searches: the first index of the next \<open>n\<close> that satisfies a test.\<close>

fun search_loop :: "('e \<Rightarrow> bool) \<Rightarrow> 'e list \<Rightarrow> nat \<Rightarrow> nat \<Rightarrow> nat option" where
  "search_loop test data i 0 = None"
| "search_loop test data i (Suc n) = (if test (data ! i) then Some i else search_loop test data (Suc i) n)"

definition sk_delete_ptr ::
    "('a, 'c) stack option \<Rightarrow> 'a option \<Rightarrow> 'a option \<times> ('a, 'c) stack option" where
  "sk_delete_ptr sk p =
     (case sk of
        None \<Rightarrow> (None, None)
      | Some s \<Rightarrow>
          (case search_loop (\<lambda>e. e = p) (st_data s) 0 (st_num s) of
             None \<Rightarrow> (None, Some s)
           | Some i \<Rightarrow> sk_delete (Some s) i))"

definition sk_is_sorted :: "('a, 'c) stack option \<Rightarrow> bool" where
  "sk_is_sorted sk = (case sk of None \<Rightarrow> True | Some s \<Rightarrow> st_sorted s)"

function sk_bsearch :: "('e \<Rightarrow> int) \<Rightarrow> 'e list \<Rightarrow> nat \<Rightarrow> nat \<Rightarrow> nat option" where
  "sk_bsearch cmp data lo hi =
     (if lo < hi
      then
        (let mid = lo + (hi - lo - 1) div 2; r = cmp (data ! mid)
         in if 0 < r then sk_bsearch cmp data (mid + 1) hi
            else if r < 0 then sk_bsearch cmp data lo mid
            else if hi - lo = 1 then Some mid
            else sk_bsearch cmp data lo (mid + 1))
      else None)"
  by pat_completeness auto
termination
proof (relation "measure (\<lambda>(_, _, lo, hi). hi - lo)", goal_cases)
  case (4 cmp data lo hi mid r)
  then have "(hi - lo - 1) div 2 + 1 < hi - lo" by linarith
  with 4 show ?case by simp
qed auto

declare sk_bsearch.simps [simp del]

definition sk_find ::
    "('c \<Rightarrow> 'a option \<Rightarrow> 'a option \<Rightarrow> int) \<Rightarrow> ('a, 'c) stack option \<Rightarrow> 'a option \<Rightarrow> nat option" where
  "sk_find call_cmp_func sk p =
     (case sk of
        None \<Rightarrow> None
      | Some s \<Rightarrow>
          (case st_comp s of
             None \<Rightarrow> search_loop (\<lambda>e. e = p) (st_data s) 0 (st_num s)
           | Some cmpf \<Rightarrow>
               if p = None then None
               else if \<not> sk_is_sorted (Some s)
               then search_loop (\<lambda>elem. call_cmp_func cmpf p elem = 0) (st_data s) 0 (st_num s)
               else sk_bsearch (call_cmp_func cmpf p) (st_data s) 0 (st_num s)))"

definition sk_shift :: "('a, 'c) stack option \<Rightarrow> 'a option \<times> ('a, 'c) stack option" where
  "sk_shift sk =
     (case sk of None \<Rightarrow> (None, None) | Some s \<Rightarrow> if st_num s = 0 then (None, Some s) else sk_delete (Some s) 0)"

definition sk_push :: "alloc \<Rightarrow> ('a, 'c) stack \<Rightarrow> 'a option \<Rightarrow> nat \<times> ('a, 'c) stack option" where
  "sk_push al s p = sk_insert al (Some s) p (st_num s)"

definition sk_pop :: "('a, 'c) stack option \<Rightarrow> 'a option \<times> ('a, 'c) stack option" where
  "sk_pop sk =
     (case sk of
        None \<Rightarrow> (None, None)
      | Some s \<Rightarrow> if st_num s = 0 then (None, Some s) else sk_delete (Some s) (st_num s - 1))"

definition sk_dup :: "alloc \<Rightarrow> ('a, 'c) stack option \<Rightarrow> ('a, 'c) stack option" where
  "sk_dup al sk =
     (case sk of
        None \<Rightarrow> None
      | Some s \<Rightarrow>
          if OPENSSL_malloc al sizeof_STACK = None then None
          else if OPENSSL_malloc al ((sizeof_ptr * st_num_alloc s) mod SIZE_MAX_1) = None then None
          else Some \<lparr>st_num = st_num s,
                     st_data = take (st_num s) (st_data s) @ replicate (st_num_alloc s - st_num s) None,
                     st_sorted = st_sorted s, st_num_alloc = st_num_alloc s, st_comp = st_comp s\<rparr>)"

definition sk_sort ::
    "('c \<Rightarrow> 'a option \<Rightarrow> 'a option \<Rightarrow> int) \<Rightarrow> ('a, 'c) stack option \<Rightarrow> ('a, 'c) stack option" where
  "sk_sort call_cmp_func sk =
     (case sk of
        None \<Rightarrow> None
      | Some s \<Rightarrow>
          (case st_comp s of
             None \<Rightarrow> Some s
           | Some cmpf \<Rightarrow>
               if st_sorted s then Some s
               else
               Some (s\<lparr>st_data :=
                         (if 2 \<le> st_num s
                          then mem_write (st_data s) 0 (qsort (call_cmp_func cmpf) (take (st_num s) (st_data s)))
                          else st_data s),
                       st_sorted := True\<rparr>)))"

definition sk_set_cmp_func :: "('a, 'c) stack \<Rightarrow> 'c option \<Rightarrow> 'c option \<times> ('a, 'c) stack" where
  "sk_set_cmp_func s cmpf =
     (st_comp s, s\<lparr>st_sorted := (if st_comp s \<noteq> cmpf then False else st_sorted s), st_comp := cmpf\<rparr>)"

text \<open>The copying loop over the data of the duplicate: the data with every element copied, or the elements freed
  when a copy fails.\<close>

fun deep_copy_loop :: "('a \<Rightarrow> 'a option) \<Rightarrow> 'a option list \<Rightarrow> nat \<Rightarrow> nat \<Rightarrow> 'a list + 'a option list" where
  "deep_copy_loop copy data i 0 = Inr data"
| "deep_copy_loop copy data i (Suc n) =
     (case data ! i of
        None \<Rightarrow> deep_copy_loop copy data (Suc i) n
      | Some x \<Rightarrow>
          (case copy x of
             None \<Rightarrow> Inl (pop_free_loop data 0 i)
           | Some y \<Rightarrow> deep_copy_loop copy (data[i := Some y]) (Suc i) n))"

text \<open>The result is the copy and the elements that were freed.\<close>

definition sk_deep_copy ::
    "alloc \<Rightarrow> ('a, 'c) stack option \<Rightarrow> ('a \<Rightarrow> 'a option) \<Rightarrow> ('a, 'c) stack option \<times> 'a list" where
  "sk_deep_copy al sk copy =
     (case sk_dup al sk of
        None \<Rightarrow> (None, [])
      | Some ret \<Rightarrow>
          (case deep_copy_loop copy (st_data ret) 0 (st_num ret) of
             Inl freed \<Rightarrow> (None, freed)
           | Inr data \<Rightarrow> (Some (ret\<lparr>st_data := data\<rparr>), [])))"

section \<open>The stack as a list\<close>

definition sk_list :: "('a, 'c) stack \<Rightarrow> 'a option list" where
  "sk_list s = take (st_num s) (st_data s)"

definition sk_inv :: "('a, 'c) stack \<Rightarrow> bool" where
  "sk_inv s \<longleftrightarrow> length (st_data s) = st_num_alloc s \<and> st_num s < st_num_alloc s \<and> st_num_alloc s * sizeof_ptr < SIZE_MAX_1"

lemma length_sk_list: "sk_inv s \<Longrightarrow> length (sk_list s) = st_num s"
  by (simp add: sk_inv_def sk_list_def)

lemma sk_list_nth: "\<lbrakk>sk_inv s; i < st_num s\<rbrakk> \<Longrightarrow> sk_list s ! i = st_data s ! i"
  by (simp add: sk_list_def)

lemma sk_new_inv: "sk_new al c = Some s \<Longrightarrow> sk_inv s \<and> sk_list s = []"
  by (auto simp: sk_new_def sk_inv_def sk_list_def kMinSize_def sizeof_ptr_def SIZE_MAX_1_def split: if_splits)

lemma grown_alloc_eq:
  assumes "grown_alloc old = Some new"
  shows "old < new \<or> old = 0" and "new * sizeof_ptr < SIZE_MAX_1"
proof -
  have ok: "\<not> alloc_overflows old new" and new: "new = (old * 2) mod SIZE_MAX_1 \<or> new = size_add old 1"
    using assms by (auto simp: grown_alloc_def Let_def split: if_splits)
  have "new * sizeof_ptr mod SIZE_MAX_1 div sizeof_ptr = new" using ok by (simp add: alloc_overflows_def)
  moreover have "new * sizeof_ptr mod SIZE_MAX_1 < SIZE_MAX_1" by (simp add: SIZE_MAX_1_def)
  ultimately show n: "new * sizeof_ptr < SIZE_MAX_1" by (simp add: SIZE_MAX_1_def sizeof_ptr_def)
  show "old < new \<or> old = 0"
  proof (rule ccontr)
    assume c: "\<not> (old < new \<or> old = 0)"
    then have "new = old" using ok by (simp add: alloc_overflows_def)
    with n have "old * 2 < SIZE_MAX_1" "old + 1 < SIZE_MAX_1" by (simp_all add: SIZE_MAX_1_def sizeof_ptr_def)
    with new c \<open>new = old\<close> show False by (simp add: size_add_eq)
  qed
qed

lemma grown_alloc_succeeds: "old * 2 * sizeof_ptr < SIZE_MAX_1 \<Longrightarrow> grown_alloc old \<noteq> None"
  by (simp add: grown_alloc_def Let_def alloc_overflows_def sizeof_ptr_def SIZE_MAX_1_def)

lemma sk_grow_inv:
  assumes "sk_inv s" and "sk_grow al s = Some s'"
  shows "sk_inv s'" "sk_list s' = sk_list s" "st_num s' = st_num s" "st_num s + 1 < st_num_alloc s'"
    "st_comp s' = st_comp s"
proof -
  have n: "size_add (st_num s) 1 = st_num s + 1"
    using assms(1) by (intro size_add_eq) (simp add: sk_inv_def sizeof_ptr_def SIZE_MAX_1_def)
  have "sk_inv s' \<and> sk_list s' = sk_list s \<and> st_num s' = st_num s \<and> st_num s + 1 < st_num_alloc s' \<and> st_comp s' = st_comp s"
  proof (cases "st_num_alloc s \<le> st_num s + 1")
    case False
    with assms n show ?thesis by (auto simp: sk_grow_def)
  next
    case True
    then obtain new where g: "grown_alloc (st_num_alloc s) = Some new"
      and d: "s' = s\<lparr>st_data := take new (st_data s) @ replicate (new - length (st_data s)) None, st_num_alloc := new\<rparr>"
      using assms(2) n by (auto simp: sk_grow_def realloc_ptrs_def split: option.splits)
    have "st_num_alloc s < new" using grown_alloc_eq(1) [OF g] assms(1) by (auto simp: sk_inv_def)
    with grown_alloc_eq(2) [OF g] assms(1) show ?thesis by (auto simp: d sk_inv_def sk_list_def)
  qed
  then show "sk_inv s'" "sk_list s' = sk_list s" "st_num s' = st_num s" "st_num s + 1 < st_num_alloc s'"
    "st_comp s' = st_comp s" by simp_all
qed

lemma sk_insert_cases:
  assumes "sk_inv s"
  obtains (failed) "sk_insert al (Some s) p wh = (0, Some s)" "sk_grow al s = None"
  | (inserted) s' where "sk_insert al (Some s) p wh = (length (sk_list s) + 1, Some s')" "sk_inv s'"
      "sk_list s' = take wh (sk_list s) @ p # drop wh (sk_list s)" "\<not> st_sorted s'" "st_comp s' = st_comp s"
      "sk_grow al s \<noteq> None"
proof (cases "sk_grow al s")
  case None
  then show ?thesis by (intro failed) (simp_all add: sk_insert_def)
next
  case (Some g)
  note g = sk_grow_inv [OF assms Some]
  define data where "data = (if st_num g \<le> wh then (st_data g)[st_num g := p]
      else (mem_move (st_data g) (wh + 1) wh (st_num g - wh))[wh := p])"
  have l: "length (st_data g) = st_num_alloc g" "st_num g + 1 < st_num_alloc g" using g by (simp_all add: sk_inv_def)
  have len: "length data = st_num_alloc g"
    using l by (auto simp: data_def mem_move_def mem_write_def)
  have elems: "take (st_num g + 1) data = take wh (sk_list g) @ p # drop wh (sk_list g)"
  proof (cases "st_num g \<le> wh")
    case True
    then show ?thesis using l by (simp add: data_def sk_list_def take_Suc_conv_app_nth)
  next
    case False
    then have "data = take wh (st_data g) @ p # take (st_num g - wh) (drop wh (st_data g)) @ drop (st_num g + 1) (st_data g)"
      using l by (simp add: data_def mem_move_def mem_write_def list_update_append take_Suc_conv_app_nth)
    then show ?thesis using False l by (simp add: sk_list_def min_def drop_take Suc_diff_le)
  qed
  show ?thesis
  proof (rule inserted)
    show "sk_insert al (Some s) p wh = (length (sk_list s) + 1,
        Some (g\<lparr>st_data := data, st_num := st_num g + 1, st_sorted := False\<rparr>))"
      using Some g assms by (simp add: sk_insert_def data_def length_sk_list)
  qed (use g l len elems Some in \<open>simp_all add: sk_inv_def sk_list_def [of "_\<lparr>st_data := _, st_num := _, st_sorted := _\<rparr>"]\<close>)
qed

lemma sk_delete_eq:
  assumes "sk_inv s" and "wh < length (sk_list s)"
  obtains s' where "sk_delete (Some s) wh = (sk_list s ! wh, Some s')" "sk_inv s'"
    "sk_list s' = take wh (sk_list s) @ drop (Suc wh) (sk_list s)" "st_sorted s' = st_sorted s" "st_comp s' = st_comp s"
proof -
  define data where "data = (if wh \<noteq> st_num s - 1 then mem_move (st_data s) wh (wh + 1) (st_num s - wh - 1) else st_data s)"
  have l: "length (st_data s) = st_num_alloc s" "wh < st_num s" "st_num s < st_num_alloc s"
    using assms by (simp_all add: sk_inv_def length_sk_list sk_list_def)
  have len: "length data = st_num_alloc s" using l by (auto simp: data_def mem_move_def mem_write_def)
  have elems: "take (st_num s - 1) data = take wh (sk_list s) @ drop (Suc wh) (sk_list s)"
  proof (cases "wh = st_num s - 1")
    case True
    then show ?thesis using l by (simp add: data_def sk_list_def min_def)
  next
    case False
    with l have "\<not> st_num_alloc s - Suc wh \<le> st_num s - Suc wh" "\<not> st_num s - Suc 0 \<le> wh" by linarith+
    with False l show ?thesis by (simp add: data_def mem_move_def mem_write_def sk_list_def min_def drop_take)
  qed
  show ?thesis
  proof (rule that)
    show "sk_delete (Some s) wh = (sk_list s ! wh, Some (s\<lparr>st_data := data, st_num := st_num s - 1\<rparr>))"
      using l by (simp add: sk_delete_def data_def sk_list_def)
  qed (use l len elems assms in \<open>simp_all add: sk_inv_def sk_list_def [of "_\<lparr>st_data := _, st_num := _\<rparr>"]\<close>)
qed

section \<open>The interface of an indexed list\<close>

text \<open>What clients of a stack rely on: insertion and deletion by index on the abstract list.\<close>

locale indexed_list =
  fixes elems :: "'s \<Rightarrow> 'e list"
    and ok :: "'s \<Rightarrow> bool"
    and ins :: "'s \<Rightarrow> 'e \<Rightarrow> nat \<Rightarrow> 's option"
    and del :: "'s \<Rightarrow> nat \<Rightarrow> ('e \<times> 's) option"
  assumes ins_elems: "\<lbrakk>ok s; ins s x i = Some s'\<rbrakk> \<Longrightarrow> elems s' = take i (elems s) @ x # drop i (elems s)"
    and ins_ok: "\<lbrakk>ok s; ins s x i = Some s'\<rbrakk> \<Longrightarrow> ok s'"
    and del_elems: "\<lbrakk>ok s; i < length (elems s)\<rbrakk> \<Longrightarrow>
      \<exists>s'. del s i = Some (elems s ! i, s') \<and> ok s' \<and> elems s' = take i (elems s) @ drop (Suc i) (elems s)"
begin

lemma ins_then_del:
  assumes "ok s" and "ins s x i = Some s'" and "i \<le> length (elems s)"
  shows "\<exists>s''. del s' i = Some (x, s'') \<and> ok s'' \<and> elems s'' = elems s"
proof -
  have e: "elems s' = take i (elems s) @ x # drop i (elems s)" using ins_elems assms by blast
  have "i < length (elems s')" using e assms(3) by simp
  from del_elems [OF ins_ok [OF assms(1,2)] this] show ?thesis
    using assms(3) by (auto simp: e nth_append min_def)
qed

text \<open>A run of insertions at the end, then a run of deletions at the end.\<close>

lemma push_all:
  assumes "ok s" and "foldl (\<lambda>t x. Option.bind t (\<lambda>u. ins u x (length (elems u)))) (Some s) xs = Some s'"
  shows "ok s' \<and> elems s' = elems s @ xs"
  using assms
proof (induction xs arbitrary: s)
  case (Cons x xs)
  show ?case
  proof (cases "ins s x (length (elems s))")
    case None
    have "foldl (\<lambda>t x. Option.bind t (\<lambda>u. ins u x (length (elems u)))) None xs = None" by (induction xs) simp_all
    with None Cons.prems show ?thesis by simp
  next
    case (Some t)
    with Cons.prems have "ok s' \<and> elems s' = elems t @ xs" using ins_ok by (intro Cons.IH) auto
    with ins_elems [OF Cons.prems(1) Some] show ?thesis by simp
  qed
qed simp

end

definition insert_at :: "alloc \<Rightarrow> ('a, 'c) stack \<Rightarrow> 'a option \<Rightarrow> nat \<Rightarrow> ('a, 'c) stack option" where
  "insert_at al s p wh = (case sk_insert al (Some s) p wh of (n, sk) \<Rightarrow> if n = 0 then None else sk)"

definition delete_at :: "('a, 'c) stack \<Rightarrow> nat \<Rightarrow> ('a option \<times> ('a, 'c) stack) option" where
  "delete_at s wh = (case sk_delete (Some s) wh of (p, sk) \<Rightarrow> map_option (Pair p) sk)"

interpretation sk: indexed_list sk_list sk_inv "insert_at al" delete_at for al
proof
  fix s :: "('a, 'c) stack" and x i s'
  assume "sk_inv s" "insert_at al s x i = Some s'"
  then show "sk_list s' = take i (sk_list s) @ x # drop i (sk_list s)" "sk_inv s'"
    by (cases rule: sk_insert_cases [of s al x i]; auto simp: insert_at_def)+
next
  fix s :: "('a, 'c) stack" and i
  assume "sk_inv s" "i < length (sk_list s)"
  then show "\<exists>s'. delete_at s i = Some (sk_list s ! i, s') \<and> sk_inv s' \<and>
      sk_list s' = take i (sk_list s) @ drop (Suc i) (sk_list s)"
    by (rule sk_delete_eq) (simp add: delete_at_def)
qed

text \<open>A client that pushes a list of elements, and one that pops \<open>n\<close>.\<close>

fun push_list :: "alloc \<Rightarrow> ('a, 'c) stack \<Rightarrow> 'a option list \<Rightarrow> ('a, 'c) stack option" where
  "push_list al s [] = Some s"
| "push_list al s (x # xs) =
     (case sk_push al s x of (n, sk) \<Rightarrow> if n = 0 then None else Option.bind sk (\<lambda>s'. push_list al s' xs))"

fun pop_list :: "('a, 'c) stack option \<Rightarrow> nat \<Rightarrow> 'a option list \<times> ('a, 'c) stack option" where
  "pop_list sk 0 = ([], sk)"
| "pop_list sk (Suc n) = (case sk_pop sk of (x, sk') \<Rightarrow> (case pop_list sk' n of (xs, r) \<Rightarrow> (x # xs, r)))"

lemma push_list_inv:
  "\<lbrakk>sk_inv s; push_list al s xs = Some s'\<rbrakk> \<Longrightarrow> sk_inv s' \<and> sk_list s' = sk_list s @ xs"
proof (induction xs arbitrary: s)
  case (Cons x xs)
  from Cons.prems obtain t where t: "insert_at al s x (length (sk_list s)) = Some t" "push_list al t xs = Some s'"
    by (auto simp: sk_push_def insert_at_def length_sk_list split: prod.splits if_splits bind_splits)
  have "sk_inv t" "sk_list t = sk_list s @ [x]"
    using sk.ins_ok [OF Cons.prems(1) t(1)] sk.ins_elems [OF Cons.prems(1) t(1)] by simp_all
  with Cons.IH [OF _ t(2)] show ?case by simp
qed simp

lemma pop_list_inv:
  "\<lbrakk>sk_inv s; sk_list s = ys @ xs\<rbrakk> \<Longrightarrow> \<exists>s'. pop_list (Some s) (length xs) = (rev xs, Some s') \<and> sk_inv s' \<and> sk_list s' = ys"
proof (induction xs arbitrary: s rule: rev_induct)
  case (snoc x xs)
  have n: "st_num s = Suc (length (ys @ xs))" using snoc.prems length_sk_list [of s] by simp
  have i: "length (ys @ xs) < length (sk_list s)" using snoc.prems by simp
  obtain s' where "sk_delete (Some s) (length (ys @ xs)) = (sk_list s ! length (ys @ xs), Some s')" "sk_inv s'"
    "sk_list s' = take (length (ys @ xs)) (sk_list s) @ drop (Suc (length (ys @ xs))) (sk_list s)"
    using sk_delete_eq [OF snoc.prems(1) i] by metis
  then have d: "sk_delete (Some s) (st_num s - 1) = (x, Some s')" "sk_inv s'" "sk_list s' = ys @ xs"
    using snoc.prems(2) n by (simp_all add: nth_append)
  obtain s'' where "pop_list (Some s') (length xs) = (rev xs, Some s'')" "sk_inv s''" "sk_list s'' = ys"
    using snoc.IH [OF d(2,3)] by blast
  then show ?case using d(1) n by (simp add: sk_pop_def)
qed simp

section \<open>Searching\<close>

lemma search_loop_iff:
  "search_loop test data i n = Some k \<longleftrightarrow> i \<le> k \<and> k < i + n \<and> test (data ! k) \<and> (\<forall>j. i \<le> j \<and> j < k \<longrightarrow> \<not> test (data ! j))"
proof (induction n arbitrary: i)
  case (Suc n)
  show ?case
  proof (cases "test (data ! i)")
    case True
    then show ?thesis by (auto simp: le_less)
  next
    case False
    have "i \<le> j \<longleftrightarrow> j = i \<or> Suc i \<le> j" for j by auto
    with False show ?thesis using Suc [of "Suc i"] by auto
  qed
qed auto

context compare_order
begin

lemma bsearch_iff:
  "sorted_wrt (\<lambda>a b. cmp a b \<le> 0) (take hi data) \<Longrightarrow> hi \<le> length data \<Longrightarrow>
   sk_bsearch (cmp p) data lo hi = Some k \<longleftrightarrow>
     lo \<le> k \<and> k < hi \<and> cmp p (data ! k) = 0 \<and> (\<forall>j. lo \<le> j \<and> j < k \<longrightarrow> cmp p (data ! j) \<noteq> 0)"
proof (induction "cmp p" data lo hi rule: sk_bsearch.induct)
  case (1 data lo hi)
  define mid where "mid = lo + (hi - lo - 1) div 2"
  have le: "cmp (data ! i) (data ! j) \<le> 0" if "i < j" "j < hi" for i j
    using 1(4) 1(5) that sorted_wrt_nth_less [OF 1(4), of i j] by simp
  show ?case
  proof (cases "lo < hi")
    case False
    then show ?thesis by (simp add: sk_bsearch.simps)
  next
    case True
    then have mid: "lo \<le> mid" "mid < hi" unfolding mid_def by linarith+
    consider "0 < cmp p (data ! mid)" | "cmp p (data ! mid) < 0" | "cmp p (data ! mid) = 0" "hi - lo = 1"
      | "cmp p (data ! mid) = 0" "hi - lo \<noteq> 1" by linarith
    then show ?thesis
    proof cases
      case a: 1
      have no: "0 < cmp p (data ! j)" if "j \<le> mid" for j
        using that a le [of j mid] above_trans mid by (cases "j = mid") auto
      have "sk_bsearch (cmp p) data lo hi = sk_bsearch (cmp p) data (mid + 1) hi"
        using True a by (subst sk_bsearch.simps) (simp add: Let_def mid_def)
      moreover have "lo \<le> k \<and> cmp p (data ! k) = 0 \<longleftrightarrow> mid + 1 \<le> k \<and> cmp p (data ! k) = 0"
        using no [of k] mid by force
      moreover have "(lo \<le> j \<and> j < k \<longrightarrow> cmp p (data ! j) \<noteq> 0) \<longleftrightarrow> (mid + 1 \<le> j \<and> j < k \<longrightarrow> cmp p (data ! j) \<noteq> 0)" for j
        using no [of j] mid by force
      moreover note 1(1) [OF True mid_def refl a 1(4,5)]
      ultimately show ?thesis by simp metis
    next
      case b: 2
      have no: "cmp p (data ! j) < 0" if "mid \<le> j" "j < hi" for j
        using that b le [of mid j] below_trans by (cases "j = mid") auto
      have "sk_bsearch (cmp p) data lo hi = sk_bsearch (cmp p) data lo mid"
        using True b by (subst sk_bsearch.simps) (simp add: Let_def mid_def)
      moreover have "sorted_wrt (\<lambda>a b. cmp a b \<le> 0) (take mid data)" "mid \<le> length data"
        using 1(4,5) mid sorted_wrt_take [of _ "take hi data" mid] by (auto simp: min_def)
      moreover have "k < hi \<and> cmp p (data ! k) = 0 \<longleftrightarrow> k < mid \<and> cmp p (data ! k) = 0"
        using no [of k] mid by force
      ultimately show ?thesis using 1(2) [OF True mid_def refl] b by auto
    next
      case c: 3
      then have "mid = lo" "hi = lo + 1" using True by (simp_all add: mid_def)
      then show ?thesis using c by (subst sk_bsearch.simps) (auto simp: Let_def)
    next
      case d: 4
      have "sk_bsearch (cmp p) data lo hi = sk_bsearch (cmp p) data lo (mid + 1)"
        using True d by (subst sk_bsearch.simps) (simp add: Let_def mid_def)
      moreover have "sorted_wrt (\<lambda>a b. cmp a b \<le> 0) (take (mid + 1) data)" "mid + 1 \<le> length data"
        using 1(4,5) mid sorted_wrt_take [of _ "take hi data" "mid + 1"] by (auto simp: min_def)
      ultimately show ?thesis using 1(3) [OF True mid_def refl] d mid by auto
    qed
  qed
qed

lemma bsearch_is_search:
  assumes "sorted_wrt (\<lambda>a b. cmp a b \<le> 0) (take n data)" and "n \<le> length data"
  shows "sk_bsearch (cmp p) data 0 n = search_loop (\<lambda>e. cmp p e = 0) data 0 n"
proof (rule option.expand)
  have "sk_bsearch (cmp p) data 0 n = Some k \<longleftrightarrow> search_loop (\<lambda>e. cmp p e = 0) data 0 n = Some k" for k
    unfolding search_loop_iff bsearch_iff [OF assms] by simp
  then show "(sk_bsearch (cmp p) data 0 n = None) = (search_loop (\<lambda>e. cmp p e = 0) data 0 n = None)"
    "\<lbrakk>sk_bsearch (cmp p) data 0 n \<noteq> None; search_loop (\<lambda>e. cmp p e = 0) data 0 n \<noteq> None\<rbrakk> \<Longrightarrow>
      the (sk_bsearch (cmp p) data 0 n) = the (search_loop (\<lambda>e. cmp p e = 0) data 0 n)"
    by (metis option.exhaust_sel option.simps(3), metis option.exhaust_sel)
qed

end

text \<open>The flag tells the truth when the elements are in ascending order whenever it is set.\<close>

definition flag_true :: "('c \<Rightarrow> 'a option \<Rightarrow> 'a option \<Rightarrow> int) \<Rightarrow> ('a, 'c) stack \<Rightarrow> bool" where
  "flag_true call s \<longleftrightarrow>
     (case st_comp s of None \<Rightarrow> True | Some c \<Rightarrow> st_sorted s \<longrightarrow> sorted_wrt (\<lambda>a b. call c a b \<le> 0) (sk_list s))"

lemma search_elems: "search_loop test data 0 n = search_loop test (take n data) 0 n"
proof -
  have "search_loop test data i m = search_loop test (take n data) i m" if "i + m \<le> n" for i m
    using that by (induction m arbitrary: i) auto
  then show ?thesis by simp
qed

lemma find_is_search:
  assumes "sk_inv s" and "st_comp s = Some c" and "flag_true call s" and "compare_order (call c)"
  shows "sk_find call (Some s) (Some x) = search_loop (\<lambda>e. call c (Some x) e = 0) (sk_list s) 0 (length (sk_list s))"
proof -
  have l: "search_loop (\<lambda>e. call c (Some x) e = 0) (st_data s) 0 (st_num s) =
      search_loop (\<lambda>e. call c (Some x) e = 0) (sk_list s) 0 (length (sk_list s))"
    using search_elems [of _ "st_data s" "st_num s"] by (simp add: length_sk_list [OF assms(1)] flip: sk_list_def)
  have "sorted_wrt (\<lambda>a b. call c a b \<le> 0) (take (st_num s) (st_data s))" if "st_sorted s"
    using that assms(2,3) by (simp add: flag_true_def sk_list_def)
  moreover have "st_num s \<le> length (st_data s)" using assms(1) by (simp add: sk_inv_def)
  ultimately show ?thesis
    using l assms(2) compare_order.bsearch_is_search [OF assms(4)] by (simp add: sk_find_def sk_is_sorted_def)
qed

lemma sk_sort_sorts:
  assumes "sk_inv s" and "st_comp s = Some c" and "flag_true call s" and "compare_order (call c)"
  obtains s' where "sk_sort call (Some s) = Some s'" "sk_inv s'" "st_comp s' = Some c" "st_sorted s'"
    "mset (sk_list s') = mset (sk_list s)" "sorted_wrt (\<lambda>a b. call c a b \<le> 0) (sk_list s')"
proof (cases "st_sorted s")
  case True
  then show ?thesis using assms that by (simp add: sk_sort_def flag_true_def)
next
  case False
  have so: "sort_order (call c)" using assms(4) by (rule compare_order.axioms(1))
  define q where "q = qsort (call c) (sk_list s)"
  have q: "mset q = mset (sk_list s)" "sorted_wrt (\<lambda>a b. call c a b \<le> 0) q"
    unfolding q_def by (rule sort_order.qsort_perm [OF so], rule sort_order.qsort_sorted [OF so])
  have n: "length q = st_num s" using q(1) length_sk_list [OF assms(1)] by (metis size_mset)
  define s' where "s' = s\<lparr>st_data := (if 2 \<le> st_num s then mem_write (st_data s) 0 q else st_data s), st_sorted := True\<rparr>"
  have e: "sk_list s' = (if 2 \<le> st_num s then q else sk_list s)"
    using n by (simp add: s'_def sk_list_def mem_write_def)
  have i: "sk_inv s'" using assms(1) n by (auto simp: s'_def sk_inv_def mem_write_def)
  show ?thesis
  proof (rule that)
    show "sk_sort call (Some s) = Some s'"
      using False assms(2) by (simp add: sk_sort_def s'_def q_def sk_list_def)
    show "sorted_wrt (\<lambda>a b. call c a b \<le> 0) (sk_list s')"
    proof (cases "2 \<le> st_num s")
      case False
      then have "length (sk_list s) \<le> 1" using length_sk_list [OF assms(1)] by simp
      then show ?thesis using e False by (cases "sk_list s") auto
    qed (use e q in simp)
  qed (use i e q assms in \<open>simp_all add: s'_def\<close>)
qed

subsection \<open>Deep copies\<close>

lemma pop_free_eq: "i + n \<le> length data \<Longrightarrow> pop_free_loop data i n = List.map_filter (\<lambda>e. e) (take n (drop i data))"
proof (induction n arbitrary: i)
  case (Suc n)
  then have "take (Suc n) (drop i data) = data ! i # take n (drop (Suc i) data)" by (simp add: take_Suc_conv_app_nth Cons_nth_drop_Suc [symmetric])
  then show ?case using Suc by (simp add: List.map_filter_def split: option.split)
qed (simp add: List.map_filter_def)

lemma deep_copy_step:
  assumes "\<forall>y. data ! i = Some y \<longrightarrow> copy y \<noteq> None"
  shows "deep_copy_loop copy data i (Suc n) = deep_copy_loop copy (data[i := Option.bind (data ! i) copy]) (Suc i) n"
  using assms list_update_id [of data i] by (cases "data ! i") (auto split: option.splits)

lemma deep_copy_loop_ok:
  assumes "i + n \<le> length data" and "\<forall>x. Some x \<in> set (take n (drop i data)) \<longrightarrow> copy x \<noteq> None"
  shows "deep_copy_loop copy data i n =
    Inr (take i data @ map (\<lambda>e. Option.bind e copy) (take n (drop i data)) @ drop (i + n) data)"
  using assms
proof (induction n arbitrary: i data)
  case (Suc n)
  have i: "i < length data" using Suc.prems(1) by simp
  have t: "take (Suc n) (drop i data) = data ! i # take n (drop (Suc i) data)"
    using i by (simp flip: Cons_nth_drop_Suc)
  define data' where "data' = data[i := Option.bind (data ! i) copy]"
  have "deep_copy_loop copy data i (Suc n) = deep_copy_loop copy data' (Suc i) n"
    using Suc.prems(2) unfolding t data'_def by (intro deep_copy_step) auto
  also have "\<dots> = Inr (take (Suc i) data' @ map (\<lambda>e. Option.bind e copy) (take n (drop (Suc i) data')) @ drop (Suc i + n) data')"
    using Suc.prems t by (intro Suc.IH) (auto simp: data'_def)
  also have "take (Suc i) data' = take i data @ [Option.bind (data ! i) copy]"
    using i by (simp add: data'_def take_Suc_conv_app_nth)
  finally show ?case unfolding t by (simp add: data'_def)
qed simp

lemma deep_copy_loop_fails:
  assumes "i + n \<le> length data" and "k < n" and "data ! (i + k) = Some x" and "copy x = None"
    and "\<forall>j<k. \<forall>y. data ! (i + j) = Some y \<longrightarrow> copy y \<noteq> None"
  shows "deep_copy_loop copy data i n =
    Inl (List.map_filter (\<lambda>e. e) (take i data @ map (\<lambda>e. Option.bind e copy) (take k (drop i data))))"
  using assms
proof (induction n arbitrary: i data k)
  case (Suc n)
  have i: "i < length data" using Suc.prems(1) by simp
  show ?case
  proof (cases k)
    case 0
    then show ?thesis using Suc.prems i by (simp add: pop_free_eq)
  next
    case (Suc k')
    define data' where "data' = data[i := Option.bind (data ! i) copy]"
    have t: "take (Suc k') (drop i data) = data ! i # take k' (drop (Suc i) data)"
      using i by (simp flip: Cons_nth_drop_Suc)
    have c: "\<forall>y. data ! i = Some y \<longrightarrow> copy y \<noteq> None" using Suc.prems(5) Suc by force
    have "deep_copy_loop copy data i (Suc n) = deep_copy_loop copy data' (Suc i) n"
      using c unfolding data'_def by (rule deep_copy_step)
    also have "\<dots> = Inl (List.map_filter (\<lambda>e. e) (take (Suc i) data' @ map (\<lambda>e. Option.bind e copy) (take k' (drop (Suc i) data'))))"
    proof (rule Suc.IH)
      show "\<forall>j<k'. \<forall>y. data' ! (Suc i + j) = Some y \<longrightarrow> copy y \<noteq> None"
        using Suc.prems(5) Suc unfolding data'_def by (auto dest: spec [of _ "Suc _"])
    qed (use Suc.prems Suc in \<open>auto simp: data'_def\<close>)
    also have "take (Suc i) data' = take i data @ [Option.bind (data ! i) copy]"
      using i by (simp add: data'_def take_Suc_conv_app_nth)
    finally show ?thesis unfolding Suc t by (simp add: data'_def)
  qed
qed simp

lemma sk_dup_inv:
  assumes "sk_inv s" and "sk_dup al (Some s) = Some d"
  shows "sk_inv d" "sk_list d = sk_list s" "st_num d = st_num s" "st_sorted d = st_sorted s" "st_comp d = st_comp s"
  using assms by (auto simp: sk_dup_def sk_inv_def sk_list_def split: if_splits)

lemma sk_grow_succeeds:
  "(\<forall>n. al n) \<and> st_num_alloc s * 2 * sizeof_ptr + OPENSSL_MALLOC_PREFIX < SIZE_MAX_1 \<longrightarrow> sk_grow al s \<noteq> None"
  by (auto simp: sk_grow_def realloc_ptrs_def OPENSSL_malloc_def grown_alloc_def Let_def alloc_overflows_def
      size_add_def sizeof_ptr_def OPENSSL_MALLOC_PREFIX_def SIZE_MAX_1_def split: option.split)

section \<open>Properties\<close>

text \<open>C16: The stack refines a list. Insertion puts the element at its index, or at the end when the index is beyond it,
  and returns the new length; when memory runs out it returns zero and leaves the stack as it was, and it cannot fail while
  the allocator grants memory and twice the array is addressable. Deletion removes the element and returns it.
  Both keep the array large enough.\<close>

theorem stack_refines_list:
  assumes "sk_inv s"
  shows "(\<exists>n s'. sk_insert al (Some s) p wh = (n, Some s') \<and> sk_inv s' \<and>
      (if n = 0 then s' = s
       else n = length (sk_list s) + 1 \<and> sk_list s' = take wh (sk_list s) @ p # drop wh (sk_list s))) \<and>
    ((\<forall>n. al n) \<and> st_num_alloc s * 2 * sizeof_ptr + OPENSSL_MALLOC_PREFIX < SIZE_MAX_1 \<longrightarrow>
      fst (sk_insert al (Some s) p wh) \<noteq> 0) \<and>
    (wh < length (sk_list s) \<longrightarrow>
      (\<exists>s'. sk_delete (Some s) wh = (sk_list s ! wh, Some s') \<and> sk_inv s' \<and>
        sk_list s' = take wh (sk_list s) @ drop (Suc wh) (sk_list s)))"
proof (intro conjI impI)
  show "\<exists>n s'. sk_insert al (Some s) p wh = (n, Some s') \<and> sk_inv s' \<and>
      (if n = 0 then s' = s
       else n = length (sk_list s) + 1 \<and> sk_list s' = take wh (sk_list s) @ p # drop wh (sk_list s))"
    by (rule sk_insert_cases [OF assms, of al p wh]) (use assms in auto)
next
  assume a: "(\<forall>n. al n) \<and> st_num_alloc s * 2 * sizeof_ptr + OPENSSL_MALLOC_PREFIX < SIZE_MAX_1"
  then have g: "sk_grow al s \<noteq> None" by (rule sk_grow_succeeds [rule_format])
  show "fst (sk_insert al (Some s) p wh) \<noteq> 0"
    by (rule sk_insert_cases [OF assms, of al p wh]) (use g in auto)
next
  assume "wh < length (sk_list s)"
  then show "\<exists>s'. sk_delete (Some s) wh = (sk_list s ! wh, Some s') \<and> sk_inv s' \<and>
      sk_list s' = take wh (sk_list s) @ drop (Suc wh) (sk_list s)"
    using sk_delete_eq [OF assms] by metis
qed

theorem stack_refines_list_witness:
  "\<exists>s s' :: (nat, unit) stack. sk_insert (\<lambda>_. True) (Some s) (Some 7) 5 = (1, Some s') \<and> sk_list s' = [Some 7]"
proof -
  let ?al = "\<lambda>_ :: nat. True"
  obtain s :: "(nat, unit) stack" where s: "sk_new ?al None = Some s" "st_num_alloc s = 4"
    by (simp add: sk_new_def OPENSSL_malloc_def OPENSSL_MALLOC_PREFIX_def size_add_def SIZE_MAX_1_def sizeof_STACK_def
        sizeof_ptr_def kMinSize_def)
  have i: "sk_inv s" "sk_list s = []" using sk_new_inv [OF s(1)] by simp_all
  show ?thesis
    using stack_refines_list [OF i(1), of ?al "Some 7" 5] i(2) s(2)
    by (rule_tac x = s in exI) (auto simp: sizeof_ptr_def OPENSSL_MALLOC_PREFIX_def SIZE_MAX_1_def)
qed

text \<open>Last in, first out: after a sequence of successful pushes, as many pops return the pushed elements in reverse and
  leave the elements that were there before.\<close>

lemma stack_lifo:
  assumes "sk_inv s" and "push_list al s xs = Some s'"
  shows "\<exists>s''. pop_list (Some s') (length xs) = (rev xs, Some s'') \<and> sk_inv s'' \<and> sk_list s'' = sk_list s"
  using push_list_inv [OF assms] by (intro pop_list_inv) simp_all

text \<open>C18: While the \<^verbatim>\<open>sorted\<close> flag tells the truth, \<^verbatim>\<open>sk_find\<close> returns the first element equal to the one
  sought whether or not the stack is sorted: the binary search agrees with the linear one. In particular this
  holds after \<^verbatim>\<open>sk_sort\<close>, which only rearranges the elements.\<close>

theorem stack_sort_find:
  assumes "sk_inv s" and "st_comp s = Some c" and "flag_true call s" and "compare_order (call c)"
  shows "\<exists>s'. sk_sort call (Some s) = Some s' \<and> sk_inv s' \<and> mset (sk_list s') = mset (sk_list s) \<and>
    (\<forall>t x k. t = s \<or> t = s' \<longrightarrow>
      (sk_find call (Some t) (Some x) = Some k \<longleftrightarrow>
        k < length (sk_list t) \<and> call c (Some x) (sk_list t ! k) = 0 \<and>
        (\<forall>j<k. call c (Some x) (sk_list t ! j) \<noteq> 0)))"
proof -
  obtain s' where s': "sk_sort call (Some s) = Some s'" "sk_inv s'" "st_comp s' = Some c" "st_sorted s'"
    "mset (sk_list s') = mset (sk_list s)" "sorted_wrt (\<lambda>a b. call c a b \<le> 0) (sk_list s')"
    using sk_sort_sorts [OF assms] by metis
  have f: "flag_true call s'" using s' by (simp add: flag_true_def)
  have "sk_find call (Some t) (Some x) = Some k \<longleftrightarrow> k < length (sk_list t) \<and> call c (Some x) (sk_list t ! k) = 0 \<and>
        (\<forall>j<k. call c (Some x) (sk_list t ! j) \<noteq> 0)" if "t = s \<or> t = s'" for t x k
    using that find_is_search [OF assms, of x] find_is_search [OF s'(2,3) f assms(4), of x]
      search_loop_iff [of "\<lambda>e. call c (Some x) e = 0" "sk_list t" 0 "length (sk_list t)" k] by auto
  with s' show ?thesis by blast
qed

definition int_order :: "unit \<Rightarrow> int option \<Rightarrow> int option \<Rightarrow> int" where
  "int_order u a b =
     (case (a, b) of (None, None) \<Rightarrow> 0 | (None, Some _) \<Rightarrow> - 1 | (Some _, None) \<Rightarrow> 1 | (Some x, Some y) \<Rightarrow> x - y)"

interpretation int_order: compare_order "int_order u"
  by unfold_locales (auto simp: int_order_def split: option.splits)

theorem stack_sort_find_witness:
  "\<exists>s s'. sk_list s = [Some 5, Some 2] \<and> sk_sort int_order (Some s) = Some s' \<and> mset (sk_list s') = {#Some 5, Some 2#}"
proof -
  define s :: "(int, unit) stack" where
    "s = \<lparr>st_num = 2, st_data = [Some 5, Some 2, None, None], st_sorted = False, st_num_alloc = 4, st_comp = Some ()\<rparr>"
  have "sk_inv s" by (simp add: s_def sk_inv_def sizeof_ptr_def SIZE_MAX_1_def)
  moreover have "flag_true int_order s" by (simp add: s_def flag_true_def)
  moreover have "sk_list s = [Some 5, Some 2]" by (simp add: s_def sk_list_def)
  moreover have "st_comp s = Some ()" by (simp add: s_def)
  ultimately show ?thesis using stack_sort_find [of s "()" int_order] int_order.compare_order_axioms by auto
qed


text \<open>\<^verbatim>\<open>sk_deep_copy\<close> copies every element that is not null and keeps the null pointers, order and flags; when a
  copy fails it returns null after freeing exactly the copies made before, and none of the originals.\<close>

lemma stack_deep_copy:
  assumes "sk_inv s" and "sk_dup al (Some s) \<noteq> None"
  shows "((\<forall>x. Some x \<in> set (sk_list s) \<longrightarrow> copy x \<noteq> None) \<longrightarrow>
      (\<exists>r. sk_deep_copy al (Some s) copy = (Some r, []) \<and> sk_inv r \<and> st_sorted r = st_sorted s \<and>
        sk_list r = map (\<lambda>e. Option.bind e copy) (sk_list s))) \<and>
    (\<forall>k x. k < length (sk_list s) \<and> sk_list s ! k = Some x \<and> copy x = None \<and>
        (\<forall>j<k. \<forall>y. sk_list s ! j = Some y \<longrightarrow> copy y \<noteq> None) \<longrightarrow>
      sk_deep_copy al (Some s) copy =
        (None, List.map_filter (\<lambda>e. e) (map (\<lambda>e. Option.bind e copy) (take k (sk_list s)))))"
proof -
  obtain d where d: "sk_dup al (Some s) = Some d" using assms(2) by blast
  note i = sk_dup_inv [OF assms(1) d]
  have n: "st_num d \<le> length (st_data d)" "length (sk_list s) = st_num d"
    using i length_sk_list [OF i(1)] by (simp_all add: sk_inv_def)
  have e: "sk_list s = take (st_num d) (st_data d)" using i by (simp add: sk_list_def)
  show ?thesis
  proof (intro conjI allI impI)
    assume "\<forall>x. Some x \<in> set (sk_list s) \<longrightarrow> copy x \<noteq> None"
    then have "deep_copy_loop copy (st_data d) 0 (st_num d) =
        Inr (map (\<lambda>e. Option.bind e copy) (sk_list s) @ drop (st_num d) (st_data d))"
      using deep_copy_loop_ok [of 0 "st_num d" "st_data d" copy] n unfolding e by simp
    then show "\<exists>r. sk_deep_copy al (Some s) copy = (Some r, []) \<and> sk_inv r \<and> st_sorted r = st_sorted s \<and>
        sk_list r = map (\<lambda>e. Option.bind e copy) (sk_list s)"
      using d i n by (auto simp: sk_deep_copy_def sk_inv_def sk_list_def [of "_\<lparr>st_data := _\<rparr>"])
  next
    fix k x
    assume "k < length (sk_list s) \<and> sk_list s ! k = Some x \<and> copy x = None \<and>
        (\<forall>j<k. \<forall>y. sk_list s ! j = Some y \<longrightarrow> copy y \<noteq> None)"
    then have k: "k < st_num d" "st_data d ! k = Some x" "copy x = None"
      "\<forall>j<k. \<forall>y. st_data d ! j = Some y \<longrightarrow> copy y \<noteq> None"
      using n by (auto simp: e)
    then have "deep_copy_loop copy (st_data d) 0 (st_num d) =
        Inl (List.map_filter (\<lambda>e. e) (map (\<lambda>e. Option.bind e copy) (take k (sk_list s))))"
      using deep_copy_loop_fails [of 0 "st_num d" "st_data d" k x copy] n(1) unfolding e by simp
    then show "sk_deep_copy al (Some s) copy =
        (None, List.map_filter (\<lambda>e. e) (map (\<lambda>e. Option.bind e copy) (take k (sk_list s))))"
      using d by (simp add: sk_deep_copy_def)
  qed
qed

end
