(* ===== verification/Buf.thy ===== *)
theory Buf
  imports Mem
begin

text \<open>
  The growable buffer of \<^verbatim>\<open>BoringSSL-GRPC/src/crypto/buf/buf.c\<close>. The data pointer of a new buffer is null
  (\<^term>\<open>None\<close>). The string functions of the file are the ones of \<^verbatim>\<open>mem.c\<close> under an older name.
\<close>

section \<open>Model\<close>

record buf_mem =
  bm_length :: nat
  bm_data :: "u8 list option"
  bm_max :: nat

definition sizeof_BUF_MEM :: nat where
  "sizeof_BUF_MEM = 24"

definition BUF_MEM_new :: "alloc \<Rightarrow> buf_mem option" where
  "BUF_MEM_new al =
     map_option (\<lambda>_. \<lparr>bm_length = 0, bm_data = None, bm_max = 0\<rparr>) (OPENSSL_malloc al sizeof_BUF_MEM)"

definition BUF_MEM_reserve :: "alloc \<Rightarrow> buf_mem \<Rightarrow> nat \<Rightarrow> bool \<times> buf_mem" where
  "BUF_MEM_reserve al buf cap =
     (if cap \<le> bm_max buf then (True, buf)
      else if size_add cap 3 < cap then (False, buf)
      else
      (let n = size_add cap 3 div 3; alloc_size = (n * 4) mod SIZE_MAX_1
       in if alloc_size div 4 \<noteq> n then (False, buf)
          else
          (case OPENSSL_realloc al (bm_data buf) alloc_size of
             None \<Rightarrow> (False, buf)
           | Some new_buf \<Rightarrow> (True, buf\<lparr>bm_data := Some new_buf, bm_max := alloc_size\<rparr>))))"

definition BUF_MEM_grow :: "alloc \<Rightarrow> buf_mem \<Rightarrow> nat \<Rightarrow> nat \<times> buf_mem" where
  "BUF_MEM_grow al buf0 len =
     (case BUF_MEM_reserve al buf0 len of
        (ok, buf) \<Rightarrow>
          if \<not> ok then (0, buf)
          else
          (len, buf\<lparr>bm_data := (if bm_length buf < len
                             then map_option (\<lambda>d. mem_write d (bm_length buf) (replicate (len - bm_length buf) 0)) (bm_data buf)
                             else bm_data buf),
                     bm_length := len\<rparr>))"

definition BUF_MEM_grow_clean :: "alloc \<Rightarrow> buf_mem \<Rightarrow> nat \<Rightarrow> nat \<times> buf_mem" where
  "BUF_MEM_grow_clean al buf len = BUF_MEM_grow al buf len"

definition BUF_MEM_append :: "alloc \<Rightarrow> buf_mem \<Rightarrow> u8 list \<Rightarrow> bool \<times> buf_mem" where
  "BUF_MEM_append al buf inp =
     (let len = length inp; new_len = size_add (bm_length buf) len
      in if len = 0 then (True, buf)
         else if new_len < len then (False, buf)
         else
         and_then (BUF_MEM_reserve al buf new_len) (\<lambda>buf.
           (True, buf\<lparr>bm_data := map_option (\<lambda>d. mem_write d (bm_length buf) inp) (bm_data buf),
                      bm_length := new_len\<rparr>)))"

definition BUF_strdup :: "alloc \<Rightarrow> u8 list option \<Rightarrow> u8 list option" where
  "BUF_strdup al str = OPENSSL_strdup al str"

definition BUF_strnlen :: "u8 list \<Rightarrow> nat \<Rightarrow> nat" where
  "BUF_strnlen str max_len = OPENSSL_strnlen str max_len"

definition BUF_strndup :: "alloc \<Rightarrow> u8 list \<Rightarrow> nat \<Rightarrow> u8 list option" where
  "BUF_strndup al str sz = OPENSSL_strndup al str sz"

definition BUF_strlcpy :: "u8 list \<Rightarrow> u8 list \<Rightarrow> nat \<Rightarrow> u8 list \<times> nat" where
  "BUF_strlcpy dst src dst_size = OPENSSL_strlcpy dst src dst_size"

definition BUF_strlcat :: "u8 list \<Rightarrow> u8 list \<Rightarrow> nat \<Rightarrow> u8 list \<times> nat" where
  "BUF_strlcat dst src dst_size = OPENSSL_strlcat dst src dst_size"

definition BUF_memdup :: "alloc \<Rightarrow> u8 list \<Rightarrow> u8 list option" where
  "BUF_memdup al data = OPENSSL_memdup al data"

section \<open>The contents of a buffer\<close>

text \<open>The block has \<^verbatim>\<open>max\<close> bytes, of which the first \<^verbatim>\<open>length\<close> are used.\<close>

definition buf_block :: "buf_mem \<Rightarrow> u8 list" where
  "buf_block buf = (case bm_data buf of None \<Rightarrow> [] | Some d \<Rightarrow> d)"

definition buf_inv :: "buf_mem \<Rightarrow> bool" where
  "buf_inv buf \<longleftrightarrow> length (buf_block buf) = bm_max buf \<and> bm_length buf \<le> bm_max buf \<and> bm_max buf < SIZE_MAX_1"

definition buf_bytes :: "buf_mem \<Rightarrow> u8 list" where
  "buf_bytes buf = take (bm_length buf) (buf_block buf)"

lemma length_buf_bytes: "buf_inv buf \<Longrightarrow> length (buf_bytes buf) = bm_length buf"
  by (simp add: buf_bytes_def buf_inv_def)

lemma malloc_length: "OPENSSL_malloc al n = Some b \<Longrightarrow> length b = n"
  by (auto simp: OPENSSL_malloc_def split: if_splits)

lemma realloc_block:
  assumes "OPENSSL_realloc al d n = Some b" and "length (case d of None \<Rightarrow> [] | Some x \<Rightarrow> x) \<le> n"
  shows "length b = n \<and> take (length (case d of None \<Rightarrow> [] | Some x \<Rightarrow> x)) b = (case d of None \<Rightarrow> [] | Some x \<Rightarrow> x)"
  using assms malloc_length by (auto simp: OPENSSL_realloc_def Let_def split: option.splits if_splits)

lemma reserve_enough:
  assumes "cap < SIZE_MAX_1" and "\<not> size_add cap 3 < cap" and "n = size_add cap 3 div 3" and "(n * 4) mod SIZE_MAX_1 div 4 = n"
  shows "cap \<le> (n * 4) mod SIZE_MAX_1"
proof -
  have "cap + 3 < SIZE_MAX_1" using assms(1,2) size_add_overflow_iff [of cap 3] by (simp add: SIZE_MAX_1_def)
  then have n: "n = (cap + 3) div 3" using assms(3) by (simp add: size_add_eq)
  have "4 * n \<le> (n * 4) mod SIZE_MAX_1" using assms(4) by linarith
  with n show ?thesis by linarith
qed

lemma bm_reserve_cases:
  assumes "buf_inv buf" and "cap < SIZE_MAX_1"
  obtains (failed) "BUF_MEM_reserve al buf cap = (False, buf)"
  | (reserved) buf' where "BUF_MEM_reserve al buf cap = (True, buf')" "buf_inv buf'" "cap \<le> bm_max buf'"
      "bm_length buf' = bm_length buf" "buf_bytes buf' = buf_bytes buf"
proof (cases "BUF_MEM_reserve al buf cap")
  case r: (Pair ok buf')
  show ?thesis
  proof (cases ok)
    case False
    with r have "BUF_MEM_reserve al buf cap = (False, buf)"
      by (auto simp: BUF_MEM_reserve_def Let_def split: if_splits option.splits)
    then show ?thesis by (rule failed)
  next
    case True
    show ?thesis
    proof (cases "cap \<le> bm_max buf")
      case le: True
      then show ?thesis using assms reserved [of buf] by (simp add: BUF_MEM_reserve_def)
    next
      case gt: False
      define n where "n = size_add cap 3 div 3"
      obtain b where b: "\<not> size_add cap 3 < cap" "(n * 4) mod SIZE_MAX_1 div 4 = n"
        "OPENSSL_realloc al (bm_data buf) ((n * 4) mod SIZE_MAX_1) = Some b"
        "buf' = buf\<lparr>bm_data := Some b, bm_max := (n * 4) mod SIZE_MAX_1\<rparr>"
        using r True gt by (auto simp: BUF_MEM_reserve_def Let_def n_def split: if_splits option.splits)
      have c: "cap \<le> (n * 4) mod SIZE_MAX_1" using reserve_enough [OF assms(2) b(1) n_def b(2)] .
      have l: "length (buf_block buf) \<le> (n * 4) mod SIZE_MAX_1" using c gt assms(1) by (simp add: buf_inv_def)
      have "length b = (n * 4) mod SIZE_MAX_1 \<and> take (length (buf_block buf)) b = buf_block buf"
        using realloc_block [OF b(3)] l by (simp add: buf_block_def)
      moreover have "(n * 4) mod SIZE_MAX_1 < SIZE_MAX_1" by (simp add: SIZE_MAX_1_def)
      moreover have "take (bm_length buf) b = take (bm_length buf) (take (length (buf_block buf)) b)"
        using assms(1) by (simp add: buf_inv_def min_def)
      ultimately have "buf_inv buf'" "buf_bytes buf' = buf_bytes buf"
        using assms(1) l unfolding b(4) by (simp_all add: buf_inv_def buf_bytes_def buf_block_def)
      then show ?thesis using r True c b(4) reserved by simp
    qed
  qed
qed

lemma append_bytes:
  assumes "buf_inv buf" and "n + length bs \<le> bm_max buf" and "n = bm_length buf"
    and "buf' = buf\<lparr>bm_data := map_option (\<lambda>d. mem_write d n bs) (bm_data buf), bm_length := n + length bs\<rparr>"
    and "bs \<noteq> []"
  shows "buf_inv buf' \<and> buf_bytes buf' = buf_bytes buf @ bs"
  using assms by (cases "bm_data buf") (auto simp: buf_inv_def buf_bytes_def buf_block_def mem_write_def)

section \<open>Properties\<close>

text \<open>C40: \<^verbatim>\<open>BUF_MEM_append\<close> either appends exactly its input or reports failure and leaves the buffer unchanged; the
  block is always large enough for what is written.\<close>

theorem buf_append:
  assumes "buf_inv buf" and "length inp < SIZE_MAX_1"
  shows "\<exists>ok buf'. BUF_MEM_append al buf inp = (ok, buf') \<and> buf_inv buf' \<and>
    (if ok then buf_bytes buf' = buf_bytes buf @ inp else buf' = buf)"
proof (cases "inp = []")
  case True
  then show ?thesis using assms by (auto simp: BUF_MEM_append_def)
next
  case ne: False
  show ?thesis
  proof (cases "bm_length buf + length inp < SIZE_MAX_1")
    case False
    have "bm_length buf < SIZE_MAX_1" using assms(1) by (simp add: buf_inv_def)
    then have "size_add (length inp) (bm_length buf) < length inp"
      using False assms(2) by (subst size_add_overflow_iff) simp_all
    then show ?thesis using ne assms by (auto simp: BUF_MEM_append_def Let_def size_add_def add.commute)
  next
    case True
    then have s: "size_add (bm_length buf) (length inp) = bm_length buf + length inp" by (rule size_add_eq)
    show ?thesis
    proof (rule bm_reserve_cases [OF assms(1) True, of al])
      assume "BUF_MEM_reserve al buf (bm_length buf + length inp) = (False, buf)"
      then show ?thesis using ne s assms by (auto simp: BUF_MEM_append_def Let_def)
    next
      fix b
      assume b: "BUF_MEM_reserve al buf (bm_length buf + length inp) = (True, b)" "buf_inv b"
        "bm_length buf + length inp \<le> bm_max b" "bm_length b = bm_length buf" "buf_bytes b = buf_bytes buf"
      define buf' where "buf' = b\<lparr>bm_data := map_option (\<lambda>d. mem_write d (bm_length b) inp) (bm_data b),
        bm_length := bm_length b + length inp\<rparr>"
      have "buf_inv buf' \<and> buf_bytes buf' = buf_bytes b @ inp"
        using b ne by (intro append_bytes [OF b(2) _ refl buf'_def]) simp_all
      moreover have "BUF_MEM_append al buf inp = (True, buf')"
        using ne s b by (simp add: BUF_MEM_append_def Let_def buf'_def)
      ultimately show ?thesis using b(5) by auto
    qed
  qed
qed

theorem buf_append_witness:
  "\<exists>buf'. BUF_MEM_append (\<lambda>_. True) \<lparr>bm_length = 0, bm_data = None, bm_max = 0\<rparr> [1, 2] = (True, buf') \<and>
    buf_bytes buf' = [1, 2]"
  using buf_append [of "\<lparr>bm_length = 0, bm_data = None, bm_max = 0\<rparr>" "[1, 2]" "\<lambda>_. True"]
  by (auto simp: buf_inv_def buf_block_def buf_bytes_def SIZE_MAX_1_def BUF_MEM_append_def BUF_MEM_reserve_def Let_def
      size_add_def OPENSSL_realloc_def OPENSSL_malloc_def OPENSSL_MALLOC_PREFIX_def)

text \<open>\<^verbatim>\<open>BUF_MEM_grow\<close> to a length sets it: the bytes there are kept up to the new length, new bytes are zero, and
  the new length is returned; on failure it returns zero and the buffer is unchanged.\<close>

lemma buf_grow:
  assumes "buf_inv buf" and "len < SIZE_MAX_1"
  shows "\<exists>n buf'. BUF_MEM_grow al buf len = (n, buf') \<and> buf_inv buf' \<and>
    (buf_bytes buf' = take len (buf_bytes buf) @ replicate (len - bm_length buf) 0 \<and> n = len \<or> buf' = buf \<and> n = 0)"
proof (rule bm_reserve_cases [OF assms, of al])
  assume "BUF_MEM_reserve al buf len = (False, buf)"
  then show ?thesis using assms by (simp add: BUF_MEM_grow_def)
next
  fix b
  assume b: "BUF_MEM_reserve al buf len = (True, b)" "buf_inv b" "len \<le> bm_max b" "bm_length b = bm_length buf"
    "buf_bytes b = buf_bytes buf"
  show ?thesis
  proof (cases "bm_length buf < len")
    case True
    define buf' where "buf' = b\<lparr>bm_data := map_option (\<lambda>d. mem_write d (bm_length b) (replicate (len - bm_length b) 0)) (bm_data b),
      bm_length := bm_length b + length (replicate (len - bm_length b) (0::u8))\<rparr>"
    have "buf_inv buf' \<and> buf_bytes buf' = buf_bytes b @ replicate (len - bm_length b) 0"
      using True b by (intro append_bytes [OF b(2) _ refl buf'_def]) simp_all
    moreover have "take len (buf_bytes buf) = buf_bytes buf" using True length_buf_bytes [OF assms(1)] by simp
    moreover have "BUF_MEM_grow al buf len = (len, buf')" using True b by (simp add: BUF_MEM_grow_def buf'_def)
    ultimately show ?thesis using b by auto
  next
    case False
    then have "BUF_MEM_grow al buf len = (len, b\<lparr>bm_length := len\<rparr>)" using b by (simp add: BUF_MEM_grow_def)
    moreover have "buf_inv (b\<lparr>bm_length := len\<rparr>)" using b by (simp add: buf_inv_def buf_block_def)
    moreover have "buf_bytes (b\<lparr>bm_length := len\<rparr>) = take len (buf_bytes b)"
      using False b(4) by (simp add: buf_bytes_def buf_block_def min_def)
    ultimately show ?thesis using False b by simp
  qed
qed

end
