(* ===== verification/Lhash.thy ===== *)
theory Lhash
  imports Mem "HOL-Library.Multiset"
begin

text \<open>
  The chained hash table of \<^verbatim>\<open>BoringSSL-GRPC/src/crypto/lhash/lhash.c\<close>. A chain of \<^verbatim>\<open>LHASH_ITEM\<close>s is the list of its
  items and a \<^verbatim>\<open>LHASH_ITEM **\<close> is a bucket with a position in its chain, the end of the chain standing for a
  pointer to a null pointer. The hash and comparison functions of the table are fields of it; the caller's helpers
  \<^verbatim>\<open>call_hash_func\<close> and \<^verbatim>\<open>call_cmp_func\<close> only cast and call them. Elements are pointers that are not null.
\<close>

section \<open>Model\<close>

definition kMinNumBuckets :: nat where
  "kMinNumBuckets = 16"

definition kMaxAverageChainLength :: nat where
  "kMaxAverageChainLength = 2"

definition kMinAverageChainLength :: nat where
  "kMinAverageChainLength = 1"

record 'a lhash_item =
  it_data :: 'a
  it_hash :: u32

record 'a lhash =
  lh_num_items :: nat
  lh_buckets :: "'a lhash_item list list"
  lh_num_buckets :: nat
  lh_callback_depth :: u32
  lh_comp :: "'a \<Rightarrow> 'a \<Rightarrow> int"
  lh_hash :: "'a \<Rightarrow> u32"

text \<open>The sizes of the structures and of a pointer on the 64-bit targets.\<close>

definition sizeof_LHASH :: nat where
  "sizeof_LHASH = 48"

definition sizeof_LHASH_ITEM :: nat where
  "sizeof_LHASH_ITEM = 24"

definition sizeof_item_ptr :: nat where
  "sizeof_item_ptr = 8"

definition OPENSSL_lh_new :: "alloc \<Rightarrow> ('a \<Rightarrow> u32) \<Rightarrow> ('a \<Rightarrow> 'a \<Rightarrow> int) \<Rightarrow> 'a lhash option" where
  "OPENSSL_lh_new al hash cmp =
     (if OPENSSL_malloc al sizeof_LHASH = None then None
      else if OPENSSL_malloc al (sizeof_item_ptr * kMinNumBuckets) = None then None
      else Some \<lparr>lh_num_items = 0, lh_buckets = replicate kMinNumBuckets [], lh_num_buckets = kMinNumBuckets,
                 lh_callback_depth = 0, lh_comp = cmp, lh_hash = hash\<rparr>)"

definition OPENSSL_lh_num_items :: "'a lhash \<Rightarrow> nat" where
  "OPENSSL_lh_num_items lh = lh_num_items lh"

text \<open>The walk along a chain up to the first item that satisfies the test.\<close>

fun chain_pos :: "('a \<Rightarrow> bool) \<Rightarrow> 'a lhash_item list \<Rightarrow> nat" where
  "chain_pos test [] = 0"
| "chain_pos test (cur # rest) = (if test (it_data cur) then 0 else Suc (chain_pos test rest))"

definition get_next_ptr_and_hash :: "'a lhash \<Rightarrow> 'a \<Rightarrow> u32 \<times> nat \<times> nat" where
  "get_next_ptr_and_hash lh data =
     (let hash = lh_hash lh data; b = unat hash mod lh_num_buckets lh
      in (hash, b, chain_pos (\<lambda>d. lh_comp lh d data = 0) (lh_buckets lh ! b)))"

definition get_next_ptr_by_key :: "'a lhash \<Rightarrow> 'k \<Rightarrow> u32 \<Rightarrow> ('k \<Rightarrow> 'a \<Rightarrow> int) \<Rightarrow> nat \<times> nat" where
  "get_next_ptr_by_key lh key key_hash cmp_key =
     (let b = unat key_hash mod lh_num_buckets lh
      in (b, chain_pos (\<lambda>d. cmp_key key d = 0) (lh_buckets lh ! b)))"

text \<open>\<^verbatim>\<open>*next_ptr\<close>.\<close>

definition deref :: "'a lhash \<Rightarrow> nat \<Rightarrow> nat \<Rightarrow> 'a lhash_item option" where
  "deref lh b k = (if k < length (lh_buckets lh ! b) then Some (lh_buckets lh ! b ! k) else None)"

definition OPENSSL_lh_retrieve :: "'a lhash \<Rightarrow> 'a \<Rightarrow> 'a option" where
  "OPENSSL_lh_retrieve lh data =
     (case get_next_ptr_and_hash lh data of (_, b, k) \<Rightarrow> map_option it_data (deref lh b k))"

definition OPENSSL_lh_retrieve_key :: "'a lhash \<Rightarrow> 'k \<Rightarrow> u32 \<Rightarrow> ('k \<Rightarrow> 'a \<Rightarrow> int) \<Rightarrow> 'a option" where
  "OPENSSL_lh_retrieve_key lh key key_hash cmp_key =
     (case get_next_ptr_by_key lh key key_hash cmp_key of (b, k) \<Rightarrow> map_option it_data (deref lh b k))"

text \<open>Every item is pushed to the front of its new chain.\<close>

fun rebucket_chain :: "nat \<Rightarrow> 'a lhash_item list \<Rightarrow> 'a lhash_item list list \<Rightarrow> 'a lhash_item list list" where
  "rebucket_chain n [] new_buckets = new_buckets"
| "rebucket_chain n (cur # rest) new_buckets =
     (let new_bucket = unat (it_hash cur) mod n
      in rebucket_chain n rest (new_buckets[new_bucket := cur # new_buckets ! new_bucket]))"

definition lh_rebucket :: "alloc \<Rightarrow> 'a lhash \<Rightarrow> nat \<Rightarrow> 'a lhash" where
  "lh_rebucket al lh new_num_buckets =
     (let alloc_size = (sizeof_item_ptr * new_num_buckets) mod SIZE_MAX_1
      in if alloc_size div sizeof_item_ptr \<noteq> new_num_buckets then lh
         else if OPENSSL_malloc al alloc_size = None then lh
         else
         lh\<lparr>lh_buckets :=
              fold (rebucket_chain new_num_buckets) (lh_buckets lh) (replicate new_num_buckets []),
            lh_num_buckets := new_num_buckets\<rparr>)"

definition lh_maybe_resize :: "alloc \<Rightarrow> 'a lhash \<Rightarrow> 'a lhash" where
  "lh_maybe_resize al lh =
     (if 0 < lh_callback_depth lh then lh
      else
      (let avg_chain_length = lh_num_items lh div lh_num_buckets lh
       in if kMaxAverageChainLength < avg_chain_length
          then
            (let new_num_buckets = (lh_num_buckets lh * 2) mod SIZE_MAX_1
             in if lh_num_buckets lh < new_num_buckets then lh_rebucket al lh new_num_buckets else lh)
          else if avg_chain_length < kMinAverageChainLength \<and> kMinNumBuckets < lh_num_buckets lh
          then
            (let new_num_buckets = lh_num_buckets lh div 2
             in lh_rebucket al lh (if new_num_buckets < kMinNumBuckets then kMinNumBuckets else new_num_buckets))
          else lh))"

text \<open>The result is the return value, \<^verbatim>\<open>*old_data\<close> and the table.\<close>

definition OPENSSL_lh_insert :: "alloc \<Rightarrow> 'a lhash \<Rightarrow> 'a \<Rightarrow> bool \<times> 'a option \<times> 'a lhash" where
  "OPENSSL_lh_insert al lh data =
     (case get_next_ptr_and_hash lh data of
        (hash, b, k) \<Rightarrow>
          (case deref lh b k of
             Some item \<Rightarrow>
               (True, Some (it_data item),
                lh\<lparr>lh_buckets := (lh_buckets lh)[b := (lh_buckets lh ! b)[k := item\<lparr>it_data := data\<rparr>]]\<rparr>)
           | None \<Rightarrow>
               if OPENSSL_malloc al sizeof_LHASH_ITEM = None then (False, None, lh)
               else
               (True, None,
                lh_maybe_resize al
                  (lh\<lparr>lh_buckets :=
                       (lh_buckets lh)[b := lh_buckets lh ! b @ [\<lparr>it_data = data, it_hash = hash\<rparr>]],
                      lh_num_items := size_add (lh_num_items lh) 1\<rparr>))))"

definition OPENSSL_lh_delete :: "alloc \<Rightarrow> 'a lhash \<Rightarrow> 'a \<Rightarrow> 'a option \<times> 'a lhash" where
  "OPENSSL_lh_delete al lh data =
     (case get_next_ptr_and_hash lh data of
        (_, b, k) \<Rightarrow>
          (case deref lh b k of
             None \<Rightarrow> (None, lh)
           | Some item \<Rightarrow>
               (Some (it_data item),
                lh_maybe_resize al
                  (lh\<lparr>lh_buckets :=
                       (lh_buckets lh)[b := take k (lh_buckets lh ! b) @ drop (Suc k) (lh_buckets lh ! b)],
                      lh_num_items := lh_num_items lh - 1\<rparr>))))"

text \<open>The traversal, for a callback that changes its argument and not the table. The depth is a saturating counter.\<close>

definition OPENSSL_lh_doall_arg :: "alloc \<Rightarrow> 'a lhash option \<Rightarrow> ('a \<Rightarrow> 's \<Rightarrow> 's) \<Rightarrow> 's \<Rightarrow> 's \<times> 'a lhash option" where
  "OPENSSL_lh_doall_arg al lh func arg =
     (case lh of
        None \<Rightarrow> (arg, None)
      | Some t \<Rightarrow>
          (let t1 = (if lh_callback_depth t < - 1 then t\<lparr>lh_callback_depth := lh_callback_depth t + 1\<rparr> else t);
               arg' = fold (\<lambda>chain. fold (\<lambda>cur. func (it_data cur)) chain) (lh_buckets t1) arg;
               t2 = (if lh_callback_depth t1 < - 1 then t1\<lparr>lh_callback_depth := lh_callback_depth t1 - 1\<rparr> else t1)
           in (arg', Some (lh_maybe_resize al t2))))"

section \<open>Invariant\<close>

text \<open>What the table needs of its two functions.\<close>

locale hash_key =
  fixes hash :: "'a \<Rightarrow> u32" and cmp :: "'a \<Rightarrow> 'a \<Rightarrow> int"
  assumes key_refl: "cmp a a = 0"
    and key_sym: "cmp a b = 0 \<Longrightarrow> cmp b a = 0"
    and key_trans: "\<lbrakk>cmp a b = 0; cmp b c = 0\<rbrakk> \<Longrightarrow> cmp a c = 0"
    and key_hash: "cmp a b = 0 \<Longrightarrow> hash a = hash b"

definition lh_items :: "'a lhash \<Rightarrow> 'a lhash_item list" where
  "lh_items lh = concat (lh_buckets lh)"

definition lh_keys :: "'a lhash \<Rightarrow> 'a set" where
  "lh_keys lh = it_data ` set (lh_items lh)"

text \<open>An item whose cached hash is right and that belongs to bucket \<open>b\<close> of \<open>n\<close>.\<close>

definition at_home :: "('a \<Rightarrow> u32) \<Rightarrow> nat \<Rightarrow> nat \<Rightarrow> 'a lhash_item \<Rightarrow> bool" where
  "at_home hash n b it \<longleftrightarrow> it_hash it = hash (it_data it) \<and> unat (it_hash it) mod n = b"

definition placed :: "('a \<Rightarrow> u32) \<Rightarrow> 'a lhash_item list list \<Rightarrow> bool" where
  "placed hash bs \<longleftrightarrow> (\<forall>b < length bs. \<forall>it \<in> set (bs ! b). at_home hash (length bs) b it)"

definition lh_inv :: "'a lhash \<Rightarrow> bool" where
  "lh_inv lh \<longleftrightarrow> hash_key (lh_hash lh) (lh_comp lh) \<and> length (lh_buckets lh) = lh_num_buckets lh \<and>
     kMinNumBuckets \<le> lh_num_buckets lh \<and> placed (lh_hash lh) (lh_buckets lh) \<and>
     lh_num_items lh = length (lh_items lh) \<and> distinct (map it_data (lh_items lh)) \<and>
     (\<forall>d \<in> lh_keys lh. \<forall>e \<in> lh_keys lh. lh_comp lh d e = 0 \<longrightarrow> d = e)"

lemma mset_concat_update:
  "b < length bs \<Longrightarrow> mset (concat (bs[b := xs])) + mset (bs ! b) = mset (concat bs) + mset xs"
proof (induction bs arbitrary: b)
  case (Cons y bs)
  show ?case
  proof (cases b)
    case (Suc c)
    then have "mset (concat (bs[c := xs])) + mset (bs ! c) = mset (concat bs) + mset xs" using Cons by simp
    then show ?thesis using Suc by (simp add: ac_simps)
  qed simp
qed simp

lemma set_concat_nth: "\<lbrakk>b < length bs; x \<in> set (bs ! b)\<rbrakk> \<Longrightarrow> x \<in> set (concat bs)"
  by auto

lemma in_concat_nth: "x \<in> set (concat bs) \<Longrightarrow> \<exists>b < length bs. x \<in> set (bs ! b)"
  using in_set_conv_nth [of _ bs] by (force simp: set_concat)

lemma placed_update:
  assumes "placed hash bs" and "b < length bs"
    and "\<And>it. it \<in> set xs \<Longrightarrow> at_home hash (length bs) b it"
  shows "placed hash (bs[b := xs])"
  using assms unfolding placed_def by (auto simp: nth_list_update)

lemma chain_pos_le: "chain_pos test xs \<le> length xs"
  by (induction xs) auto

lemma chain_pos_found: "chain_pos test xs < length xs \<Longrightarrow> test (it_data (xs ! chain_pos test xs))"
  by (induction xs) auto

lemma chain_pos_absent: "chain_pos test xs = length xs \<longleftrightarrow> (\<forall>it \<in> set xs. \<not> test (it_data it))"
  by (induction xs) auto

lemma lh_inv_hash_key: "lh_inv lh \<Longrightarrow> hash_key (lh_hash lh) (lh_comp lh)"
  and lh_inv_shape: "lh_inv lh \<Longrightarrow> length (lh_buckets lh) = lh_num_buckets lh \<and> kMinNumBuckets \<le> lh_num_buckets lh"
  and lh_inv_placed: "lh_inv lh \<Longrightarrow> placed (lh_hash lh) (lh_buckets lh)"
  and lh_inv_count: "lh_inv lh \<Longrightarrow> lh_num_items lh = length (lh_items lh)"
  and lh_inv_distinct: "lh_inv lh \<Longrightarrow> distinct (map it_data (lh_items lh))"
  and lh_inv_unique: "\<lbrakk>lh_inv lh; d \<in> lh_keys lh; e \<in> lh_keys lh; lh_comp lh d e = 0\<rbrakk> \<Longrightarrow> d = e"
  unfolding lh_inv_def by blast+

lemma lh_inv_home:
  "\<lbrakk>lh_inv lh; b < length (lh_buckets lh); it \<in> set (lh_buckets lh ! b)\<rbrakk> \<Longrightarrow> at_home (lh_hash lh) (lh_num_buckets lh) b it"
  using lh_inv_placed lh_inv_shape unfolding placed_def by metis

section \<open>Looking up\<close>

lemma bucket_in_range: "lh_inv lh \<Longrightarrow> unat h mod lh_num_buckets lh < length (lh_buckets lh)"
  using lh_inv_shape [of lh] by (simp add: kMinNumBuckets_def)

text \<open>Where an element equal to \<open>x\<close> can be: in the chain of its hash.\<close>

lemma key_bucket:
  assumes "lh_inv lh" and "d \<in> lh_keys lh" and "lh_comp lh d x = 0"
  obtains it where "it \<in> set (lh_buckets lh ! (unat (lh_hash lh x) mod lh_num_buckets lh))" "it_data it = d"
proof -
  have hk: "hash_key (lh_hash lh) (lh_comp lh)" using assms(1) by (rule lh_inv_hash_key)
  obtain it where it: "it \<in> set (lh_items lh)" "it_data it = d" using assms(2) by (auto simp: lh_keys_def)
  obtain b where b: "b < length (lh_buckets lh)" "it \<in> set (lh_buckets lh ! b)"
    using in_concat_nth [of it "lh_buckets lh"] it(1) by (auto simp: lh_items_def simp del: set_concat)
  have "at_home (lh_hash lh) (lh_num_buckets lh) b it" by (rule lh_inv_home [OF assms(1) b])
  then have "b = unat (lh_hash lh x) mod lh_num_buckets lh"
    using it(2) hash_key.key_hash [OF hk assms(3)] by (auto simp: at_home_def)
  with b it that show ?thesis by blast
qed

lemma bucket_key:
  "\<lbrakk>lh_inv lh; b < length (lh_buckets lh); it \<in> set (lh_buckets lh ! b)\<rbrakk> \<Longrightarrow> it_data it \<in> lh_keys lh"
  using set_concat_nth [of b "lh_buckets lh" it] by (simp add: lh_keys_def lh_items_def del: set_concat)

lemma next_ptr_cases:
  assumes "lh_inv lh" and "get_next_ptr_and_hash lh x = (h, b, k)"
  obtains (found) it where "deref lh b k = Some it" "lh_comp lh (it_data it) x = 0" "it_data it \<in> lh_keys lh"
      "k < length (lh_buckets lh ! b)" "it = lh_buckets lh ! b ! k" "b < length (lh_buckets lh)"
      "h = lh_hash lh x" "b = unat h mod lh_num_buckets lh"
  | (absent) "deref lh b k = None" "\<forall>d \<in> lh_keys lh. lh_comp lh d x \<noteq> 0" "k = length (lh_buckets lh ! b)"
      "b < length (lh_buckets lh)" "h = lh_hash lh x" "b = unat h mod lh_num_buckets lh"
proof -
  have hb: "h = lh_hash lh x" "b = unat h mod lh_num_buckets lh"
    and k: "k = chain_pos (\<lambda>d. lh_comp lh d x = 0) (lh_buckets lh ! b)"
    using assms(2) by (auto simp: get_next_ptr_and_hash_def Let_def)
  have b: "b < length (lh_buckets lh)" using bucket_in_range [OF assms(1)] hb by simp
  show ?thesis
  proof (cases "k < length (lh_buckets lh ! b)")
    case True
    then have "lh_comp lh (it_data (lh_buckets lh ! b ! k)) x = 0" using chain_pos_found unfolding k by fastforce
    then show ?thesis using True b hb by (intro found) (auto simp: deref_def intro: bucket_key [OF assms(1)])
  next
    case False
    then have e: "k = length (lh_buckets lh ! b)" using chain_pos_le unfolding k by (meson le_neq_implies_less)
    have "lh_comp lh d x \<noteq> 0" if d: "d \<in> lh_keys lh" for d
    proof
      assume "lh_comp lh d x = 0"
      then obtain it where "it \<in> set (lh_buckets lh ! b)" "it_data it = d" using key_bucket [OF assms(1) d] hb by metis
      then show False using e \<open>lh_comp lh d x = 0\<close> unfolding k chain_pos_absent by blast
    qed
    then show ?thesis using False e b hb by (intro absent) (auto simp: deref_def)
  qed
qed

lemma retrieve_iff:
  assumes "lh_inv lh"
  shows "OPENSSL_lh_retrieve lh x = Some d \<longleftrightarrow> d \<in> lh_keys lh \<and> lh_comp lh d x = 0"
proof -
  have hk: "hash_key (lh_hash lh) (lh_comp lh)" using assms by (rule lh_inv_hash_key)
  obtain h b k where g: "get_next_ptr_and_hash lh x = (h, b, k)" by (cases "get_next_ptr_and_hash lh x")
  show ?thesis
  proof (rule next_ptr_cases [OF assms g])
    fix it
    assume it: "deref lh b k = Some it" "lh_comp lh (it_data it) x = 0" "it_data it \<in> lh_keys lh"
    have "d = it_data it" if "d \<in> lh_keys lh" "lh_comp lh d x = 0"
      using lh_inv_unique [OF assms that(1) it(3) hash_key.key_trans [OF hk that(2) hash_key.key_sym [OF hk it(2)]]] .
    then show ?thesis using it by (auto simp: OPENSSL_lh_retrieve_def g)
  next
    assume "deref lh b k = None" "\<forall>d \<in> lh_keys lh. lh_comp lh d x \<noteq> 0"
    then show ?thesis by (auto simp: OPENSSL_lh_retrieve_def g)
  qed
qed

lemma retrieve_None_iff:
  "lh_inv lh \<Longrightarrow> OPENSSL_lh_retrieve lh x = None \<longleftrightarrow> (\<forall>d \<in> lh_keys lh. lh_comp lh d x \<noteq> 0)"
  using retrieve_iff by (metis not_None_eq)

section \<open>Resizing\<close>

lemma rebucket_chain_spec:
  assumes "length bs = n" and "0 < n" and "placed hash bs" and "\<forall>it \<in> set xs. it_hash it = hash (it_data it)"
  shows "length (rebucket_chain n xs bs) = n \<and> placed hash (rebucket_chain n xs bs) \<and>
    mset (concat (rebucket_chain n xs bs)) = mset xs + mset (concat bs)"
  using assms
proof (induction xs arbitrary: bs)
  case (Cons x xs)
  define b where "b = unat (it_hash x) mod n"
  have b: "b < length bs" using Cons.prems by (simp add: b_def)
  have "placed hash (bs[b := x # bs ! b])"
  proof (intro placed_update [OF Cons.prems(3) b])
    have "at_home hash (length bs) b x" using Cons.prems by (simp add: at_home_def b_def)
    then show "at_home hash (length bs) b it" if "it \<in> set (x # bs ! b)" for it
      using that Cons.prems(3) b by (auto simp: placed_def)
  qed
  moreover have "mset (concat (bs[b := x # bs ! b])) = add_mset x (mset (concat bs))"
    using mset_concat_update [OF b, of "x # bs ! b"] by simp
  moreover have "rebucket_chain n (x # xs) bs = rebucket_chain n xs (bs[b := x # bs ! b])" by (simp add: b_def Let_def)
  ultimately show ?case using Cons.IH [of "bs[b := x # bs ! b]"] Cons.prems by simp
qed simp

lemma rebucket_all_spec:
  assumes "length bs = n" and "0 < n" and "placed hash bs" and "\<forall>xs \<in> set olds. \<forall>it \<in> set xs. it_hash it = hash (it_data it)"
  shows "length (fold (rebucket_chain n) olds bs) = n \<and> placed hash (fold (rebucket_chain n) olds bs) \<and>
    mset (concat (fold (rebucket_chain n) olds bs)) = mset (concat olds) + mset (concat bs)"
  using assms
proof (induction olds arbitrary: bs)
  case (Cons xs olds)
  note r = rebucket_chain_spec [OF Cons.prems(1-3), of xs]
  show ?case using Cons.IH [of "rebucket_chain n xs bs"] r Cons.prems by simp
qed simp

lemma lh_keys_mset: "lh_keys lh = set_mset (image_mset it_data (mset (lh_items lh)))"
  by (simp add: lh_keys_def)

text \<open>Two tables with the same items, the second in as good a shape.\<close>

definition same_content :: "'a lhash \<Rightarrow> 'a lhash \<Rightarrow> bool" where
  "same_content lh lh' \<longleftrightarrow> mset (lh_items lh') = mset (lh_items lh) \<and> lh_comp lh' = lh_comp lh \<and> lh_hash lh' = lh_hash lh \<and>
     lh_num_items lh' = lh_num_items lh \<and> lh_callback_depth lh' = lh_callback_depth lh"

lemma same_content_keys: "same_content lh lh' \<Longrightarrow> lh_keys lh' = lh_keys lh"
  by (simp add: same_content_def lh_keys_mset)

lemma same_content_inv:
  assumes "lh_inv lh" and "same_content lh lh'" and "length (lh_buckets lh') = lh_num_buckets lh'"
    and "kMinNumBuckets \<le> lh_num_buckets lh'" and "placed (lh_hash lh) (lh_buckets lh')"
  shows "lh_inv lh'"
proof -
  have m: "mset (lh_items lh') = mset (lh_items lh)" using assms(2) by (simp add: same_content_def)
  then have "mset (map it_data (lh_items lh')) = mset (map it_data (lh_items lh))" by simp
  then have "distinct (map it_data (lh_items lh'))"
    using assms(1) mset_eq_imp_distinct_iff [of "map it_data (lh_items lh')" "map it_data (lh_items lh)"] lh_inv_distinct [OF assms(1)]
    by simp
  moreover have "length (lh_items lh') = length (lh_items lh)" using m by (metis size_mset)
  moreover have "lh_comp lh' = lh_comp lh" "lh_hash lh' = lh_hash lh" "lh_num_items lh' = lh_num_items lh"
    using assms(2) by (simp_all add: same_content_def)
  ultimately show ?thesis
    using assms(3-5) lh_inv_hash_key [OF assms(1)] lh_inv_count [OF assms(1)] lh_inv_unique [OF assms(1)]
    unfolding lh_inv_def same_content_keys [OF assms(2)] by metis
qed

lemma rebucket_inv:
  assumes "lh_inv lh" and "kMinNumBuckets \<le> n"
  shows "lh_inv (lh_rebucket al lh n) \<and> same_content lh (lh_rebucket al lh n)"
proof -
  define bs where "bs = fold (rebucket_chain n) (lh_buckets lh) (replicate n [])"
  have h: "\<forall>xs \<in> set (lh_buckets lh). \<forall>it \<in> set xs. it_hash it = lh_hash lh (it_data it)"
  proof (intro ballI)
    fix xs it assume "xs \<in> set (lh_buckets lh)" "it \<in> set xs"
    then obtain b where "b < length (lh_buckets lh)" "it \<in> set (lh_buckets lh ! b)" by (auto simp: in_set_conv_nth [of xs])
    then show "it_hash it = lh_hash lh (it_data it)" using lh_inv_home [OF assms(1)] by (simp add: at_home_def)
  qed
  have "placed (lh_hash lh) (replicate n [])" by (simp add: placed_def)
  then have r: "length bs = n \<and> placed (lh_hash lh) bs \<and> mset (concat bs) = mset (concat (lh_buckets lh)) + mset (concat (replicate n []))"
    unfolding bs_def using assms(2) h by (intro rebucket_all_spec) (auto simp: kMinNumBuckets_def)
  define lh' where "lh' = lh\<lparr>lh_buckets := bs, lh_num_buckets := n\<rparr>"
  have sc: "same_content lh lh'" using r by (simp add: same_content_def lh'_def lh_items_def)
  moreover have "lh_inv lh'" by (rule same_content_inv [OF assms(1) sc]) (use r assms(2) in \<open>simp_all add: lh'_def\<close>)
  moreover have "same_content lh lh" by (simp add: same_content_def)
  ultimately show ?thesis using assms(1) by (auto simp: lh_rebucket_def Let_def lh'_def bs_def)
qed

lemma resize_inv:
  assumes "lh_inv lh"
  shows "lh_inv (lh_maybe_resize al lh) \<and> same_content lh (lh_maybe_resize al lh)"
proof -
  have "kMinNumBuckets \<le> lh_num_buckets lh" using lh_inv_shape [OF assms] by simp
  moreover have "same_content lh lh" by (simp add: same_content_def)
  ultimately show ?thesis using assms rebucket_inv [OF assms, of _ al] by (simp add: lh_maybe_resize_def Let_def)
qed

section \<open>Insertion and deletion\<close>

lemma split_bucket:
  assumes "b < length bs" and "k < length (bs ! b)"
  obtains pre post where "concat bs = pre @ bs ! b ! k # post"
    "\<forall>y. concat (bs[b := (bs ! b)[k := y]]) = pre @ y # post"
    "concat (bs[b := take k (bs ! b) @ drop (Suc k) (bs ! b)]) = pre @ post"
proof (rule that [of "concat (take b bs) @ take k (bs ! b)" "drop (Suc k) (bs ! b) @ concat (drop (Suc b) bs)"])
  have bs: "bs = take b bs @ bs ! b # drop (Suc b) bs" using assms(1) by (rule id_take_nth_drop)
  have c: "bs ! b = take k (bs ! b) @ bs ! b ! k # drop (Suc k) (bs ! b)" using assms(2) by (rule id_take_nth_drop)
  have "concat bs = concat (take b bs) @ bs ! b @ concat (drop (Suc b) bs)" by (subst (1) bs) simp
  also have "\<dots> = concat (take b bs) @ (take k (bs ! b) @ bs ! b ! k # drop (Suc k) (bs ! b)) @ concat (drop (Suc b) bs)"
    by (subst c) simp
  finally show "concat bs = (concat (take b bs) @ take k (bs ! b)) @ bs ! b ! k # drop (Suc k) (bs ! b) @ concat (drop (Suc b) bs)"
    by simp
  show "\<forall>y. concat (bs[b := (bs ! b)[k := y]]) = (concat (take b bs) @ take k (bs ! b)) @ y # drop (Suc k) (bs ! b) @ concat (drop (Suc b) bs)"
    using assms by (simp add: upd_conv_take_nth_drop)
  show "concat (bs[b := take k (bs ! b) @ drop (Suc k) (bs ! b)]) =
      (concat (take b bs) @ take k (bs ! b)) @ drop (Suc k) (bs ! b) @ concat (drop (Suc b) bs)"
    using assms(1) by (simp add: upd_conv_take_nth_drop)
qed

lemma split_bucket_end:
  assumes "b < length bs"
  obtains pre post where "concat bs = pre @ post" "\<forall>y. concat (bs[b := bs ! b @ [y]]) = pre @ y # post"
proof (rule that [of "concat (take b bs) @ bs ! b" "concat (drop (Suc b) bs)"])
  have bs: "bs = take b bs @ bs ! b # drop (Suc b) bs" using assms by (rule id_take_nth_drop)
  show "concat bs = (concat (take b bs) @ bs ! b) @ concat (drop (Suc b) bs)" by (subst (1) bs) simp
  show "\<forall>y. concat (bs[b := bs ! b @ [y]]) = (concat (take b bs) @ bs ! b) @ y # concat (drop (Suc b) bs)"
    using assms by (simp add: upd_conv_take_nth_drop)
qed

text \<open>The keys of the table after \<open>x\<close> has replaced, or been put beside, the ones there.\<close>

lemma lh_invI:
  assumes "lh_inv lh" and "lh_comp lh' = lh_comp lh" "lh_hash lh' = lh_hash lh" "lh_num_buckets lh' = lh_num_buckets lh"
    and "length (lh_buckets lh') = length (lh_buckets lh)" "placed (lh_hash lh) (lh_buckets lh')"
    and "lh_num_items lh' = length (lh_items lh')" "distinct (map it_data (lh_items lh'))"
    and "\<And>d e. \<lbrakk>d \<in> lh_keys lh'; e \<in> lh_keys lh'; lh_comp lh d e = 0\<rbrakk> \<Longrightarrow> d = e"
  shows "lh_inv lh'"
  using assms lh_inv_hash_key [OF assms(1)] lh_inv_shape [OF assms(1)] unfolding lh_inv_def by simp

lemma unique_insert:
  assumes "lh_inv lh" and "A \<subseteq> lh_keys lh" and "\<forall>d \<in> A. lh_comp lh d x \<noteq> 0"
    and "d \<in> insert x A" "e \<in> insert x A" "lh_comp lh d e = 0"
  shows "d = e"
  using assms lh_inv_unique [OF assms(1)] hash_key.key_sym [OF lh_inv_hash_key [OF assms(1)]] by (metis insert_iff subsetD)

lemma placed_bucket:
  assumes "lh_inv lh" and "b < length (lh_buckets lh)"
    and "\<And>it. it \<in> set xs \<Longrightarrow> it \<in> set (lh_buckets lh ! b) \<or> at_home (lh_hash lh) (lh_num_buckets lh) b it"
  shows "placed (lh_hash lh) ((lh_buckets lh)[b := xs])"
  using placed_update [OF lh_inv_placed [OF assms(1)] assms(2)] assms(3) lh_inv_home [OF assms(1,2)] lh_inv_shape [OF assms(1)]
  by metis

lemma insert_found:
  assumes "lh_inv lh" and "get_next_ptr_and_hash lh x = (h, b, k)" and "deref lh b k = Some it"
    and "lh' = lh\<lparr>lh_buckets := (lh_buckets lh)[b := (lh_buckets lh ! b)[k := it\<lparr>it_data := x\<rparr>]]\<rparr>"
  shows "lh_inv lh' \<and> lh_keys lh' = insert x (lh_keys lh - {it_data it})"
proof -
  have f: "lh_comp lh (it_data it) x = 0" "k < length (lh_buckets lh ! b)" "it = lh_buckets lh ! b ! k"
    "b < length (lh_buckets lh)"
    using next_ptr_cases [OF assms(1,2)] assms(3) by (metis option.inject option.simps(3))+
  note hk = lh_inv_hash_key [OF assms(1)]
  obtain pre post where "concat (lh_buckets lh) = pre @ lh_buckets lh ! b ! k # post"
    "\<forall>y. concat ((lh_buckets lh)[b := (lh_buckets lh ! b)[k := y]]) = pre @ y # post"
    by (rule split_bucket [OF f(4,2)]) blast
  then have c: "lh_items lh = pre @ it # post" "lh_items lh' = pre @ it\<lparr>it_data := x\<rparr> # post"
    by (simp_all add: lh_items_def assms(4) flip: f(3))
  have dis: "distinct (map it_data (pre @ it # post))" using lh_inv_distinct [OF assms(1)] c by simp
  have rest: "lh_keys lh - {it_data it} = it_data ` set (pre @ post)"
    using dis by (simp add: lh_keys_def c image_Un)
  have keys: "lh_keys lh' = insert x (lh_keys lh - {it_data it})" unfolding rest by (auto simp: lh_keys_def c)
  have it: "it_data it \<in> lh_keys lh" by (simp add: lh_keys_def c)
  have no: "\<forall>d \<in> lh_keys lh - {it_data it}. lh_comp lh d x \<noteq> 0"
  proof (intro ballI notI)
    fix d assume d: "d \<in> lh_keys lh - {it_data it}" "lh_comp lh d x = 0"
    have "lh_comp lh d (it_data it) = 0" using hash_key.key_trans [OF hk d(2) hash_key.key_sym [OF hk f(1)]] .
    then have "d = it_data it" using lh_inv_unique [OF assms(1) _ it] d(1) by blast
    with d(1) show False by simp
  qed
  have x: "x \<notin> it_data ` set (pre @ post)"
    using no hash_key.key_refl [OF hk, of x] unfolding rest by blast
  have "at_home (lh_hash lh) (lh_num_buckets lh) b it"
    using lh_inv_home [OF assms(1) f(4)] f(2,3) by simp
  then have home: "at_home (lh_hash lh) (lh_num_buckets lh) b (it\<lparr>it_data := x\<rparr>)"
    using hash_key.key_hash [OF hk f(1)] by (auto simp: at_home_def)
  have "lh_inv lh'"
  proof (rule lh_invI [OF assms(1)])
    show "placed (lh_hash lh) (lh_buckets lh')"
      using placed_bucket [OF assms(1) f(4), of "(lh_buckets lh ! b)[k := it\<lparr>it_data := x\<rparr>]"] home
        set_update_subset_insert [of "lh_buckets lh ! b" k "it\<lparr>it_data := x\<rparr>"]
      by (auto simp: assms(4))
    show "d = e" if "d \<in> lh_keys lh'" "e \<in> lh_keys lh'" "lh_comp lh d e = 0" for d e
      using unique_insert [OF assms(1) Diff_subset no] that unfolding keys by blast
    show "lh_num_items lh' = length (lh_items lh')" using lh_inv_count [OF assms(1)] c by (simp add: assms(4))
    show "distinct (map it_data (lh_items lh'))" using dis x by (auto simp: c)
  qed (simp_all add: assms(4))
  with keys show ?thesis by simp
qed

lemma insert_absent:
  assumes "lh_inv lh" and "get_next_ptr_and_hash lh x = (h, b, k)" and "deref lh b k = None"
    and "lh_num_items lh + 1 < SIZE_MAX_1"
    and "lh' = lh\<lparr>lh_buckets := (lh_buckets lh)[b := lh_buckets lh ! b @ [\<lparr>it_data = x, it_hash = h\<rparr>]],
                  lh_num_items := size_add (lh_num_items lh) 1\<rparr>"
  shows "lh_inv lh' \<and> lh_keys lh' = insert x (lh_keys lh)"
proof -
  have f: "\<forall>d \<in> lh_keys lh. lh_comp lh d x \<noteq> 0" "b < length (lh_buckets lh)" "h = lh_hash lh x" "b = unat h mod lh_num_buckets lh"
    using next_ptr_cases [OF assms(1,2)] assms(3) by (metis option.simps(3))+
  note hk = lh_inv_hash_key [OF assms(1)]
  obtain pre post where "concat (lh_buckets lh) = pre @ post"
    "\<forall>y. concat ((lh_buckets lh)[b := lh_buckets lh ! b @ [y]]) = pre @ y # post"
    by (rule split_bucket_end [OF f(2)]) blast
  then have c: "lh_items lh = pre @ post" "lh_items lh' = pre @ \<lparr>it_data = x, it_hash = h\<rparr> # post"
    by (simp_all add: lh_items_def assms(5))
  have keys: "lh_keys lh' = insert x (lh_keys lh)" by (auto simp: lh_keys_def c)
  have home: "at_home (lh_hash lh) (lh_num_buckets lh) b \<lparr>it_data = x, it_hash = h\<rparr>" using f(3,4) by (simp add: at_home_def)
  have x: "x \<notin> lh_keys lh" using f(1) hash_key.key_refl [OF hk, of x] by auto
  have "lh_inv lh'"
  proof (rule lh_invI [OF assms(1)])
    show "placed (lh_hash lh) (lh_buckets lh')"
      using placed_bucket [OF assms(1) f(2), of "lh_buckets lh ! b @ [\<lparr>it_data = x, it_hash = h\<rparr>]"] home
      by (auto simp: assms(5))
    show "d = e" if "d \<in> lh_keys lh'" "e \<in> lh_keys lh'" "lh_comp lh d e = 0" for d e
      using unique_insert [OF assms(1) subset_refl f(1)] that unfolding keys by blast
    show "lh_num_items lh' = length (lh_items lh')"
      using lh_inv_count [OF assms(1)] c assms(4) by (simp add: assms(5) size_add_eq)
    show "distinct (map it_data (lh_items lh'))"
      using lh_inv_distinct [OF assms(1)] x by (auto simp: c lh_keys_def)
  qed (simp_all add: assms(5))
  with keys show ?thesis by simp
qed

lemma delete_found:
  assumes "lh_inv lh" and "get_next_ptr_and_hash lh x = (h, b, k)" and "deref lh b k = Some it"
    and "lh' = lh\<lparr>lh_buckets := (lh_buckets lh)[b := take k (lh_buckets lh ! b) @ drop (Suc k) (lh_buckets lh ! b)],
                  lh_num_items := lh_num_items lh - 1\<rparr>"
  shows "lh_inv lh' \<and> lh_keys lh' = lh_keys lh - {it_data it}"
proof -
  have f: "k < length (lh_buckets lh ! b)" "it = lh_buckets lh ! b ! k" "b < length (lh_buckets lh)"
    using next_ptr_cases [OF assms(1,2)] assms(3) by (metis option.inject option.simps(3))+
  obtain pre post where "concat (lh_buckets lh) = pre @ lh_buckets lh ! b ! k # post"
    "concat ((lh_buckets lh)[b := take k (lh_buckets lh ! b) @ drop (Suc k) (lh_buckets lh ! b)]) = pre @ post"
    by (rule split_bucket [OF f(3,1)]) blast
  then have c: "lh_items lh = pre @ it # post" "lh_items lh' = pre @ post"
    by (simp_all add: lh_items_def assms(4) flip: f(2))
  have dis: "distinct (map it_data (pre @ it # post))" using lh_inv_distinct [OF assms(1)] c by simp
  have keys: "lh_keys lh' = lh_keys lh - {it_data it}" using dis by (simp add: lh_keys_def c image_Un)
  have sub: "set (take k (lh_buckets lh ! b) @ drop (Suc k) (lh_buckets lh ! b)) \<subseteq> set (lh_buckets lh ! b)"
    using set_take_subset [of k "lh_buckets lh ! b"] set_drop_subset [of "Suc k" "lh_buckets lh ! b"] by auto
  have "lh_inv lh'"
  proof (rule lh_invI [OF assms(1)])
    show "placed (lh_hash lh) (lh_buckets lh')"
      using placed_bucket [OF assms(1) f(3), of "take k (lh_buckets lh ! b) @ drop (Suc k) (lh_buckets lh ! b)"] sub
      unfolding assms(4) by (auto simp del: set_append)
    show "d = e" if "d \<in> lh_keys lh'" "e \<in> lh_keys lh'" "lh_comp lh d e = 0" for d e
      using that lh_inv_unique [OF assms(1)] unfolding keys by blast
    show "lh_num_items lh' = length (lh_items lh')" using lh_inv_count [OF assms(1)] c by (simp add: assms(4))
    show "distinct (map it_data (lh_items lh'))" using dis by (auto simp: c)
  qed (simp_all add: assms(4))
  with keys show ?thesis by simp
qed

definition equal_keys :: "'a lhash \<Rightarrow> 'a \<Rightarrow> 'a set" where
  "equal_keys lh x = {d \<in> lh_keys lh. lh_comp lh d x = 0}"

lemma equal_keys_single:
  assumes "lh_inv lh" and "d \<in> lh_keys lh" and "lh_comp lh d x = 0"
  shows "equal_keys lh x = {d}"
proof -
  note hk = lh_inv_hash_key [OF assms(1)]
  have "e = d" if "e \<in> lh_keys lh" "lh_comp lh e x = 0" for e
    using lh_inv_unique [OF assms(1) that(1) assms(2) hash_key.key_trans [OF hk that(2) hash_key.key_sym [OF hk assms(3)]]] .
  then show ?thesis using assms(2,3) unfolding equal_keys_def by blast
qed

lemma retrieve_equal_keys:
  "lh_inv lh \<Longrightarrow> OPENSSL_lh_retrieve lh x = (if equal_keys lh x = {} then None else Some (the_elem (equal_keys lh x)))"
proof (cases "OPENSSL_lh_retrieve lh x")
  case None
  assume "lh_inv lh"
  with None have "equal_keys lh x = {}" using retrieve_None_iff [of lh x] by (auto simp: equal_keys_def)
  with None show ?thesis by simp
next
  case (Some d)
  assume i: "lh_inv lh"
  with Some have "d \<in> lh_keys lh" "lh_comp lh d x = 0" using retrieve_iff [OF i, of x d] by simp_all
  with equal_keys_single [OF i] Some show ?thesis by simp
qed

lemma insert_spec:
  assumes "lh_inv lh" and "lh_num_items lh + 1 < SIZE_MAX_1"
  obtains (failed) "OPENSSL_lh_insert al lh x = (False, None, lh)" "OPENSSL_lh_retrieve lh x = None"
      "OPENSSL_malloc al sizeof_LHASH_ITEM = None"
  | (stored) lh' where "OPENSSL_lh_insert al lh x = (True, OPENSSL_lh_retrieve lh x, lh')" "lh_inv lh'"
      "lh_comp lh' = lh_comp lh" "lh_keys lh' = insert x (lh_keys lh - equal_keys lh x)"
proof -
  obtain h b k where g: "get_next_ptr_and_hash lh x = (h, b, k)" by (cases "get_next_ptr_and_hash lh x")
  show ?thesis
  proof (cases "deref lh b k")
    case (Some it)
    define lh' where "lh' = lh\<lparr>lh_buckets := (lh_buckets lh)[b := (lh_buckets lh ! b)[k := it\<lparr>it_data := x\<rparr>]]\<rparr>"
    note f = insert_found [OF assms(1) g Some lh'_def]
    have "lh_comp lh (it_data it) x = 0" "it_data it \<in> lh_keys lh"
      using next_ptr_cases [OF assms(1) g] Some by (metis option.inject option.simps(3))+
    then have e: "equal_keys lh x = {it_data it}" using equal_keys_single [OF assms(1)] by blast
    show ?thesis
      by (rule stored [of lh'])
        (use f e Some in \<open>simp_all add: OPENSSL_lh_insert_def g lh'_def retrieve_equal_keys [OF assms(1)]\<close>)
  next
    case None
    have no: "\<forall>d \<in> lh_keys lh. lh_comp lh d x \<noteq> 0"
      using next_ptr_cases [OF assms(1) g] None by (metis option.simps(3))
    then have r: "OPENSSL_lh_retrieve lh x = None" "equal_keys lh x = {}"
      using retrieve_None_iff [OF assms(1)] by (auto simp: equal_keys_def)
    define lh1 where "lh1 = lh\<lparr>lh_buckets := (lh_buckets lh)[b := lh_buckets lh ! b @ [\<lparr>it_data = x, it_hash = h\<rparr>]],
                  lh_num_items := size_add (lh_num_items lh) 1\<rparr>"
    note a = insert_absent [OF assms(1) g None assms(2) lh1_def]
    show ?thesis
    proof (cases "OPENSSL_malloc al sizeof_LHASH_ITEM = None")
      case True
      then show ?thesis using failed r None by (simp add: OPENSSL_lh_insert_def g)
    next
      case False
      note z = resize_inv [of lh1 al]
      have "lh_comp (lh_maybe_resize al lh1) = lh_comp lh" using z a by (simp add: same_content_def lh1_def)
      then show ?thesis
        using stored [of "lh_maybe_resize al lh1"] False None r a z same_content_keys [of lh1]
        by (simp add: OPENSSL_lh_insert_def g lh1_def)
    qed
  qed
qed

lemma delete_spec:
  assumes "lh_inv lh"
  obtains lh' where "OPENSSL_lh_delete al lh x = (OPENSSL_lh_retrieve lh x, lh')" "lh_inv lh'"
    "lh_comp lh' = lh_comp lh" "lh_keys lh' = lh_keys lh - equal_keys lh x"
proof -
  obtain h b k where g: "get_next_ptr_and_hash lh x = (h, b, k)" by (cases "get_next_ptr_and_hash lh x")
  show ?thesis
  proof (cases "deref lh b k")
    case None
    have "\<forall>d \<in> lh_keys lh. lh_comp lh d x \<noteq> 0"
      using next_ptr_cases [OF assms g] None by (metis option.simps(3))
    then have "OPENSSL_lh_retrieve lh x = None" "equal_keys lh x = {}"
      using retrieve_None_iff [OF assms, of x] by (auto simp: equal_keys_def)
    then show ?thesis using that [of lh] assms None by (simp add: OPENSSL_lh_delete_def g)
  next
    case (Some it)
    define lh1 where "lh1 = lh\<lparr>lh_buckets := (lh_buckets lh)[b := take k (lh_buckets lh ! b) @ drop (Suc k) (lh_buckets lh ! b)],
                  lh_num_items := lh_num_items lh - 1\<rparr>"
    note f = delete_found [OF assms g Some lh1_def]
    note z = resize_inv [of lh1 al]
    have "lh_comp lh (it_data it) x = 0" "it_data it \<in> lh_keys lh"
      using next_ptr_cases [OF assms g] Some by (metis option.inject option.simps(3))+
    then have e: "equal_keys lh x = {it_data it}" using equal_keys_single [OF assms] by blast
    have c: "lh_comp (lh_maybe_resize al lh1) = lh_comp lh" using z f by (simp add: same_content_def lh1_def)
    show ?thesis
      by (rule that [of "lh_maybe_resize al lh1"])
        (use f z e c Some same_content_keys [of lh1] in
          \<open>simp_all add: OPENSSL_lh_delete_def g lh1_def retrieve_equal_keys [OF assms]\<close>)
  qed
qed

lemma lh_new_inv:
  assumes "hash_key h c" and "OPENSSL_lh_new al h c = Some lh"
  shows "lh_inv lh" "lh_keys lh = {}" "lh_comp lh = c"
proof -
  have lh: "lh = \<lparr>lh_num_items = 0, lh_buckets = replicate kMinNumBuckets [], lh_num_buckets = kMinNumBuckets,
      lh_callback_depth = 0, lh_comp = c, lh_hash = h\<rparr>"
    using assms(2) by (auto simp: OPENSSL_lh_new_def split: if_splits)
  show "lh_keys lh = {}" "lh_comp lh = c" by (simp_all add: lh lh_keys_def lh_items_def)
  show "lh_inv lh" using assms(1) by (simp add: lh lh_inv_def lh_items_def lh_keys_def placed_def)
qed

section \<open>The interface of a table of keyed elements\<close>

text \<open>A table holds at most one element of each key; \<open>same t\<close> is equality of keys.\<close>

locale keyed_table =
  fixes ok :: "'t \<Rightarrow> bool"
    and same :: "'t \<Rightarrow> 'a \<Rightarrow> 'a \<Rightarrow> bool"
    and get :: "'t \<Rightarrow> 'a \<Rightarrow> 'a option"
    and put :: "'t \<Rightarrow> 'a \<Rightarrow> 't option"
    and remove :: "'t \<Rightarrow> 'a \<Rightarrow> 't"
  assumes same_sym: "\<lbrakk>ok t; same t x y\<rbrakk> \<Longrightarrow> same t y x"
    and same_trans: "\<lbrakk>ok t; same t x y; same t y z\<rbrakk> \<Longrightarrow> same t x z"
    and get_put: "\<lbrakk>ok t; put t x = Some t'\<rbrakk> \<Longrightarrow> get t' y = (if same t x y then Some x else get t y)"
    and put_ok: "\<lbrakk>ok t; put t x = Some t'\<rbrakk> \<Longrightarrow> ok t' \<and> same t' = same t"
    and get_remove: "ok t \<Longrightarrow> get (remove t x) y = (if same t x y then None else get t y)"
    and remove_ok: "ok t \<Longrightarrow> ok (remove t x) \<and> same (remove t x) = same t"
begin

lemma put_commute:
  assumes "ok t" and "put t x = Some t1" "put t1 y = Some t2" and "put t y = Some u1" "put u1 x = Some u2"
    and "\<not> same t x y"
  shows "get t2 z = get u2 z"
  using assms get_put put_ok same_sym same_trans by (smt (verit, best))

lemma put_remove:
  assumes "ok t" and "put t x = Some t'" and "get t x = None" and "\<And>y. same t x y \<Longrightarrow> get t y = None"
  shows "get (remove t' x) = get t"
proof
  fix y
  show "get (remove t' x) y = get t y"
    using assms get_put [OF assms(1,2), of y] get_remove [of t' x y] put_ok [OF assms(1,2)] by (cases "same t x y") simp_all
qed

lemma last_put_wins:
  assumes "ok t" and "put t x = Some t1" and "put t1 y = Some t2" and "same t x y"
  shows "get t2 x = Some y"
  using assms get_put put_ok same_sym by metis

end

definition lh_put :: "alloc \<Rightarrow> 'a lhash \<Rightarrow> 'a \<Rightarrow> 'a lhash option" where
  "lh_put al lh x =
     (if lh_num_items lh + 1 < SIZE_MAX_1
      then (case OPENSSL_lh_insert al lh x of (ok, _, lh') \<Rightarrow> if ok then Some lh' else None) else None)"

definition lh_remove :: "alloc \<Rightarrow> 'a lhash \<Rightarrow> 'a \<Rightarrow> 'a lhash" where
  "lh_remove al lh x = snd (OPENSSL_lh_delete al lh x)"

lemma get_from_keys:
  assumes "lh_inv lh" "lh_inv lh'" "lh_comp lh' = lh_comp lh"
  shows "lh_keys lh' = insert x (lh_keys lh - equal_keys lh x) \<Longrightarrow>
      OPENSSL_lh_retrieve lh' y = (if lh_comp lh x y = 0 then Some x else OPENSSL_lh_retrieve lh y)"
    and "lh_keys lh' = lh_keys lh - equal_keys lh x \<Longrightarrow>
      OPENSSL_lh_retrieve lh' y = (if lh_comp lh x y = 0 then None else OPENSSL_lh_retrieve lh y)"
proof -
  note hk = lh_inv_hash_key [OF assms(1)]
  have t: "lh_comp lh d x = 0 \<longleftrightarrow> lh_comp lh d y = 0" if "lh_comp lh x y = 0" for d
    using that hash_key.key_trans [OF hk] hash_key.key_sym [OF hk] by blast
  have t': "lh_comp lh d x \<noteq> 0" if "lh_comp lh x y \<noteq> 0" "lh_comp lh d y = 0" for d
    using that hash_key.key_trans [OF hk] hash_key.key_sym [OF hk] by blast
  show "OPENSSL_lh_retrieve lh' y = (if lh_comp lh x y = 0 then Some x else OPENSSL_lh_retrieve lh y)"
    if k: "lh_keys lh' = insert x (lh_keys lh - equal_keys lh x)"
  proof (cases "lh_comp lh x y = 0")
    case True
    then show ?thesis using retrieve_iff [OF assms(2), of y x] k assms(3) by simp
  next
    case False
    have "OPENSSL_lh_retrieve lh' y = Some d \<longleftrightarrow> OPENSSL_lh_retrieve lh y = Some d" for d
      using retrieve_iff [OF assms(2), of y d] retrieve_iff [OF assms(1), of y d] k assms(3) False t' [of d]
      by (auto simp: equal_keys_def)
    then have "OPENSSL_lh_retrieve lh' y = OPENSSL_lh_retrieve lh y" by (metis not_None_eq)
    with False show ?thesis by simp
  qed
  show "OPENSSL_lh_retrieve lh' y = (if lh_comp lh x y = 0 then None else OPENSSL_lh_retrieve lh y)"
    if k: "lh_keys lh' = lh_keys lh - equal_keys lh x"
  proof (cases "lh_comp lh x y = 0")
    case True
    then show ?thesis using retrieve_None_iff [OF assms(2), of y] k assms(3) t by (auto simp: equal_keys_def)
  next
    case False
    have "OPENSSL_lh_retrieve lh' y = Some d \<longleftrightarrow> OPENSSL_lh_retrieve lh y = Some d" for d
      using retrieve_iff [OF assms(2), of y d] retrieve_iff [OF assms(1), of y d] k assms(3) False t' [of d]
      by (auto simp: equal_keys_def)
    then have "OPENSSL_lh_retrieve lh' y = OPENSSL_lh_retrieve lh y" by (metis not_None_eq)
    with False show ?thesis by simp
  qed
qed

interpretation lh: keyed_table lh_inv "\<lambda>lh x y. lh_comp lh x y = 0" OPENSSL_lh_retrieve "lh_put al" "lh_remove al" for al
proof
  fix t :: "'a lhash" and x y z
  assume i: "lh_inv t"
  note hk = lh_inv_hash_key [OF i]
  show "lh_comp t x y = 0 \<Longrightarrow> lh_comp t y x = 0" by (rule hash_key.key_sym [OF hk])
  show "\<lbrakk>lh_comp t x y = 0; lh_comp t y z = 0\<rbrakk> \<Longrightarrow> lh_comp t x z = 0" by (rule hash_key.key_trans [OF hk])
next
  fix t :: "'a lhash" and x t' y
  assume i: "lh_inv t" and p: "lh_put al t x = Some t'"
  from p have n: "lh_num_items t + 1 < SIZE_MAX_1" by (simp add: lh_put_def split: if_splits)
  have "lh_inv t' \<and> lh_comp t' = lh_comp t \<and> lh_keys t' = insert x (lh_keys t - equal_keys t x)"
    by (rule insert_spec [OF i n, of al x]) (use p n in \<open>auto simp: lh_put_def\<close>)
  then show "OPENSSL_lh_retrieve t' y = (if lh_comp t x y = 0 then Some x else OPENSSL_lh_retrieve t y)"
    "lh_inv t' \<and> (\<lambda>x y. lh_comp t' x y = 0) = (\<lambda>x y. lh_comp t x y = 0)"
    using get_from_keys(1) [OF i] by auto
next
  fix t :: "'a lhash" and x y
  assume i: "lh_inv t"
  have "lh_inv (lh_remove al t x) \<and> lh_comp (lh_remove al t x) = lh_comp t \<and>
      lh_keys (lh_remove al t x) = lh_keys t - equal_keys t x"
    by (rule delete_spec [OF i, of al x]) (auto simp: lh_remove_def)
  then show "OPENSSL_lh_retrieve (lh_remove al t x) y = (if lh_comp t x y = 0 then None else OPENSSL_lh_retrieve t y)"
    "lh_inv (lh_remove al t x) \<and> (\<lambda>u v. lh_comp (lh_remove al t x) u v = 0) = (\<lambda>u v. lh_comp t u v = 0)"
    using get_from_keys(2) [OF i] by auto
qed

lemma rebucket_load:
  assumes "\<forall>n. al n" and "sizeof_item_ptr * n + OPENSSL_MALLOC_PREFIX < SIZE_MAX_1"
  shows "lh_num_buckets (lh_rebucket al lh n) = n"
  using assms by (simp add: lh_rebucket_def Let_def OPENSSL_malloc_def size_add_def sizeof_item_ptr_def)

lemma resize_load:
  assumes "\<forall>n. al n" and "lh_callback_depth lh = 0" and "kMinNumBuckets \<le> lh_num_buckets lh"
    and "sizeof_item_ptr * (lh_num_buckets lh * 2) + OPENSSL_MALLOC_PREFIX < SIZE_MAX_1"
    and "lh_num_items lh \<le> 3 * lh_num_buckets lh"
  shows "lh_num_items lh < 3 * lh_num_buckets (lh_maybe_resize al lh)"
proof -
  define n where "n = lh_num_buckets lh"
  have n: "16 \<le> n" "n * 2 < SIZE_MAX_1" "lh_num_items lh \<le> 3 * n"
    using assms(3-5) by (simp_all add: n_def kMinNumBuckets_def sizeof_item_ptr_def)
  have up: "lh_num_buckets (lh_rebucket al lh (n * 2)) = n * 2"
    using assms(1,4) by (intro rebucket_load) (simp_all add: n_def)
  have down: "lh_num_buckets (lh_rebucket al lh m) = m" if "m \<le> n" for m
    using that assms(1,4) by (intro rebucket_load) (simp_all add: n_def sizeof_item_ptr_def)
  consider (full) "2 < lh_num_items lh div n" | (sparse) "lh_num_items lh div n < 1" "16 < n"
    | (keep) "lh_num_items lh div n \<le> 2" "\<not> (lh_num_items lh div n < 1 \<and> 16 < n)" by linarith
  then show ?thesis
  proof cases
    case full
    then have "lh_num_buckets (lh_maybe_resize al lh) = n * 2"
      using up n assms(2) by (simp add: lh_maybe_resize_def Let_def kMaxAverageChainLength_def flip: n_def)
    with n show ?thesis by simp
  next
    case sparse
    define m where "m = (if n div 2 < 16 then 16 else n div 2)"
    have m: "m \<le> n" "n \<le> 3 * m" using n(1) by (auto simp: m_def)
    have "lh_num_buckets (lh_maybe_resize al lh) = m"
      using sparse down [of 16] down [of "n div 2"] assms(2)
      by (simp add: lh_maybe_resize_def Let_def kMaxAverageChainLength_def kMinAverageChainLength_def kMinNumBuckets_def
          m_def flip: n_def)
    moreover have "lh_num_items lh < n" using sparse by (simp add: div_eq_0_iff)
    ultimately show ?thesis using m by simp
  next
    case keep
    then have "lh_maybe_resize al lh = lh"
      by (auto simp: lh_maybe_resize_def Let_def kMaxAverageChainLength_def kMinAverageChainLength_def kMinNumBuckets_def
          simp flip: n_def)
    moreover have "lh_num_items lh < 3 * n" using keep(1) n(1) by (simp add: div_less_iff_less_mult flip: less_Suc_eq_le)
    ultimately show ?thesis by (simp add: n_def)
  qed
qed

lemma resize_num_items: "lh_num_items (lh_maybe_resize al lh) = lh_num_items lh"
  by (simp add: lh_maybe_resize_def lh_rebucket_def Let_def)

section \<open>Properties\<close>

text \<open>C17: The table refines a map from keys to elements. \<^verbatim>\<open>OPENSSL_lh_insert\<close> and \<^verbatim>\<open>OPENSSL_lh_delete\<close> return the
  element with an equal key that was there, and change what \<^verbatim>\<open>OPENSSL_lh_retrieve\<close> returns for the equal keys and
  for no other, whether or not the table is resized; an insertion that fails changes nothing.\<close>

theorem lhash_refines_map:
  assumes "lh_inv lh" and "lh_num_items lh + 1 < SIZE_MAX_1"
  shows "(\<exists>ok lh'. OPENSSL_lh_insert al lh x = (ok, OPENSSL_lh_retrieve lh x, lh') \<and> lh_inv lh' \<and> (\<not> ok \<longrightarrow> lh' = lh) \<and>
      (\<forall>y. OPENSSL_lh_retrieve lh' y = (if ok \<and> lh_comp lh x y = 0 then Some x else OPENSSL_lh_retrieve lh y))) \<and>
    (\<exists>lh'. OPENSSL_lh_delete al lh x = (OPENSSL_lh_retrieve lh x, lh') \<and> lh_inv lh' \<and>
      (\<forall>y. OPENSSL_lh_retrieve lh' y = (if lh_comp lh x y = 0 then None else OPENSSL_lh_retrieve lh y)))"
proof
  show "\<exists>ok lh'. OPENSSL_lh_insert al lh x = (ok, OPENSSL_lh_retrieve lh x, lh') \<and> lh_inv lh' \<and> (\<not> ok \<longrightarrow> lh' = lh) \<and>
      (\<forall>y. OPENSSL_lh_retrieve lh' y = (if ok \<and> lh_comp lh x y = 0 then Some x else OPENSSL_lh_retrieve lh y))"
    by (rule insert_spec [OF assms, of al x]) (use assms get_from_keys(1) [OF assms(1)] in auto)
  show "\<exists>lh'. OPENSSL_lh_delete al lh x = (OPENSSL_lh_retrieve lh x, lh') \<and> lh_inv lh' \<and>
      (\<forall>y. OPENSSL_lh_retrieve lh' y = (if lh_comp lh x y = 0 then None else OPENSSL_lh_retrieve lh y))"
    by (rule delete_spec [OF assms(1), of al x]) (use get_from_keys(2) [OF assms(1)] in auto)
qed

definition nat_table :: "nat lhash" where
  "nat_table = \<lparr>lh_num_items = 0, lh_buckets = replicate kMinNumBuckets [], lh_num_buckets = kMinNumBuckets,
     lh_callback_depth = 0, lh_comp = (\<lambda>a b. int a - int b), lh_hash = of_nat\<rparr>"

lemma nat_table_inv: "lh_inv nat_table"
proof -
  have "hash_key of_nat (\<lambda>a b. int a - int b)" by unfold_locales simp_all
  then show ?thesis by (simp add: nat_table_def lh_inv_def lh_items_def lh_keys_def placed_def)
qed

theorem lhash_refines_map_witness:
  "\<exists>ok lh'. OPENSSL_lh_insert (\<lambda>_. True) nat_table 7 = (ok, None, lh') \<and>
    OPENSSL_lh_retrieve lh' 7 = (if ok then Some 7 else None)"
proof -
  have n: "lh_num_items nat_table + 1 < SIZE_MAX_1" by (simp add: nat_table_def SIZE_MAX_1_def)
  have "OPENSSL_lh_retrieve nat_table 7 = None"
    using retrieve_None_iff [OF nat_table_inv] by (simp add: lh_keys_def lh_items_def nat_table_def)
  moreover have c: "lh_comp nat_table 7 7 = 0" by (simp add: nat_table_def)
  moreover obtain ok lh' where "OPENSSL_lh_insert (\<lambda>_. True) nat_table 7 = (ok, OPENSSL_lh_retrieve nat_table 7, lh')"
    "\<forall>y. OPENSSL_lh_retrieve lh' y = (if ok \<and> lh_comp nat_table 7 y = 0 then Some 7 else OPENSSL_lh_retrieve nat_table y)"
    using lhash_refines_map [OF nat_table_inv n, of "\<lambda>_. True" 7] by blast
  ultimately show ?thesis by (intro exI [of _ ok] exI [of _ lh']) simp
qed

text \<open>Bounded load: while the allocator grants memory, no traversal is in progress and the doubled array is
  addressable, the average chain length stays below 3 under insertion.\<close>

lemma lhash_load_bounded:
  assumes "lh_inv lh" and "\<forall>n. al n" and "lh_callback_depth lh = 0"
    and "sizeof_item_ptr * (lh_num_buckets lh * 2) + OPENSSL_MALLOC_PREFIX < SIZE_MAX_1"
    and "lh_num_items lh < 3 * lh_num_buckets lh" and "OPENSSL_lh_insert al lh x = (ok, old, lh')"
  shows "ok \<and> lh_num_items lh' < 3 * lh_num_buckets lh'"
proof -
  obtain h b k where g: "get_next_ptr_and_hash lh x = (h, b, k)" by (cases "get_next_ptr_and_hash lh x")
  have al: "OPENSSL_malloc al sizeof_LHASH_ITEM \<noteq> None"
    using assms(2) by (simp add: OPENSSL_malloc_def size_add_def sizeof_LHASH_ITEM_def OPENSSL_MALLOC_PREFIX_def SIZE_MAX_1_def)
  show ?thesis
  proof (cases "deref lh b k")
    case (Some it)
    then show ?thesis using assms(5,6) by (auto simp: OPENSSL_lh_insert_def g)
  next
    case None
    define lh1 where "lh1 = lh\<lparr>lh_buckets := (lh_buckets lh)[b := lh_buckets lh ! b @ [\<lparr>it_data = x, it_hash = h\<rparr>]],
                  lh_num_items := size_add (lh_num_items lh) 1\<rparr>"
    have "lh_num_items lh1 = lh_num_items lh + 1"
      using assms(4,5) by (simp add: lh1_def size_add_eq sizeof_item_ptr_def)
    then have "lh_num_items lh1 < 3 * lh_num_buckets (lh_maybe_resize al lh1)"
      using assms(2-5) lh_inv_shape [OF assms(1)] by (intro resize_load) (simp_all add: lh1_def)
    then show ?thesis using assms(6) None al by (auto simp: OPENSSL_lh_insert_def g lh1_def resize_num_items)
  qed
qed

text \<open>\<^verbatim>\<open>OPENSSL_lh_doall_arg\<close> calls its callback on every element of the table exactly once and leaves the
  elements as they are.\<close>

lemma lhash_doall_visits:
  assumes "lh_inv lh" and "lh_callback_depth lh < - 2"
  shows "\<exists>xs lh'. OPENSSL_lh_doall_arg al (Some lh) func arg = (fold func xs arg, Some lh') \<and> lh_inv lh' \<and>
    distinct xs \<and> set xs = lh_keys lh \<and> lh_keys lh' = lh_keys lh \<and> lh_callback_depth lh' = lh_callback_depth lh"
proof -
  have f: "fold (\<lambda>chain. fold (\<lambda>cur. func (it_data cur)) chain) bs arg = fold func (map it_data (concat bs)) arg" for bs arg
    by (induction bs arbitrary: arg) (simp_all add: fold_map comp_def)
  have d: "lh_callback_depth lh < - 1" "lh_callback_depth lh + 1 < - 1"
  proof -
    have "unat (- 1 :: u32) = 4294967295" by (simp add: unsigned_minus_1_eq_mask mask_eq_exp_minus_1)
    then show "lh_callback_depth lh < - 1" "lh_callback_depth lh + 1 < - 1"
      using assms(2) by (simp_all add: word_less_nat_alt unat_word_ariths)
  qed
  have "OPENSSL_lh_doall_arg al (Some lh) func arg = (fold func (map it_data (lh_items lh)) arg, Some (lh_maybe_resize al lh))"
    using d by (simp add: OPENSSL_lh_doall_arg_def Let_def f lh_items_def)
  moreover have "distinct (map it_data (lh_items lh))" by (rule lh_inv_distinct [OF assms(1)])
  moreover have "set (map it_data (lh_items lh)) = lh_keys lh" by (simp add: lh_keys_def)
  moreover have "lh_inv (lh_maybe_resize al lh)" "same_content lh (lh_maybe_resize al lh)"
    using resize_inv [OF assms(1), of al] by simp_all
  ultimately show ?thesis
    using same_content_keys [of lh "lh_maybe_resize al lh"]
    by (intro exI [of _ "map it_data (lh_items lh)"] exI [of _ "lh_maybe_resize al lh"]) (simp add: same_content_def)
qed

end
