(* ===== verification/Obj.thy ===== *)
theory Obj
  imports Set_Of Lhash
begin

text \<open>
  Object identifiers: \<^verbatim>\<open>BoringSSL-GRPC/src/crypto/obj/obj.c\<close> with the constructors of
  \<^verbatim>\<open>crypto/asn1/a_object.c\<close>. The registry of objects added at run time is a record of four hash tables and the next
  NID; the tables of built-in objects, generated data, are an argument. The locks around the registry are not
  modelled: each function runs as one step. The length and data of an \<^verbatim>\<open>ASN1_OBJECT\<close> are one byte string,
  a null data pointer the empty one.
\<close>

section \<open>Model\<close>

subsection \<open>Objects\<close>

definition NID_undef :: int where
  "NID_undef = 0"

definition NUM_NID :: int where
  "NUM_NID = 963"

definition ASN1_OBJECT_FLAG_DYNAMIC :: u32 where
  "ASN1_OBJECT_FLAG_DYNAMIC = 0x01"

definition ASN1_OBJECT_FLAG_DYNAMIC_STRINGS :: u32 where
  "ASN1_OBJECT_FLAG_DYNAMIC_STRINGS = 0x04"

definition ASN1_OBJECT_FLAG_DYNAMIC_DATA :: u32 where
  "ASN1_OBJECT_FLAG_DYNAMIC_DATA = 0x08"

definition all_dynamic :: u32 where
  "all_dynamic = ASN1_OBJECT_FLAG_DYNAMIC OR ASN1_OBJECT_FLAG_DYNAMIC_STRINGS OR ASN1_OBJECT_FLAG_DYNAMIC_DATA"

record asn1_object =
  ob_sn :: "u8 list option"
  ob_ln :: "u8 list option"
  ob_nid :: int
  ob_data :: "u8 list"
  ob_flags :: u32

definition sizeof_ASN1_OBJECT :: nat where
  "sizeof_ASN1_OBJECT = 40"

definition ASN1_OBJECT_new :: "alloc \<Rightarrow> asn1_object option" where
  "ASN1_OBJECT_new al =
     map_option (\<lambda>_. \<lparr>ob_sn = None, ob_ln = None, ob_nid = 0, ob_data = [], ob_flags = ASN1_OBJECT_FLAG_DYNAMIC\<rparr>)
       (OPENSSL_malloc al sizeof_ASN1_OBJECT)"

text \<open>The copy of an optional name: \<^term>\<open>None\<close> when memory runs out.\<close>

definition dup_name :: "alloc \<Rightarrow> u8 list option \<Rightarrow> u8 list option option" where
  "dup_name al name =
     (case name of
        None \<Rightarrow> Some None
      | Some s \<Rightarrow> (case OPENSSL_strdup al (Some s) of None \<Rightarrow> None | Some block \<Rightarrow> Some (Some (butlast block))))"

definition OBJ_dup :: "alloc \<Rightarrow> asn1_object option \<Rightarrow> asn1_object option" where
  "OBJ_dup al obj =
     (case obj of
        None \<Rightarrow> None
      | Some o1 \<Rightarrow>
          if ob_flags o1 AND ASN1_OBJECT_FLAG_DYNAMIC = 0 then Some o1
          else
          (case ASN1_OBJECT_new al of
             None \<Rightarrow> None
           | Some r \<Rightarrow>
               (case OPENSSL_malloc al (length (ob_data o1)) of
                  None \<Rightarrow> None
                | Some data \<Rightarrow>
                    (case dup_name al (ob_ln o1) of
                       None \<Rightarrow> None
                     | Some ln \<Rightarrow>
                         (case dup_name al (ob_sn o1) of
                            None \<Rightarrow> None
                          | Some sn \<Rightarrow>
                              Some (r\<lparr>ob_data := mem_write data 0 (ob_data o1), ob_nid := ob_nid o1, ob_sn := sn,
                                      ob_ln := ln, ob_flags := ob_flags o1 OR all_dynamic\<rparr>))))))"

definition ASN1_OBJECT_create ::
    "alloc \<Rightarrow> int \<Rightarrow> u8 list \<Rightarrow> u8 list option \<Rightarrow> u8 list option \<Rightarrow> asn1_object option" where
  "ASN1_OBJECT_create al nid data sn ln =
     OBJ_dup al (Some \<lparr>ob_sn = sn, ob_ln = ln, ob_nid = nid, ob_data = data, ob_flags = all_dynamic\<rparr>)"

definition OBJ_cmp :: "asn1_object \<Rightarrow> asn1_object \<Rightarrow> int" where
  "OBJ_cmp a b =
     (let ret = int (length (ob_data a)) - int (length (ob_data b))
      in if ret \<noteq> 0 then ret else memcmp (ob_data a) (ob_data b))"

definition OBJ_get0_data :: "asn1_object option \<Rightarrow> u8 list option" where
  "OBJ_get0_data obj = map_option ob_data obj"

definition OBJ_length :: "asn1_object option \<Rightarrow> nat" where
  "OBJ_length obj = (case obj of None \<Rightarrow> 0 | Some o1 \<Rightarrow> length (ob_data o1))"

subsection \<open>Hash tables of objects\<close>

text \<open>\<^verbatim>\<open>strcmp\<close> promises the sign of its result.\<close>

fun strcmp :: "u8 list \<Rightarrow> u8 list \<Rightarrow> int" where
  "strcmp [] [] = 0"
| "strcmp [] (b # bs) = - 1"
| "strcmp (a # as) [] = 1"
| "strcmp (a # as) (b # bs) = (if a = b then strcmp as bs else if a < b then - 1 else 1)"

text \<open>The name tables only hold objects that have the name.\<close>

definition name_of :: "u8 list option \<Rightarrow> u8 list" where
  "name_of name = (case name of None \<Rightarrow> [] | Some s \<Rightarrow> s)"









subsection \<open>Registry\<close>

record obj_registry =
  rg_by_data :: "asn1_object lhash option"
  rg_by_nid :: "asn1_object lhash option"
  rg_by_short_name :: "asn1_object lhash option"
  rg_by_long_name :: "asn1_object lhash option"
  rg_next_nid :: u32

text \<open>The generated tables of \<^verbatim>\<open>obj_dat.h\<close>.\<close>

record obj_tables =
  kObjects :: "asn1_object list"
  kNIDsInShortNameOrder :: "nat list"
  kNIDsInLongNameOrder :: "nat list"
  kNIDsInOIDOrder :: "nat list"

definition obj_next_nid :: "obj_registry \<Rightarrow> int \<times> obj_registry" where
  "obj_next_nid R = (sint (rg_next_nid R), R\<lparr>rg_next_nid := rg_next_nid R + 1\<rparr>)"

definition reg_retrieve :: "asn1_object lhash option \<Rightarrow> asn1_object \<Rightarrow> asn1_object option" where
  "reg_retrieve tbl key = (case tbl of None \<Rightarrow> None | Some lh \<Rightarrow> OPENSSL_lh_retrieve lh key)"

definition template :: asn1_object where
  "template = \<lparr>ob_sn = None, ob_ln = None, ob_nid = 0, ob_data = [], ob_flags = 0\<rparr>"

text \<open>The C library's \<^verbatim>\<open>bsearch\<close> over the elements from \<open>lo\<close> to \<open>hi\<close>.\<close>

function bsearch :: "('e \<Rightarrow> int) \<Rightarrow> 'e list \<Rightarrow> nat \<Rightarrow> nat \<Rightarrow> 'e option" where
  "bsearch cmp arr lo hi =
     (if lo < hi
      then
        (let mid = lo + (hi - lo) div 2; r = cmp (arr ! mid)
         in if r = 0 then Some (arr ! mid)
            else if r < 0 then bsearch cmp arr lo mid
            else bsearch cmp arr (mid + 1) hi)
      else None)"
  by pat_completeness auto
termination
  by (relation "measure (\<lambda>(_, _, lo, hi). hi - lo)") auto

declare bsearch.simps [simp del]

definition obj_cmp :: "obj_tables \<Rightarrow> asn1_object \<Rightarrow> nat \<Rightarrow> int" where
  "obj_cmp T a nid =
     (let b = kObjects T ! nid
      in if length (ob_data a) < length (ob_data b) then - 1
         else if length (ob_data b) < length (ob_data a) then 1
         else memcmp (ob_data a) (ob_data b))"

definition table_nid :: "obj_tables \<Rightarrow> nat option \<Rightarrow> int" where
  "table_nid T nid_ptr = (case nid_ptr of None \<Rightarrow> NID_undef | Some nid \<Rightarrow> ob_nid (kObjects T ! nid))"

definition OBJ_obj2nid :: "obj_tables \<Rightarrow> obj_registry \<Rightarrow> asn1_object option \<Rightarrow> int" where
  "OBJ_obj2nid T R obj =
     (case obj of
        None \<Rightarrow> NID_undef
      | Some o1 \<Rightarrow>
          if ob_nid o1 \<noteq> 0 then ob_nid o1
          else
          (case reg_retrieve (rg_by_data R) o1 of
             Some match \<Rightarrow> ob_nid match
           | None \<Rightarrow>
               table_nid T (bsearch (obj_cmp T o1) (kNIDsInOIDOrder T) 0 (length (kNIDsInOIDOrder T)))))"

definition OBJ_cbs2nid :: "obj_tables \<Rightarrow> obj_registry \<Rightarrow> cbs \<Rightarrow> int" where
  "OBJ_cbs2nid T R cbs =
     (if INT_MAX < CBS_len cbs then NID_undef
      else OBJ_obj2nid T R (Some (template\<lparr>ob_data := CBS_data cbs\<rparr>)))"

definition short_name_cmp :: "obj_tables \<Rightarrow> u8 list \<Rightarrow> nat \<Rightarrow> int" where
  "short_name_cmp T name nid = strcmp name (name_of (ob_sn (kObjects T ! nid)))"

definition OBJ_sn2nid :: "obj_tables \<Rightarrow> obj_registry \<Rightarrow> u8 list \<Rightarrow> int" where
  "OBJ_sn2nid T R short_name =
     (case reg_retrieve (rg_by_short_name R) (template\<lparr>ob_sn := Some short_name\<rparr>) of
        Some match \<Rightarrow> ob_nid match
      | None \<Rightarrow>
          table_nid T (bsearch (short_name_cmp T short_name) (kNIDsInShortNameOrder T) 0
            (length (kNIDsInShortNameOrder T))))"

definition long_name_cmp :: "obj_tables \<Rightarrow> u8 list \<Rightarrow> nat \<Rightarrow> int" where
  "long_name_cmp T name nid = strcmp name (name_of (ob_ln (kObjects T ! nid)))"

definition OBJ_ln2nid :: "obj_tables \<Rightarrow> obj_registry \<Rightarrow> u8 list \<Rightarrow> int" where
  "OBJ_ln2nid T R long_name =
     (case reg_retrieve (rg_by_long_name R) (template\<lparr>ob_ln := Some long_name\<rparr>) of
        Some match \<Rightarrow> ob_nid match
      | None \<Rightarrow>
          table_nid T (bsearch (long_name_cmp T long_name) (kNIDsInLongNameOrder T) 0
            (length (kNIDsInLongNameOrder T))))"

definition OBJ_nid2obj :: "obj_tables \<Rightarrow> obj_registry \<Rightarrow> int \<Rightarrow> asn1_object option" where
  "OBJ_nid2obj T R nid =
     (if 0 \<le> nid \<and> nid < NUM_NID
      then if nid \<noteq> NID_undef \<and> ob_nid (kObjects T ! nat nid) = NID_undef then None else Some (kObjects T ! nat nid)
      else reg_retrieve (rg_by_nid R) (template\<lparr>ob_nid := nid\<rparr>))"

definition OBJ_nid2sn :: "obj_tables \<Rightarrow> obj_registry \<Rightarrow> int \<Rightarrow> u8 list option" where
  "OBJ_nid2sn T R nid = (case OBJ_nid2obj T R nid of None \<Rightarrow> None | Some obj \<Rightarrow> ob_sn obj)"

definition OBJ_nid2ln :: "obj_tables \<Rightarrow> obj_registry \<Rightarrow> int \<Rightarrow> u8 list option" where
  "OBJ_nid2ln T R nid = (case OBJ_nid2obj T R nid of None \<Rightarrow> None | Some obj \<Rightarrow> ob_ln obj)"

definition CBS_ASN1_OBJECT :: u32 where
  "CBS_ASN1_OBJECT = 0x6"

definition OBJ_nid2cbb :: "obj_tables \<Rightarrow> obj_registry \<Rightarrow> alloc \<Rightarrow> nat \<Rightarrow> cbb \<Rightarrow> int \<Rightarrow> bool \<times> cbb" where
  "OBJ_nid2cbb T R al d out nid =
     (case OBJ_nid2obj T R nid of
        None \<Rightarrow> (False, out)
      | Some obj \<Rightarrow>
          and_then (CBB_add_asn1 al d out CBS_ASN1_OBJECT) (\<lambda>out.
            and_then (CBB_add_bytes al (Suc d) out (ob_data obj)) (CBB_flush al d)))"

subsection \<open>Creating objects\<close>

text \<open>The DER contents of the identifier written in dotted decimal.\<close>

definition oid_bytes :: "alloc \<Rightarrow> u8 list \<Rightarrow> u8 list option" where
  "oid_bytes al oid =
     (case CBB_init al 32 of
        (False, _) \<Rightarrow> None
      | (True, cbb) \<Rightarrow>
          (case CBB_add_asn1_oid_from_text al 0 cbb oid of
             (False, _) \<Rightarrow> None
           | (True, cbb') \<Rightarrow>
               (case CBB_finish al 0 cbb' True True of (Some (Some buf, _), _) \<Rightarrow> Some buf | _ \<Rightarrow> None)))"

text \<open>\<open>get_nid\<close> says whether the callback is \<^verbatim>\<open>obj_next_nid\<close> or null.\<close>

definition create_object_with_text_oid ::
    "alloc \<Rightarrow> obj_registry \<Rightarrow> bool \<Rightarrow> u8 list \<Rightarrow> u8 list option \<Rightarrow> u8 list option \<Rightarrow> asn1_object option \<times> obj_registry" where
  "create_object_with_text_oid al R get_nid oid short_name long_name =
     (case oid_bytes al oid of
        None \<Rightarrow> (None, R)
      | Some buf \<Rightarrow>
          (let (nid, R') = (if get_nid then obj_next_nid R else (NID_undef, R))
           in (ASN1_OBJECT_create al nid buf short_name long_name, R')))"

definition OBJ_txt2obj ::
    "alloc \<Rightarrow> obj_tables \<Rightarrow> obj_registry \<Rightarrow> u8 list \<Rightarrow> bool \<Rightarrow> asn1_object option" where
  "OBJ_txt2obj al T R s dont_search_names =
     (let nid =
            (if dont_search_names then NID_undef
             else let n = OBJ_sn2nid T R s in if n = NID_undef then OBJ_ln2nid T R s else n)
      in if nid \<noteq> NID_undef then OBJ_nid2obj T R nid
         else fst (create_object_with_text_oid al R False s None None))"

definition OBJ_txt2nid :: "alloc \<Rightarrow> obj_tables \<Rightarrow> obj_registry \<Rightarrow> u8 list \<Rightarrow> int" where
  "OBJ_txt2nid al T R s = OBJ_obj2nid T R (OBJ_txt2obj al T R s False)"

text \<open>The result is the destination afterwards and the return value.\<close>

definition strlcpy_int :: "u8 list \<Rightarrow> u8 list \<Rightarrow> int \<Rightarrow> u8 list \<times> int" where
  "strlcpy_int dst src dst_size =
     (case OPENSSL_strlcpy dst src (if dst_size < 0 then 0 else nat dst_size) of
        (dst', ret) \<Rightarrow> (dst', if INT_MAX < ret then - 1 else int ret))"

definition known_name :: "obj_tables \<Rightarrow> obj_registry \<Rightarrow> asn1_object \<Rightarrow> u8 list option" where
  "known_name T R obj =
     (let nid = OBJ_obj2nid T R (Some obj)
      in if nid = NID_undef then None
         else (case OBJ_nid2ln T R nid of None \<Rightarrow> OBJ_nid2sn T R nid | Some name \<Rightarrow> Some name))"

definition OBJ_obj2txt ::
    "alloc \<Rightarrow> obj_tables \<Rightarrow> obj_registry \<Rightarrow> u8 list \<Rightarrow> int \<Rightarrow> asn1_object option \<Rightarrow> bool \<Rightarrow> u8 list \<times> int" where
  "OBJ_obj2txt al T R out out_len obj always_return_oid =
     (case obj of
        None \<Rightarrow> strlcpy_int out [] out_len
      | Some o1 \<Rightarrow>
          if length (ob_data o1) = 0 then strlcpy_int out [] out_len
          else
          (case (if always_return_oid then None else known_name T R o1) of
             Some name \<Rightarrow> strlcpy_int out name out_len
           | None \<Rightarrow>
               (case CBS_asn1_oid_to_text al (ob_data o1) of
                  None \<Rightarrow> (if 0 < out_len then 0 # tl out else out, - 1)
                | Some txt \<Rightarrow> strlcpy_int out (butlast txt) out_len)))"




section \<open>The keys of the four tables\<close>








section \<open>The registry\<close>








section \<open>Identifiers in text form\<close>

lemma oid_bytes_sound:
  assumes "oid_bytes al s = Some der"
  shows "\<exists>v vs. s = oid_head v @ oid_tail vs \<and> der = oid_der (v # vs)"
proof -
  from assms obtain st st' where i: "CBB_init al 32 = (True, st)" "CBB_add_asn1_oid_from_text al 0 st s = (True, st')"
    and f: "\<exists>x. fst (CBB_finish al 0 st' True True) = Some (Some der, x)"
    by (auto simp: oid_bytes_def split: prod.splits bool.splits option.splits)
  obtain v vs where s: "s = oid_head v @ oid_tail vs" using oid_from_text_sound [OF i(2)] by blast
  have o: "cbb_open 0 st" "cb_buf st = []" using CBB_init_open [OF i(1)] by auto
  have a: "appended st (oid_der (v # vs)) st'" using emits_appended [OF emits_oid_from_text o(1)] i(2) s by blast
  then have "cbb_open 0 st'" using o(1) by (rule appended_open)
  with f a o(2) have "der = oid_der (v # vs)" by (simp add: CBB_finish_open appended_def)
  with s show ?thesis by blast
qed

lemma base128_nonempty: "oid_der (v # vs) \<noteq> []"
  by (simp add: base128_not_Nil)

lemma dup_name_eq: "dup_name al name = Some name' \<Longrightarrow> name' = name"
  by (auto simp: dup_name_def OPENSSL_strdup_def split: option.splits)

lemma asn1_object_create_eq:
  assumes "ASN1_OBJECT_create al nid data sn ln = Some obj"
  shows "ob_nid obj = nid" "ob_data obj = data" "ob_sn obj = sn" "ob_ln obj = ln"
  using assms dup_name_eq
  by (auto simp: ASN1_OBJECT_create_def OBJ_dup_def OPENSSL_malloc_def mem_write_def split: option.splits if_splits)

lemma strlcpy_int_eq:
  assumes "length dst = n" and "length src < n" and "n \<le> INT_MAX"
  shows "strlcpy_int dst src (int n) = (src @ 0 # drop (length src + 1) dst, int (length src))"
  using strlcpy_eq [of dst n src] assms by (simp add: strlcpy_int_def)





section \<open>Properties\<close>




text \<open>The text form of an object identifier survives the trip through an object: \<^verbatim>\<open>OBJ_obj2txt\<close> on the object that
  \<^verbatim>\<open>OBJ_txt2obj\<close> made from a dotted text writes that text, with its terminating zero, into any buffer that is large
  enough, and returns its length.\<close>

lemma obj_text_roundtrip:
  assumes "OBJ_txt2obj al T R s True = Some obj" and "\<And>k. al' k" and "length s < length out" and "length out \<le> INT_MAX"
  shows "OBJ_obj2txt al' T R out (int (length out)) (Some obj) True =
    (s @ 0 # drop (length s + 1) out, int (length s))"
proof -
  obtain der where d: "oid_bytes al s = Some der" "ASN1_OBJECT_create al NID_undef der None None = Some obj"
    using assms(1) by (auto simp: OBJ_txt2obj_def create_object_with_text_oid_def NID_undef_def split: option.splits)
  obtain v vs where v: "s = oid_head v @ oid_tail vs" "der = oid_der (v # vs)" using oid_bytes_sound [OF d(1)] by blast
  have o: "ob_data obj = oid_der (v # vs)" using asn1_object_create_eq [OF d(2)] v(2) by simp
  have t: "CBS_asn1_oid_to_text al' (oid_der (v # vs)) = Some (s @ [0])"
    using oid_to_text_complete [of al' v vs] assms(2-4) v(1) by (simp add: INT_MAX_def)
  show ?thesis
    using o t base128_nonempty [of v vs] strlcpy_int_eq [OF refl assms(3,4)]
    by (simp add: OBJ_obj2txt_def del: oid_der_simps)
qed



end
