(* ===== verification/Uv_Heap.thy ===== *)
theory Uv_Heap
  imports Prelude
begin

text \<open>
  The pointer heap of \<^verbatim>\<open>Libuv-gRPC/src/heap-inl.h\<close>. Nodes are linked by addresses in a store; a null pointer is
  \<^term>\<open>None\<close>. Reading through a null pointer, and a loop that does not end, give \<^term>\<open>None\<close> as the result of an
  operation; the theorems show that neither happens on a well-formed heap. The abstraction is the
  array heap: position \<open>i\<close> has its children at \<open>2 * i\<close> and \<open>2 * i + 1\<close>.
\<close>

section \<open>Model\<close>

type_synonym addr = nat

record heap_node =
  nd_left :: "addr option"
  nd_right :: "addr option"
  nd_parent :: "addr option"

record heap =
  hp_min :: "addr option"
  hp_nelts :: u32
  hp_nodes :: "addr \<Rightarrow> heap_node"

definition set_left :: "heap \<Rightarrow> addr \<Rightarrow> addr option \<Rightarrow> heap" where
  "set_left h a v = h\<lparr>hp_nodes := (hp_nodes h)(a := (hp_nodes h a)\<lparr>nd_left := v\<rparr>)\<rparr>"

definition set_right :: "heap \<Rightarrow> addr \<Rightarrow> addr option \<Rightarrow> heap" where
  "set_right h a v = h\<lparr>hp_nodes := (hp_nodes h)(a := (hp_nodes h a)\<lparr>nd_right := v\<rparr>)\<rparr>"

definition set_parent :: "heap \<Rightarrow> addr \<Rightarrow> addr option \<Rightarrow> heap" where
  "set_parent h a v = h\<lparr>hp_nodes := (hp_nodes h)(a := (hp_nodes h a)\<lparr>nd_parent := v\<rparr>)\<rparr>"

text \<open>\<^verbatim>\<open>if (p != NULL) p->parent = v\<close>\<close>

definition set_parent_of :: "heap \<Rightarrow> addr option \<Rightarrow> addr \<Rightarrow> heap" where
  "set_parent_of h p v = (case p of None \<Rightarrow> h | Some a \<Rightarrow> set_parent h a (Some v))"

definition heap_init :: "heap \<Rightarrow> heap" where
  "heap_init h = h\<lparr>hp_min := None, hp_nelts := 0\<rparr>"

definition heap_min :: "heap \<Rightarrow> addr option" where
  "heap_min h = hp_min h"

text \<open>Whatever points down to the node \<open>old\<close>, whose parent is \<open>p\<close>, is made to point to \<open>new\<close>.\<close>

definition relink :: "heap \<Rightarrow> addr option \<Rightarrow> addr \<Rightarrow> addr \<Rightarrow> heap" where
  "relink h p old new =
     (case p of
        None \<Rightarrow> h\<lparr>hp_min := Some new\<rparr>
      | Some g \<Rightarrow>
          if nd_left (hp_nodes h g) = Some old then set_left h g (Some new) else set_right h g (Some new))"

definition heap_node_swap :: "heap \<Rightarrow> addr \<Rightarrow> addr \<Rightarrow> heap" where
  "heap_node_swap h parent child =
     (let h1 = h\<lparr>hp_nodes := (hp_nodes h)(parent := hp_nodes h child, child := hp_nodes h parent)\<rparr>;
          h2 = set_parent h1 parent (Some child);
          (h3, sibling) =
            (if nd_left (hp_nodes h2 child) = Some child
             then (set_left h2 child (Some parent), nd_right (hp_nodes h2 child))
             else (set_right h2 child (Some parent), nd_left (hp_nodes h2 child)));
          h4 = set_parent_of h3 sibling child;
          h5 = set_parent_of h4 (nd_left (hp_nodes h4 parent)) parent;
          h6 = set_parent_of h5 (nd_right (hp_nodes h5 parent)) parent
      in relink h6 (nd_parent (hp_nodes h6 child)) parent child)"

text \<open>The path to a position of the tree: its bits below the first one, the highest in bit 0, and their number.\<close>

function heap_path :: "u32 \<Rightarrow> u32 \<Rightarrow> nat \<Rightarrow> u32 \<times> nat" where
  "heap_path n path k =
     (if 2 \<le> n then heap_path (n div 2) (push_bit 1 path OR (n AND 1)) (k + 1) else (path, k))"
  by pat_completeness auto
termination
proof (relation "measure (\<lambda>(n, _, _). unat n)", goal_cases)
  case (2 n path k)
  then have "2 \<le> unat n" by (simp add: word_le_nat_alt)
  then have "unat (n div 2) < unat n" by (simp add: unat_div)
  then show ?case by simp
qed simp

declare heap_path.simps [simp del]

text \<open>A pointer to a pointer of the tree, \<^verbatim>\<open>struct heap_node **\<close>.\<close>

datatype heap_slot = Min_Slot | Left_Slot addr | Right_Slot addr

fun load_slot :: "heap \<Rightarrow> heap_slot \<Rightarrow> addr option" where
  "load_slot h Min_Slot = hp_min h"
| "load_slot h (Left_Slot a) = nd_left (hp_nodes h a)"
| "load_slot h (Right_Slot a) = nd_right (hp_nodes h a)"

fun store_slot :: "heap \<Rightarrow> heap_slot \<Rightarrow> addr option \<Rightarrow> heap" where
  "store_slot h Min_Slot v = h\<lparr>hp_min := v\<rparr>"
| "store_slot h (Left_Slot a) v = set_left h a v"
| "store_slot h (Right_Slot a) v = set_right h a v"

fun walk_path :: "heap \<Rightarrow> nat \<Rightarrow> u32 \<Rightarrow> heap_slot \<Rightarrow> heap_slot \<Rightarrow> (heap_slot \<times> heap_slot) option" where
  "walk_path h 0 path parent child = Some (parent, child)"
| "walk_path h (Suc k) path parent child =
     (case load_slot h child of
        None \<Rightarrow> None
      | Some a \<Rightarrow>
          walk_path h k (drop_bit 1 path) child (if path AND 1 \<noteq> 0 then Right_Slot a else Left_Slot a))"

partial_function (option) sift_up :: "(addr \<Rightarrow> addr \<Rightarrow> bool) \<Rightarrow> heap \<Rightarrow> addr \<Rightarrow> heap option" where
  "sift_up lt h node =
     (case nd_parent (hp_nodes h node) of
        None \<Rightarrow> Some h
      | Some p \<Rightarrow> if lt node p then sift_up lt (heap_node_swap h p node) node else Some h)"

definition smallest_child :: "(addr \<Rightarrow> addr \<Rightarrow> bool) \<Rightarrow> heap \<Rightarrow> addr \<Rightarrow> addr" where
  "smallest_child lt h child =
     (let smallest =
            (case nd_left (hp_nodes h child) of None \<Rightarrow> child | Some l \<Rightarrow> if lt l child then l else child)
      in case nd_right (hp_nodes h child) of
           None \<Rightarrow> smallest
         | Some r \<Rightarrow> if lt r smallest then r else smallest)"

partial_function (option) sift_down :: "(addr \<Rightarrow> addr \<Rightarrow> bool) \<Rightarrow> heap \<Rightarrow> addr \<Rightarrow> heap option" where
  "sift_down lt h child =
     (let smallest = smallest_child lt h child
      in if smallest = child then Some h else sift_down lt (heap_node_swap h child smallest) child)"

definition heap_insert :: "heap \<Rightarrow> addr \<Rightarrow> (addr \<Rightarrow> addr \<Rightarrow> bool) \<Rightarrow> heap option" where
  "heap_insert h0 newnode lt =
     (let h = h0\<lparr>hp_nodes := (hp_nodes h0)(newnode := \<lparr>nd_left = None, nd_right = None, nd_parent = None\<rparr>)\<rparr>;
          (path, k) = heap_path (1 + hp_nelts h) 0 0
      in case walk_path h k path Min_Slot Min_Slot of
           None \<Rightarrow> None
         | Some (parent, child) \<Rightarrow>
             (let h1 = set_parent h newnode (load_slot h parent);
                  h2 = store_slot h1 child (Some newnode)
              in sift_up lt (h2\<lparr>hp_nelts := hp_nelts h2 + 1\<rparr>) newnode))"

text \<open>The node \<open>child\<close>, already unlinked, takes the place of \<open>node\<close>.\<close>

definition replace_node :: "heap \<Rightarrow> addr \<Rightarrow> addr \<Rightarrow> heap" where
  "replace_node h node child =
     (let h1 = h\<lparr>hp_nodes := (hp_nodes h)(child := hp_nodes h node)\<rparr>;
          h2 = set_parent_of h1 (nd_left (hp_nodes h1 child)) child;
          h3 = set_parent_of h2 (nd_right (hp_nodes h2 child)) child
      in relink h3 (nd_parent (hp_nodes h3 node)) node child)"

definition heap_remove :: "heap \<Rightarrow> addr \<Rightarrow> (addr \<Rightarrow> addr \<Rightarrow> bool) \<Rightarrow> heap option" where
  "heap_remove h0 node lt =
     (if hp_nelts h0 = 0 then Some h0
      else
      (let (path, k) = heap_path (hp_nelts h0) 0 0
       in case walk_path h0 k path Min_Slot Min_Slot of
            None \<Rightarrow> None
          | Some (_, max_slot) \<Rightarrow>
              (let h = h0\<lparr>hp_nelts := hp_nelts h0 - 1\<rparr>
               in case load_slot h max_slot of
                    None \<Rightarrow> None
                  | Some child \<Rightarrow>
                      (let h1 = store_slot h max_slot None
                       in if child = node
                          then Some (if hp_min h1 = Some child then h1\<lparr>hp_min := None\<rparr> else h1)
                          else
                          (case sift_down lt (replace_node h1 node child) child of
                             None \<Rightarrow> None
                           | Some h2 \<Rightarrow> sift_up lt h2 child)))))"

definition heap_dequeue :: "heap \<Rightarrow> (addr \<Rightarrow> addr \<Rightarrow> bool) \<Rightarrow> heap option" where
  "heap_dequeue h lt =
     (if hp_nelts h = 0 then Some h
      else case hp_min h of None \<Rightarrow> None | Some m \<Rightarrow> heap_remove h m lt)"

section \<open>The array heap behind the pointers\<close>

text \<open>The node at position \<open>i\<close> of the complete tree with the positions \<open>1\<close> to \<open>n\<close>, position \<open>i\<close> held by address \<open>A i\<close>.\<close>

definition node_at :: "(nat \<Rightarrow> addr) \<Rightarrow> nat \<Rightarrow> nat \<Rightarrow> heap_node" where
  "node_at A n i =
     \<lparr>nd_left = (if 2 * i \<le> n then Some (A (2 * i)) else None),
      nd_right = (if 2 * i + 1 \<le> n then Some (A (2 * i + 1)) else None),
      nd_parent = (if i = 1 then None else Some (A (i div 2)))\<rparr>"

definition tree_at :: "heap \<Rightarrow> (nat \<Rightarrow> addr) \<Rightarrow> nat \<Rightarrow> bool" where
  "tree_at h A n \<longleftrightarrow> inj_on A {1..n} \<and> hp_min h = (if n = 0 then None else Some (A 1)) \<and>
     (\<forall>i\<in>{1..n}. hp_nodes h (A i) = node_at A n i)"

definition exchange :: "nat \<Rightarrow> nat \<Rightarrow> (nat \<Rightarrow> 'a) \<Rightarrow> nat \<Rightarrow> 'a" where
  "exchange p c A = A(p := A c, c := A p)"

lemma tree_at_inj: "\<lbrakk>tree_at h A n; 1 \<le> i; i \<le> n; 1 \<le> j; j \<le> n\<rbrakk> \<Longrightarrow> A i = A j \<longleftrightarrow> i = j"
  by (auto simp: tree_at_def dest: inj_onD)

lemma tree_at_node: "\<lbrakk>tree_at h A n; 1 \<le> i; i \<le> n\<rbrakk> \<Longrightarrow> hp_nodes h (A i) = node_at A n i"
  by (simp add: tree_at_def)

lemmas heap_updates = set_left_def set_right_def set_parent_def set_parent_of_def relink_def

text \<open>The nodes after a swap, address by address.\<close>

definition swapped :: "heap \<Rightarrow> addr \<Rightarrow> addr \<Rightarrow> addr \<Rightarrow> heap_node" where
  "swapped h a b x = (let na = hp_nodes h a; nb = hp_nodes h b; le = nd_left na = Some b in
     if x = b then (if le then na\<lparr>nd_left := Some a\<rparr> else na\<lparr>nd_right := Some a\<rparr>)
     else if x = a then nb\<lparr>nd_parent := Some b\<rparr>
     else if Some x = nd_left nb \<or> Some x = nd_right nb then (hp_nodes h x)\<lparr>nd_parent := Some a\<rparr>
     else if Some x = (if le then nd_right na else nd_left na) then (hp_nodes h x)\<lparr>nd_parent := Some b\<rparr>
     else if Some x = nd_parent na
     then (if nd_left (hp_nodes h x) = Some a then (hp_nodes h x)\<lparr>nd_left := Some b\<rparr> else (hp_nodes h x)\<lparr>nd_right := Some b\<rparr>)
     else hp_nodes h x)"

lemma exchange_simps [simp]:
  "exchange p c A p = A c" "exchange p c A c = A p" "i \<noteq> p \<Longrightarrow> i \<noteq> c \<Longrightarrow> exchange p c A i = A i"
  by (auto simp: exchange_def)


lemma swapped_tree:
  assumes t: "tree_at h A n" and c: "c = 2 * p \<or> c = 2 * p + 1" "0 < p" "c \<le> n" and i: "0 < i" "i \<le> n"
  shows "swapped h (A p) (A c) (exchange p c A i) = node_at (exchange p c A) n i"
proof -
  have inj: "A j = A k \<longleftrightarrow> j = k" if "0 < j" "j \<le> n" "0 < k" "k \<le> n" for j k
    using tree_at_inj [OF t] that by simp
  have node: "hp_nodes h (A j) = node_at A n j" if "0 < j" "j \<le> n" for j
    using tree_at_node [OF t] that by simp
  have p: "hp_nodes h (A p) = node_at A n p" "hp_nodes h (A c) = node_at A n c" using node c by auto
  consider "i = p" | "i = c" | "i \<noteq> p" "i \<noteq> c" by blast
  then show ?thesis
  proof cases
    case 1
    have "A c \<noteq> A p" using inj c by auto
    show ?thesis
    proof (cases "c = 2 * p")
      case True
      with 1 p c \<open>A c \<noteq> A p\<close> show ?thesis by (simp add: swapped_def node_at_def)
    next
      case False
      then have "c = 2 * p + 1" using c by simp
      moreover have "A (2 * p) \<noteq> A c" using inj c calculation by simp
      ultimately show ?thesis using 1 p c \<open>A c \<noteq> A p\<close> by (simp add: swapped_def node_at_def)
    qed
  next
    case 2
    have "A c \<noteq> A p" using inj c by auto
    have c1: "c \<noteq> 1" using c by auto
    have x: "exchange p c A (c div 2) = A c" using c by auto
    have y: "exchange p c A (2 * c) = A (2 * c)" "exchange p c A (2 * c + 1) = A (2 * c + 1)"
      using c by (simp_all add: exchange_def) arith+
    show ?thesis using 2 p c x y c1 \<open>A c \<noteq> A p\<close> by (simp add: swapped_def node_at_def)
  next
    case 3
    have ne: "A i \<noteq> A p" "A i \<noteq> A c" using inj [of i p] inj [of i c] c i 3 by auto
    have k: "Some (A i) = nd_left (hp_nodes h (A c)) \<or> Some (A i) = nd_right (hp_nodes h (A c)) \<longleftrightarrow> i div 2 = c"
    proof -
      have "i div 2 = c \<longleftrightarrow> i = 2 * c \<or> i = 2 * c + 1" by arith
      then show ?thesis using inj [of i "2 * c"] inj [of i "2 * c + 1"] c i by (auto simp: p node_at_def)
    qed
    have le: "nd_left (hp_nodes h (A p)) = Some (A c) \<longleftrightarrow> c = 2 * p"
      using inj [of "2 * p" c] c by (auto simp: p node_at_def)
    have s: "Some (A i) = (if c = 2 * p then nd_right (hp_nodes h (A p)) else nd_left (hp_nodes h (A p))) \<longleftrightarrow> i div 2 = p"
    proof -
      have "i div 2 = p \<longleftrightarrow> i = 2 * p \<or> i = 2 * p + 1" by arith
      then have "i div 2 = p \<longleftrightarrow> i = (if c = 2 * p then 2 * p + 1 else 2 * p)" using c(1) 3(2) by auto
      then show ?thesis using inj [of i "2 * p"] inj [of i "2 * p + 1"] c i by (auto simp: p node_at_def)
    qed
    have g: "Some (A i) = nd_parent (hp_nodes h (A p)) \<longleftrightarrow> p \<noteq> 1 \<and> i = p div 2"
      using inj [of i "p div 2"] c i by (auto simp: p node_at_def)
    have ni: "hp_nodes h (A i) = node_at A n i" using node i by simp
    have sw: "swapped h (A p) (A c) (A i) =
      (if i div 2 = c then (node_at A n i)\<lparr>nd_parent := Some (A p)\<rparr>
       else if i div 2 = p then (node_at A n i)\<lparr>nd_parent := Some (A c)\<rparr>
       else if p \<noteq> 1 \<and> i = p div 2
       then (if p = 2 * i then (node_at A n i)\<lparr>nd_left := Some (A c)\<rparr> else (node_at A n i)\<lparr>nd_right := Some (A c)\<rparr>)
       else node_at A n i)"
    proof -
      have "nd_left (node_at A n i) = Some (A p) \<longleftrightarrow> p = 2 * i"
        using inj [of "2 * i" p] c i by (auto simp: node_at_def)
      then show ?thesis unfolding swapped_def Let_def by (simp only: ne k le s g ni if_False simp_thms)
    qed
    have ex: "exchange p c A i = A i" using 3 by simp
    consider (below) "i div 2 = c" | (beside) "i div 2 = p" "i div 2 \<noteq> c" | (above) "p \<noteq> 1" "i = p div 2"
      | (other) "i div 2 \<noteq> c" "i div 2 \<noteq> p" "p = 1 \<or> i \<noteq> p div 2" by blast
    then show ?thesis
    proof cases
      case below
      then have "2 * i \<noteq> p" "2 * i \<noteq> c" "2 * i + 1 \<noteq> p" "2 * i + 1 \<noteq> c" "i \<noteq> 1" using c by auto
      then show ?thesis using below by (simp add: sw ex node_at_def)
    next
      case beside
      then have "2 * i \<noteq> p" "2 * i \<noteq> c" "2 * i + 1 \<noteq> p" "2 * i + 1 \<noteq> c" "i \<noteq> 1" using c by auto
      then show ?thesis using beside by (simp add: sw ex node_at_def)
    next
      case above
      have f: "i div 2 \<noteq> p" "i div 2 \<noteq> c" "2 * i \<noteq> c" "2 * i + 1 \<noteq> c" "p \<le> n" "p = 2 * i \<or> p = 2 * i + 1"
        using c i above by linarith+
      have "swapped h (A p) (A c) (A i) =
        (if p = 2 * i then (node_at A n i)\<lparr>nd_left := Some (A c)\<rparr> else (node_at A n i)\<lparr>nd_right := Some (A c)\<rparr>)"
        using sw f(1,2) above by simp
      with f ex 3 show ?thesis by (elim disjE) (simp_all add: node_at_def)
    next
      case other
      then have "2 * i \<noteq> p" "2 * i \<noteq> c" "2 * i + 1 \<noteq> p" "2 * i + 1 \<noteq> c" using c i 3 by auto
      moreover have "swapped h (A p) (A c) (A i) = node_at A n i" using sw other by auto
      ultimately show ?thesis using other(1,2) ex by (simp add: node_at_def)
    qed
  qed
qed

lemma nodes_set_parent_of:
  "hp_nodes (set_parent_of h p v) x = (if p = Some x then (hp_nodes h x)\<lparr>nd_parent := Some v\<rparr> else hp_nodes h x)"
  by (cases p) (auto simp: set_parent_of_def set_parent_def)

lemma nodes_relink:
  "hp_nodes (relink h p old new) x =
    (if p = Some x
     then if nd_left (hp_nodes h x) = Some old then (hp_nodes h x)\<lparr>nd_left := Some new\<rparr>
          else (hp_nodes h x)\<lparr>nd_right := Some new\<rparr>
     else hp_nodes h x)"
  by (cases p) (auto simp: relink_def set_left_def set_right_def)

lemma min_updates [simp]:
  "hp_min (set_left h a v) = hp_min h" "hp_min (set_right h a v) = hp_min h" "hp_min (set_parent h a v) = hp_min h"
  "hp_min (set_parent_of h q w) = hp_min h"
  "hp_nelts (set_left h a v) = hp_nelts h" "hp_nelts (set_right h a v) = hp_nelts h" "hp_nelts (set_parent h a v) = hp_nelts h"
  "hp_nelts (set_parent_of h q w) = hp_nelts h" "hp_nelts (relink h q a b) = hp_nelts h"
  by (auto simp: heap_updates split: option.splits)

lemma min_relink: "hp_min (relink h p old new) = (if p = None then Some new else hp_min h)"
  by (cases p) (simp_all add: relink_def)

lemma swap_at:
  assumes ab: "a \<noteq> b" and b: "le \<longleftrightarrow> nd_left (hp_nodes h a) = Some b"
    and s: "s = (if le then nd_right (hp_nodes h a) else nd_left (hp_nodes h a))"
    and l: "l = nd_left (hp_nodes h b)" and r: "r = nd_right (hp_nodes h b)" and g: "g = nd_parent (hp_nodes h a)"
    and d: "Some a \<notin> {l, r, s, g}" "Some b \<notin> {l, r, s, g}" "\<And>x. g = Some x \<Longrightarrow> Some x \<notin> {l, r, s}"
      "\<And>x. s = Some x \<Longrightarrow> Some x \<notin> {l, r}"
  shows "hp_nodes (heap_node_swap h a b) x = swapped h a b x"
    and "hp_min (heap_node_swap h a b) = (if g = None then Some b else hp_min h)"
    and "hp_nelts (heap_node_swap h a b) = hp_nelts h"
proof -
  define h1 where "h1 = h\<lparr>hp_nodes := (hp_nodes h)(a := hp_nodes h b, b := hp_nodes h a)\<rparr>"
  define h2 where "h2 = set_parent h1 a (Some b)"
  define h3 where "h3 = (if le then set_left h2 b (Some a) else set_right h2 b (Some a))"
  define h4 where "h4 = set_parent_of h3 s b"
  define h5 where "h5 = set_parent_of h4 l a"
  define h6 where "h6 = set_parent_of h5 r a"
  have n2: "hp_nodes h2 x =
      (if x = a then (hp_nodes h b)\<lparr>nd_parent := Some b\<rparr> else if x = b then hp_nodes h a else hp_nodes h x)" for x
    using ab by (simp add: h2_def h1_def set_parent_def)
  have n3: "hp_nodes h3 x =
      (if x = a then (hp_nodes h b)\<lparr>nd_parent := Some b\<rparr>
       else if x = b then (if le then (hp_nodes h a)\<lparr>nd_left := Some a\<rparr> else (hp_nodes h a)\<lparr>nd_right := Some a\<rparr>)
       else hp_nodes h x)" for x
    using ab by (simp add: h3_def set_left_def set_right_def n2)
  have n4: "hp_nodes h4 a = (hp_nodes h b)\<lparr>nd_parent := Some b\<rparr>" using d by (auto simp: h4_def nodes_set_parent_of n3)
  have n5: "hp_nodes h5 a = (hp_nodes h b)\<lparr>nd_parent := Some b\<rparr>" using d by (auto simp: h5_def nodes_set_parent_of n4)
  have n6: "hp_nodes h6 x =
      (if x = a then (hp_nodes h b)\<lparr>nd_parent := Some b\<rparr>
       else if x = b then (if le then (hp_nodes h a)\<lparr>nd_left := Some a\<rparr> else (hp_nodes h a)\<lparr>nd_right := Some a\<rparr>)
       else if Some x = l \<or> Some x = r then (hp_nodes h x)\<lparr>nd_parent := Some a\<rparr>
       else if Some x = s then (hp_nodes h x)\<lparr>nd_parent := Some b\<rparr>
       else hp_nodes h x)" for x
  proof (cases "x = a \<or> x = b")
    case True
    then have "l \<noteq> Some x" "r \<noteq> Some x" "s \<noteq> Some x" using d(1,2) by auto
    then have "hp_nodes h6 x = hp_nodes h3 x" by (simp add: h6_def h5_def h4_def nodes_set_parent_of)
    then show ?thesis using True by (simp only: n3) auto
  next
    case False
    then have "hp_nodes h3 x = hp_nodes h x" by (simp add: n3)
    then have "hp_nodes h6 x = (if Some x = l \<or> Some x = r then (hp_nodes h x)\<lparr>nd_parent := Some a\<rparr>
        else if Some x = s then (hp_nodes h x)\<lparr>nd_parent := Some b\<rparr> else hp_nodes h x)"
      by (simp add: h6_def h5_def h4_def nodes_set_parent_of eq_commute [of "Some x"])
    then show ?thesis using False by simp
  qed
  have e: "heap_node_swap h a b = relink h6 g a b"
  proof -
    have "nd_parent (hp_nodes h6 b) = g" using ab by (simp add: n6 g)
    moreover have "(if nd_left (hp_nodes h2 b) = Some b then (set_left h2 b (Some a), nd_right (hp_nodes h2 b))
        else (set_right h2 b (Some a), nd_left (hp_nodes h2 b))) = (h3, s)"
      using ab b s by (simp add: n2 h3_def)
    moreover have "nd_left (hp_nodes h4 a) = l" "nd_right (hp_nodes h5 a) = r" by (simp_all add: n4 n5 l r)
    ultimately show ?thesis
      by (simp only: heap_node_swap_def Let_def h1_def [symmetric] h2_def [symmetric] prod.case
          h4_def [symmetric] h5_def [symmetric] h6_def [symmetric])
  qed
  show "hp_nodes (heap_node_swap h a b) x = swapped h a b x"
  proof -
    have w: "swapped h a b x =
        (if x = b then (if le then (hp_nodes h a)\<lparr>nd_left := Some a\<rparr> else (hp_nodes h a)\<lparr>nd_right := Some a\<rparr>)
         else if x = a then (hp_nodes h b)\<lparr>nd_parent := Some b\<rparr>
         else if Some x = l \<or> Some x = r then (hp_nodes h x)\<lparr>nd_parent := Some a\<rparr>
         else if Some x = s then (hp_nodes h x)\<lparr>nd_parent := Some b\<rparr>
         else if Some x = g
         then (if nd_left (hp_nodes h x) = Some a then (hp_nodes h x)\<lparr>nd_left := Some b\<rparr>
               else (hp_nodes h x)\<lparr>nd_right := Some b\<rparr>)
         else hp_nodes h x)"
      by (simp only: swapped_def Let_def b [symmetric] s [symmetric] l [symmetric] r [symmetric] g [symmetric])
    show ?thesis
    proof (cases "g = Some x")
      case True
      then have "x \<noteq> a" "x \<noteq> b" "Some x \<noteq> l" "Some x \<noteq> r" "Some x \<noteq> s" using d(1,2) d(3) [of x] by auto
      with True show ?thesis by (simp add: e nodes_relink n6 w)
    next
      case False
      then have "hp_nodes (heap_node_swap h a b) x = hp_nodes h6 x" by (simp add: e nodes_relink)
      with False ab show ?thesis unfolding w n6 by auto
    qed
  qed
  have "hp_min h6 = hp_min h" "hp_nelts h6 = hp_nelts h" by (simp_all add: h6_def h5_def h4_def h3_def h2_def h1_def)
  then show "hp_min (heap_node_swap h a b) = (if g = None then Some b else hp_min h)"
    "hp_nelts (heap_node_swap h a b) = hp_nelts h"
    by (simp_all add: e min_relink)
qed

lemma swap_tree:
  assumes t: "tree_at h A n" and c: "c = 2 * p \<or> c = 2 * p + 1" "0 < p" "c \<le> n"
  shows "tree_at (heap_node_swap h (A p) (A c)) (exchange p c A) n"
    and "hp_nelts (heap_node_swap h (A p) (A c)) = hp_nelts h"
    and "x \<notin> A ` {1..n} \<Longrightarrow> hp_nodes (heap_node_swap h (A p) (A c)) x = hp_nodes h x"
proof -
  have inj: "A j = A k \<longleftrightarrow> j = k" if "0 < j" "j \<le> n" "0 < k" "k \<le> n" for j k
    using tree_at_inj [OF t] that by simp
  have np: "hp_nodes h (A p) = node_at A n p" "hp_nodes h (A c) = node_at A n c"
    using tree_at_node [OF t] c by auto
  define s where "s = (if c = 2 * p then if 2 * p + 1 \<le> n then Some (A (2 * p + 1)) else None else Some (A (2 * p)))"
  have le: "c = 2 * p \<longleftrightarrow> nd_left (hp_nodes h (A p)) = Some (A c)"
    using inj [of "2 * p" c] c by (auto simp: np node_at_def)
  have s: "s = (if c = 2 * p then nd_right (hp_nodes h (A p)) else nd_left (hp_nodes h (A p)))"
    using c by (auto simp: np node_at_def s_def)
  have in_tree: "\<exists>j. x = A j \<and> 0 < j \<and> j \<le> n \<and> j div 2 = c"
    if "Some x = nd_left (hp_nodes h (A c)) \<or> Some x = nd_right (hp_nodes h (A c))" for x
    using that c by (auto simp: np node_at_def split: if_splits intro: exI [of _ "2 * c"] exI [of _ "2 * c + 1"])
  have s_tree: "\<exists>j. x = A j \<and> 0 < j \<and> j \<le> n \<and> j div 2 = p \<and> j \<noteq> c" if "Some x = s" for x
    using that c by (auto simp: s_def split: if_splits intro: exI [of _ "2 * p"] exI [of _ "2 * p + 1"])
  have g_tree: "x = A (p div 2) \<and> 1 < p" if "Some x = nd_parent (hp_nodes h (A p))" for x
    using that c by (auto simp: np node_at_def split: if_splits)
  have lr: "j div 2 = c"
    if "Some (A j) = nd_left (hp_nodes h (A c)) \<or> Some (A j) = nd_right (hp_nodes h (A c))" "0 < j" "j \<le> n" for j
    using in_tree [OF that(1)] inj that(2,3) by auto
  have sj: "j div 2 = p \<and> j \<noteq> c" if "Some (A j) = s" "0 < j" "j \<le> n" for j
    using s_tree [OF that(1)] inj that(2,3) by auto
  have gj: "1 < p \<and> j = p div 2" if "Some (A j) = nd_parent (hp_nodes h (A p))" "0 < j" "j \<le> n" for j
    using g_tree [OF that(1)] inj [of j "p div 2"] that(2,3) c by auto
  have d1: "Some (A p) \<notin> {nd_left (hp_nodes h (A c)), nd_right (hp_nodes h (A c)), s, nd_parent (hp_nodes h (A p))}"
    using lr [of p] sj [of p] gj [of p] c by auto
  have d2: "Some (A c) \<notin> {nd_left (hp_nodes h (A c)), nd_right (hp_nodes h (A c)), s, nd_parent (hp_nodes h (A p))}"
    using lr [of c] sj [of c] gj [of c] c by auto
  have d3: "Some x \<notin> {nd_left (hp_nodes h (A c)), nd_right (hp_nodes h (A c)), s}"
    if "nd_parent (hp_nodes h (A p)) = Some x" for x
  proof -
    have "x = A (p div 2)" "1 < p" using g_tree [of x] that by auto
    moreover from this have "0 < p div 2" "p div 2 \<le> n" "p div 2 div 2 \<noteq> c" "p div 2 div 2 \<noteq> p" using c by linarith+
    ultimately show ?thesis using lr [of "p div 2"] sj [of "p div 2"] by auto
  qed
  have d4: "Some x \<notin> {nd_left (hp_nodes h (A c)), nd_right (hp_nodes h (A c))}" if x: "s = Some x" for x
  proof -
    obtain j where "x = A j" "0 < j" "j \<le> n" "j div 2 = p" using s_tree [of x] x by auto
    then show ?thesis using lr [of j] c by auto
  qed
  have ne: "A p \<noteq> A c" using inj [of p c] c by auto
  note w = swap_at [OF ne le s refl refl refl d1 d2 d3 d4]
  have "inj_on (exchange p c A) {1..n}"
    using inj c by (auto simp: inj_on_def exchange_def)
  moreover have "hp_min h = Some (A 1)" using t c by (auto simp: tree_at_def)
  moreover have "nd_parent (hp_nodes h (A p)) = None \<longleftrightarrow> p = 1" by (simp add: np node_at_def)
  moreover have "c \<noteq> 1" using c by auto
  ultimately show "tree_at (heap_node_swap h (A p) (A c)) (exchange p c A) n"
    using w c swapped_tree [OF t c] by (auto simp: tree_at_def exchange_def)
  show "hp_nelts (heap_node_swap h (A p) (A c)) = hp_nelts h" by (rule w(3))
  assume x: "x \<notin> A ` {1..n}"
  then have nx: "x \<noteq> A j" if "0 < j" "j \<le> n" for j using that by auto
  have "p div 2 \<le> n" using c by linarith
  have "x \<noteq> A p" "x \<noteq> A c" using nx [of p] nx [of c] c by auto
  moreover have "\<not> (Some x = nd_left (hp_nodes h (A c)) \<or> Some x = nd_right (hp_nodes h (A c)))" using in_tree nx by blast
  moreover have "Some x \<noteq> s" using s_tree nx by blast
  moreover have "Some x \<noteq> nd_parent (hp_nodes h (A p))" using g_tree [of x] nx [of "p div 2"] \<open>p div 2 \<le> n\<close> by auto
  ultimately show "hp_nodes (heap_node_swap h (A p) (A c)) x = hp_nodes h x"
    by (simp only: w(1) swapped_def Let_def le [symmetric] s [symmetric] if_False simp_thms)
qed

section \<open>Paths\<close>

fun follow :: "nat \<Rightarrow> nat \<Rightarrow> nat \<Rightarrow> nat" where
  "follow pos path 0 = pos"
| "follow pos path (Suc k) = follow (2 * pos + path mod 2) (path div 2) k"

lemma unat_path_step:
  fixes q n :: u32
  assumes "unat q < 2 ^ 31"
  shows "unat (push_bit 1 q OR (n AND 1)) = 2 * unat q + unat n mod 2"
proof -
  have "push_bit 1 q OR (n AND 1) = push_bit 1 q + (n AND 1)"
    by (rule disjunctive_add [symmetric]) (auto simp: bit_push_bit_iff bit_and_iff bit_1_iff simp del: push_bit_Suc One_nat_def push_bit_of_1 push_bit_numeral)
  moreover have "unat (push_bit 1 q) = 2 * unat q"
    using assms by (simp add: push_bit_eq_mult unat_word_ariths)
  moreover have "unat (n AND 1) = unat n mod 2" by (simp add: and_one_eq unat_mod)
  ultimately show ?thesis using assms by (simp add: unat_word_ariths)
qed

lemma heap_path_follow:
  assumes "0 < n" and "unat q < 2 ^ j" and "unat n * 2 ^ j < 2 ^ 32" and "heap_path n q j = (path, k)"
  shows "follow 1 (unat path) k = follow (unat n) (unat q) j"
  using assms
proof (induction n q j rule: heap_path.induct)
  case (1 n q j)
  show ?case
  proof (cases "2 \<le> n")
    case False
    then have "unat n < 2" "0 < unat n" using 1(2) by (simp_all add: word_le_nat_alt word_less_nat_alt)
    then have "unat n = unat (1 :: u32)" by simp
    then have "n = 1" by (simp only: word_unat_eq_iff)
    with 1 False show ?thesis by (simp add: heap_path.simps)
  next
    case True
    then have n2: "2 \<le> unat n" by (simp add: word_le_nat_alt)
    have "2 ^ j * 2 \<le> unat n * 2 ^ j" using n2 by simp
    then have "(2::nat) ^ j * 2 < 2 ^ 32" using 1(4) by linarith
    then have "unat q < 2 ^ 31" using 1(3) by simp
    note st = unat_path_step [OF this, of n]
    have d: "unat (n div 2) = unat n div 2" by (simp add: unat_div)
    have "follow 1 (unat path) k = follow (unat (n div 2)) (unat (push_bit 1 q OR (n AND 1))) (j + 1)"
    proof (rule 1(1) [OF True])
      show "0 < n div 2" using n2 d by (simp add: word_less_nat_alt)
      show "unat (push_bit 1 q OR (n AND 1)) < 2 ^ (j + 1)" using 1(3) unfolding st by auto
      have "unat n div 2 * 2 * 2 ^ j \<le> unat n * 2 ^ j" by (rule mult_le_mono1) simp
      then show "unat (n div 2) * 2 ^ (j + 1) < 2 ^ 32" using 1(4) d by (simp only: power_add power_one_right mult_ac)
      show "heap_path (n div 2) (push_bit 1 q OR (n AND 1)) (j + 1) = (path, k)" using 1(5) True by (simp add: heap_path.simps [of n])
    qed
    then show ?thesis unfolding st d by simp
  qed
qed

lemma heap_path_position: "\<lbrakk>0 < n; heap_path n 0 0 = (path, k)\<rbrakk> \<Longrightarrow> follow 1 (unat path) k = unat n"
  using heap_path_follow [of n 0 0 path k] unsigned_less [of n] by simp

lemma follow_ge: "pos \<le> follow pos path k"
  by (induction pos path k rule: follow.induct) auto

definition slot_of :: "(nat \<Rightarrow> addr) \<Rightarrow> nat \<Rightarrow> heap_slot" where
  "slot_of A pos = (if pos = 1 then Min_Slot else if even pos then Left_Slot (A (pos div 2)) else Right_Slot (A (pos div 2)))"

lemma load_slot_of:
  assumes "tree_at h A n" and "0 < pos" and "pos div 2 \<le> n"
  shows "load_slot h (slot_of A pos) = (if pos \<le> n then Some (A pos) else None)"
proof (cases "pos = 1")
  case False
  then have "hp_nodes h (A (pos div 2)) = node_at A n (pos div 2)" using tree_at_node [OF assms(1), of "pos div 2"] assms by simp
  then show ?thesis using False by (auto simp: slot_of_def node_at_def elim!: evenE oddE)
qed (use assms in \<open>auto simp: slot_of_def tree_at_def\<close>)

lemma walk_path_tree:
  assumes t: "tree_at h A n" and "0 < pos" and "follow pos (unat path) k div 2 \<le> n"
  shows "walk_path h k path par (slot_of A pos) =
    Some (if k = 0 then par else slot_of A (follow pos (unat path) k div 2), slot_of A (follow pos (unat path) k))"
  using assms(2,3)
proof (induction k arbitrary: pos path par)
  case (Suc k)
  let ?b = "unat path mod 2"
  have f: "follow pos (unat path) (Suc k) = follow (2 * pos + ?b) (unat (drop_bit 1 path)) k"
    by (simp add: drop_bit_eq_div unat_div)
  have "2 * pos + ?b \<le> follow pos (unat path) (Suc k)" using follow_ge [of "2 * pos + ?b"] f by simp
  then have p: "pos \<le> n" using Suc.prems by linarith
  have l: "load_slot h (slot_of A pos) = Some (A pos)" using load_slot_of [OF t, of pos] Suc.prems p by simp
  have b: "path AND 1 \<noteq> 0 \<longleftrightarrow> ?b = 1" by (simp add: and_one_eq unat_eq_0 [symmetric] unat_mod odd_iff_mod_2_eq_one)
  have s: "(if path AND 1 \<noteq> 0 then Right_Slot (A pos) else Left_Slot (A pos)) = slot_of A (2 * pos + ?b)"
    using Suc.prems by (auto simp: b slot_of_def)
  have "walk_path h (Suc k) path par (slot_of A pos) =
      walk_path h k (drop_bit 1 path) (slot_of A pos) (slot_of A (2 * pos + ?b))"
    by (simp add: l s del: s [symmetric])
  also have "\<dots> = Some (if k = 0 then slot_of A pos else slot_of A (follow pos (unat path) (Suc k) div 2),
      slot_of A (follow pos (unat path) (Suc k)))"
    using Suc.IH [of "2 * pos + ?b" "drop_bit 1 path" "slot_of A pos"] Suc.prems f by simp
  finally show ?case by (cases k) simp_all
qed simp

section \<open>The heap order\<close>

text \<open>What the heap needs of its comparison: \<open>\<not> lt b a\<close> is a total preorder.\<close>

locale heap_order =
  fixes lt :: "addr \<Rightarrow> addr \<Rightarrow> bool"
  assumes lt_asym: "lt a b \<Longrightarrow> \<not> lt b a"
    and lt_not_trans: "\<lbrakk>\<not> lt b a; \<not> lt c b\<rbrakk> \<Longrightarrow> \<not> lt c a"

definition ordered_at :: "(addr \<Rightarrow> addr \<Rightarrow> bool) \<Rightarrow> (nat \<Rightarrow> addr) \<Rightarrow> nat \<Rightarrow> bool" where
  "ordered_at lt A j \<longleftrightarrow> \<not> lt (A j) (A (j div 2))"

definition heap_ordered :: "(addr \<Rightarrow> addr \<Rightarrow> bool) \<Rightarrow> (nat \<Rightarrow> addr) \<Rightarrow> nat \<Rightarrow> bool" where
  "heap_ordered lt A n \<longleftrightarrow> (\<forall>j\<in>{2..n}. ordered_at lt A j)"

text \<open>The order holds except perhaps between position \<open>i\<close> and its parent; the children of \<open>i\<close> are not below its parent.\<close>

definition defect_up :: "(addr \<Rightarrow> addr \<Rightarrow> bool) \<Rightarrow> (nat \<Rightarrow> addr) \<Rightarrow> nat \<Rightarrow> nat \<Rightarrow> bool" where
  "defect_up lt A n i \<longleftrightarrow> 0 < i \<and> i \<le> n \<and> (\<forall>j\<in>{2..n}. j \<noteq> i \<longrightarrow> ordered_at lt A j) \<and>
     (\<forall>j\<in>{2..n}. 1 < i \<and> j div 2 = i \<longrightarrow> \<not> lt (A j) (A (i div 2)))"

text \<open>As before, and perhaps not between \<open>i\<close> and its children either.\<close>

definition defect :: "(addr \<Rightarrow> addr \<Rightarrow> bool) \<Rightarrow> (nat \<Rightarrow> addr) \<Rightarrow> nat \<Rightarrow> nat \<Rightarrow> bool" where
  "defect lt A n i \<longleftrightarrow> 0 < i \<and> i \<le> n \<and> (\<forall>j\<in>{2..n}. j \<noteq> i \<and> j div 2 \<noteq> i \<longrightarrow> ordered_at lt A j) \<and>
     (\<forall>j\<in>{2..n}. 1 < i \<and> j div 2 = i \<longrightarrow> \<not> lt (A j) (A (i div 2)))"

context heap_order
begin

lemma defect_up_done:
  assumes "defect_up lt A n i" and "i = 1 \<or> \<not> lt (A i) (A (i div 2))"
  shows "heap_ordered lt A n"
  using assms by (auto simp: defect_up_def heap_ordered_def ordered_at_def)

lemma defect_up_step:
  assumes d: "defect_up lt A n i" and i: "1 < i" and l: "lt (A i) (A (i div 2))"
  shows "defect_up lt (exchange (i div 2) i A) n (i div 2)"
proof -
  define p where "p = i div 2"
  have p: "0 < p" "p < i" "i \<le> n" "p \<le> n" "i = 2 * p \<or> i = 2 * p + 1" using d i by (auto simp: p_def defect_up_def)
  let ?B = "exchange p i A"
  have o: "\<not> lt (A j) (A (j div 2))" if "2 \<le> j" "j \<le> n" "j \<noteq> i" for j
    using d that by (auto simp: defect_up_def ordered_at_def)
  have g: "\<not> lt (A j) (A p)" if "2 \<le> j" "j \<le> n" "j div 2 = i" for j
    using d i that by (auto simp: defect_up_def p_def)
  have e: "\<not> lt (A p) (A i)" using l lt_asym p_def by blast
  have "ordered_at lt ?B j" if j: "2 \<le> j" "j \<le> n" "j \<noteq> p" for j
  proof -
    consider "j = i" | "j \<noteq> i" "j div 2 = p" | "j div 2 = i" | "j \<noteq> i" "j div 2 \<noteq> p" "j div 2 \<noteq> i" by blast
    then show ?thesis
    proof cases
      case 1
      then show ?thesis using e p_def p by (simp add: ordered_at_def)
    next
      case 2
      then show ?thesis using o [of j] j e lt_not_trans [of "A p" "A i" "A j"] by (simp add: ordered_at_def)
    next
      case 3
      then have "j \<noteq> i" using p by auto
      then show ?thesis using g [of j] j 3 p by (simp add: ordered_at_def)
    next
      case 4
      then show ?thesis using o [of j] j by (simp add: ordered_at_def)
    qed
  qed
  moreover have "\<not> lt (?B j) (?B (p div 2))" if j: "2 \<le> j" "j \<le> n" "1 < p" "j div 2 = p" for j
  proof -
    have "p div 2 \<noteq> p" "p div 2 \<noteq> i" using p j(3) by linarith+
    then have q: "?B (p div 2) = A (p div 2)" by simp
    have op: "\<not> lt (A p) (A (p div 2))" using o [of p] p j(3) by simp
    show ?thesis
    proof (cases "j = i")
      case True
      then show ?thesis using op q by simp
    next
      case False
      then have "?B j = A j" using j p by (auto simp: exchange_def)
      moreover have "\<not> lt (A j) (A p)" using o [of j] False j by simp
      ultimately show ?thesis using q op lt_not_trans [of "A p" "A (p div 2)" "A j"] by simp
    qed
  qed
  ultimately show ?thesis using p by (auto simp: defect_up_def p_def [symmetric])
qed

lemma defect_done:
  assumes "defect lt A n i" and "\<And>j. \<lbrakk>2 \<le> j; j \<le> n; j div 2 = i\<rbrakk> \<Longrightarrow> \<not> lt (A j) (A i)"
  shows "defect_up lt A n i"
  using assms by (auto simp: defect_def defect_up_def ordered_at_def)

lemma defect_step:
  assumes d: "defect lt A n i" and m: "m div 2 = i" "m \<le> n" "lt (A m) (A i)"
    and s: "\<And>j. \<lbrakk>2 \<le> j; j \<le> n; j div 2 = i\<rbrakk> \<Longrightarrow> \<not> lt (A j) (A m)"
  shows "defect lt (exchange i m A) n m"
proof -
  have i: "0 < i" "i < m" using d m(1) by (auto simp: defect_def)
  let ?B = "exchange i m A"
  have o: "\<not> lt (A j) (A (j div 2))" if "2 \<le> j" "j \<le> n" "j \<noteq> i" "j div 2 \<noteq> i" for j
    using d that by (auto simp: defect_def ordered_at_def)
  have g: "\<not> lt (A j) (A (i div 2))" if "2 \<le> j" "j \<le> n" "j div 2 = i" "1 < i" for j
    using d that by (auto simp: defect_def)
  have "ordered_at lt ?B j" if j: "2 \<le> j" "j \<le> n" "j \<noteq> m" "j div 2 \<noteq> m" for j
  proof -
    consider "j = i" | "j \<noteq> i" "j div 2 = i" | "j \<noteq> i" "j div 2 \<noteq> i" by blast
    then show ?thesis
    proof cases
      case 1
      have "i div 2 \<noteq> i" "i div 2 \<noteq> m" using i by linarith+
      then have "?B (j div 2) = A (i div 2)" using 1 by simp
      moreover have "\<not> lt (A m) (A (i div 2))" using g [of m] m i 1 j by simp
      ultimately show ?thesis using 1 by (simp add: ordered_at_def)
    next
      case 2
      then show ?thesis using s [of j] j by (simp add: ordered_at_def)
    next
      case 3
      then show ?thesis using o [of j] j by (simp add: ordered_at_def)
    qed
  qed
  moreover have "\<not> lt (?B j) (?B (m div 2))" if "2 \<le> j" "j \<le> n" "j div 2 = m" for j
  proof -
    have "j \<noteq> i" "j \<noteq> m" "j div 2 \<noteq> i" using that i by auto
    then show ?thesis using o [of j] that m by simp
  qed
  ultimately show ?thesis using i m by (auto simp: defect_def)
qed

lemma root_least: "\<lbrakk>heap_ordered lt A n; 0 < i; i \<le> n\<rbrakk> \<Longrightarrow> \<not> lt (A i) (A 1)"
proof (induction i rule: less_induct)
  case (less i)
  show ?case
  proof (cases "i = 1")
    case True
    then show ?thesis using lt_asym by blast
  next
    case False
    then have "\<not> lt (A i) (A (i div 2))" using less.prems by (auto simp: heap_ordered_def ordered_at_def)
    moreover have "\<not> lt (A (i div 2)) (A 1)" using less False by simp
    ultimately show ?thesis using lt_not_trans by blast
  qed
qed

end

text \<open>One arrangement of the same nodes has become another; the store is the same elsewhere.\<close>

definition rearranged :: "heap \<Rightarrow> (nat \<Rightarrow> addr) \<Rightarrow> nat \<Rightarrow> heap \<Rightarrow> (nat \<Rightarrow> addr) \<Rightarrow> bool" where
  "rearranged h A n h' B \<longleftrightarrow> tree_at h' B n \<and> B ` {1..n} = A ` {1..n} \<and> hp_nelts h' = hp_nelts h \<and>
     (\<forall>x. x \<notin> A ` {1..n} \<longrightarrow> hp_nodes h' x = hp_nodes h x)"

lemma rearranged_refl: "tree_at h A n \<Longrightarrow> rearranged h A n h A"
  by (simp add: rearranged_def)

lemma rearranged_trans: "\<lbrakk>rearranged h A n h' B; rearranged h' B n h'' C\<rbrakk> \<Longrightarrow> rearranged h A n h'' C"
  by (simp add: rearranged_def)

lemma exchange_image: "p \<in> S \<Longrightarrow> c \<in> S \<Longrightarrow> exchange p c A ` S = A ` S"
  by (auto simp: exchange_def image_iff)

lemma swap_rearranged:
  assumes "tree_at h A n" and "c div 2 = p" and "0 < p" and "c \<le> n"
  shows "rearranged h A n (heap_node_swap h (A p) (A c)) (exchange p c A)"
proof -
  have c: "c = 2 * p \<or> c = 2 * p + 1" using assms(2) by arith
  show ?thesis
    using swap_tree [OF assms(1) c assms(3,4)] assms exchange_image [of p "{1..n}" c A] by (auto simp: rearranged_def)
qed

context heap_order
begin

lemma sift_up_ordered:
  assumes "tree_at h A n" and "defect_up lt A n i"
  shows "\<exists>h' B. sift_up lt h (A i) = Some h' \<and> rearranged h A n h' B \<and> heap_ordered lt B n"
  using assms
proof (induction i arbitrary: h A rule: less_induct)
  case (less i)
  have i: "0 < i" "i \<le> n" using less.prems(2) by (simp_all add: defect_up_def)
  have par: "nd_parent (hp_nodes h (A i)) = (if i = 1 then None else Some (A (i div 2)))"
    using tree_at_node [OF less.prems(1), of i] i by (simp add: node_at_def)
  show ?case
  proof (cases "i = 1 \<or> \<not> lt (A i) (A (i div 2))")
    case True
    then have "sift_up lt h (A i) = Some h" by (subst sift_up.simps) (auto simp: par)
    then show ?thesis using rearranged_refl [OF less.prems(1)] defect_up_done [OF less.prems(2) True] by blast
  next
    case False
    let ?h = "heap_node_swap h (A (i div 2)) (A i)" and ?A = "exchange (i div 2) i A"
    have r: "rearranged h A n ?h ?A" using swap_rearranged [OF less.prems(1), of i] i False by simp
    have d: "defect_up lt ?A n (i div 2)" using defect_up_step [OF less.prems(2)] False i by simp
    have s: "sift_up lt h (A i) = sift_up lt ?h (?A (i div 2))" using False by (subst sift_up.simps) (simp add: par)
    show ?thesis unfolding s
      using less.IH [of "i div 2" ?h ?A] d r i rearranged_trans [OF r] by (auto simp: rearranged_def)
  qed
qed

lemma smallest_child_spec:
  assumes "tree_at h A n" and "0 < i" and "i \<le> n"
  shows "\<exists>m. smallest_child lt h (A i) = A m \<and> 0 < m \<and> m \<le> n \<and>
    (m = i \<or> m div 2 = i \<and> lt (A m) (A i)) \<and> (\<forall>j. 2 \<le> j \<and> j \<le> n \<and> j div 2 = i \<longrightarrow> \<not> lt (A j) (A m))"
proof -
  have node: "hp_nodes h (A i) = node_at A n i" using tree_at_node [OF assms(1)] assms by simp
  have ch: "j = 2 * i \<or> j = 2 * i + 1" if "j div 2 = i" for j using that by arith
  have irrefl: "\<not> lt a a" for a using lt_asym by blast
  define l where "l = (if 2 * i \<le> n \<and> lt (A (2 * i)) (A i) then 2 * i else i)"
  define m where "m = (if 2 * i + 1 \<le> n \<and> lt (A (2 * i + 1)) (A l) then 2 * i + 1 else l)"
  have eq: "smallest_child lt h (A i) = A m"
    by (auto simp: smallest_child_def node node_at_def m_def l_def)
  have l: "\<not> lt (A i) (A l)" "2 * i \<le> n \<Longrightarrow> \<not> lt (A (2 * i)) (A l)" "l = i \<or> l = 2 * i \<and> lt (A l) (A i)" "l \<le> n"
    using assms irrefl lt_asym by (auto simp: l_def)
  have m: "\<not> lt (A l) (A m)" "2 * i + 1 \<le> n \<Longrightarrow> \<not> lt (A (2 * i + 1)) (A m)" "m = l \<or> m = 2 * i + 1 \<and> lt (A m) (A l)" "m \<le> n"
    using l irrefl lt_asym by (auto simp: m_def)
  have "lt (A m) (A i)" if "lt (A m) (A l)" using that l(1) lt_not_trans [of "A i" "A l" "A m"] lt_asym lt_not_trans by blast
  moreover have "\<not> lt (A j) (A m)" if j: "2 \<le> j" "j \<le> n" "j div 2 = i" for j
    using ch [OF j(3)] l(2) m(1,2) j lt_not_trans [of "A l" "A m" "A j"] by auto
  ultimately show ?thesis using eq l m assms by (intro exI [of _ m]) auto
qed

lemma sift_down_repairs:
  assumes "tree_at h A n" and "defect lt A n i"
  shows "\<exists>h' B k. sift_down lt h (A i) = Some h' \<and> rearranged h A n h' B \<and> B k = A i \<and> defect_up lt B n k"
  using assms
proof (induction "n - i" arbitrary: i h A rule: less_induct)
  case less
  have i: "0 < i" "i \<le> n" using less.prems(2) by (simp_all add: defect_def)
  obtain m where m: "smallest_child lt h (A i) = A m" "0 < m" "m \<le> n" "m = i \<or> m div 2 = i \<and> lt (A m) (A i)"
    "\<And>j. \<lbrakk>2 \<le> j; j \<le> n; j div 2 = i\<rbrakk> \<Longrightarrow> \<not> lt (A j) (A m)"
    using smallest_child_spec [OF less.prems(1) i] by blast
  show ?case
  proof (cases "m = i")
    case True
    then have "sift_down lt h (A i) = Some h" by (subst sift_down.simps) (simp add: m(1))
    moreover have "defect_up lt A n i" using defect_done [OF less.prems(2)] m(5) True by blast
    ultimately show ?thesis using rearranged_refl [OF less.prems(1)] by blast
  next
    case False
    let ?h = "heap_node_swap h (A i) (A m)" and ?A = "exchange i m A"
    have mi: "m div 2 = i" "lt (A m) (A i)" "i < m" using m(4) False m(2) by auto
    have r: "rearranged h A n ?h ?A" using swap_rearranged [OF less.prems(1) mi(1) i(1) m(3)] .
    have d: "defect lt ?A n m" using defect_step [OF less.prems(2) mi(1) m(3) mi(2) m(5)] .
    have "A m \<noteq> A i" using tree_at_inj [OF less.prems(1), of m i] m i False by simp
    then have s: "sift_down lt h (A i) = sift_down lt ?h (?A m)" by (subst sift_down.simps) (simp add: m(1))
    have "n - m < n - i" using mi(3) m(3) by simp
    from less.hyps [OF this _ d, of ?h] r
    obtain h' B k where "sift_down lt ?h (?A m) = Some h'" "rearranged ?h ?A n h' B" "B k = ?A m" "defect_up lt B n k"
      by (auto simp: rearranged_def)
    then show ?thesis using s rearranged_trans [OF r] by auto
  qed
qed

end

section \<open>Insertion and removal\<close>

lemma follow_ge_double: "0 < k \<Longrightarrow> 2 * pos \<le> follow pos path k"
proof (cases k)
  case (Suc j)
  then show ?thesis using follow_ge [of "2 * pos + path mod 2" "path div 2" j] by simp
qed simp

lemma walk_to_position:
  assumes t: "tree_at h A n" and N: "0 < N" "unat N \<le> n + 1" and hp: "heap_path N 0 0 = (path, k)"
  shows "walk_path h k path Min_Slot Min_Slot =
    Some (if unat N = 1 then Min_Slot else slot_of A (unat N div 2), slot_of A (unat N))"
proof -
  have f: "follow 1 (unat path) k = unat N" by (rule heap_path_position [OF N(1) hp])
  have k: "k = 0 \<longleftrightarrow> unat N = 1" using f follow_ge_double [of k 1 "unat path"] by (cases "k = 0") auto
  have "slot_of A 1 = Min_Slot" by (simp add: slot_of_def)
  then show ?thesis using walk_path_tree [OF t, of 1 path k Min_Slot] N f k by simp
qed

text \<open>The slot of a position decides where the tree is changed when something is stored there.\<close>

lemma nodes_store_slot:
  assumes "0 < pos"
  shows "hp_nodes (store_slot h (slot_of A pos) v) x =
    (if pos \<noteq> 1 \<and> x = A (pos div 2)
     then if even pos then (hp_nodes h x)\<lparr>nd_left := v\<rparr> else (hp_nodes h x)\<lparr>nd_right := v\<rparr>
     else hp_nodes h x)"
    and "hp_min (store_slot h (slot_of A pos) v) = (if pos = 1 then v else hp_min h)"
    and "hp_nelts (store_slot h (slot_of A pos) v) = hp_nelts h"
  by (auto simp: slot_of_def set_left_def set_right_def)

lemma attach_tree:
  assumes t: "tree_at h A n" and x: "x \<notin> A ` {1..n}" and nx: "hp_nodes h x = \<lparr>nd_left = None, nd_right = None, nd_parent = None\<rparr>"
  shows "tree_at (store_slot (set_parent h x (if n = 0 then None else Some (A ((n + 1) div 2)))) (slot_of A (n + 1)) (Some x))
    (A(n + 1 := x)) (n + 1)" (is "tree_at ?h ?B _")
proof -
  have xi: "x \<noteq> A i" if "0 < i" "i \<le> n" for i using x that by auto
  have inj: "A j = A k \<longleftrightarrow> j = k" if "0 < j" "j \<le> n" "0 < k" "k \<le> n" for j k
    using tree_at_inj [OF t] that by simp
  have "inj_on ?B {1..n + 1}"
  proof -
    have "inj_on A {1..n}" using t by (simp add: tree_at_def)
    then have "inj_on ?B {1..n}" using x by (rule inj_on_fun_updI)
    moreover have "?B (n + 1) \<notin> ?B ` {1..n}" using x by simp
    moreover have "{1..n + 1} = insert (n + 1) {1..n}" by auto
    ultimately show ?thesis by simp
  qed
  moreover have "hp_min ?h = Some (?B 1)" using t by (simp add: nodes_store_slot tree_at_def)
  moreover have "hp_nodes ?h (?B i) = node_at ?B (n + 1) i" if i: "0 < i" "i \<le> n + 1" for i
  proof (cases "i = n + 1")
    case True
    have "n \<noteq> 0 \<Longrightarrow> x \<noteq> A ((n + 1) div 2)" using xi [of "(n + 1) div 2"] by simp
    then show ?thesis using True nx by (auto simp: nodes_store_slot set_parent_def node_at_def)
  next
    case False
    then have i: "0 < i" "i \<le> n" using i by auto
    have n: "hp_nodes (set_parent h x v) (A i) = node_at A n i" for v
      using tree_at_node [OF t, of i] xi [OF i] i by (simp add: set_parent_def)
    have N: "0 < n + 1" by simp
    have p: "A i = A ((n + 1) div 2) \<longleftrightarrow> i = (n + 1) div 2" using inj [of i "(n + 1) div 2"] i by auto
    have c: "i = (n + 1) div 2 \<longleftrightarrow> 2 * i = n + 1 \<or> 2 * i + 1 = n + 1" by arith
    have "even (n + 1) \<longleftrightarrow> 2 * i = n + 1" if "2 * i = n + 1 \<or> 2 * i + 1 = n + 1" using that by presburger
    moreover have "n + 1 \<noteq> 1" using i by simp
    ultimately have "hp_nodes ?h (A i) =
      (if 2 * i = n + 1 then (node_at A n i)\<lparr>nd_left := Some x\<rparr>
       else if 2 * i + 1 = n + 1 then (node_at A n i)\<lparr>nd_right := Some x\<rparr> else node_at A n i)"
      unfolding nodes_store_slot(1) [OF N] n p c by auto
    moreover have "i div 2 \<noteq> n + 1" "i \<noteq> n + 1" using i by auto
    ultimately show ?thesis using i by (auto simp: node_at_def)
  qed
  ultimately show ?thesis by (auto simp: tree_at_def)
qed

lemma detach_tree:
  assumes t: "tree_at h A n" and n: "0 < n"
  shows "tree_at (store_slot h (slot_of A n) None) A (n - 1)" (is "tree_at ?h _ _")
proof -
  have inj: "A j = A k \<longleftrightarrow> j = k" if "0 < j" "j \<le> n" "0 < k" "k \<le> n" for j k
    using tree_at_inj [OF t] that by simp
  have "hp_nodes ?h (A i) = node_at A (n - 1) i" if i: "0 < i" "i \<le> n - 1" for i
  proof -
    have p: "A i = A (n div 2) \<longleftrightarrow> i = n div 2" using inj [of i "n div 2"] i by auto
    have c: "i = n div 2 \<longleftrightarrow> 2 * i = n \<or> 2 * i + 1 = n" by arith
    have e: "even n \<longleftrightarrow> 2 * i = n" if "2 * i = n \<or> 2 * i + 1 = n" using that by presburger
    have "n \<noteq> 1" "hp_nodes h (A i) = node_at A n i" using i tree_at_node [OF t, of i] by auto
    then have "hp_nodes ?h (A i) =
      (if 2 * i = n then (node_at A n i)\<lparr>nd_left := None\<rparr>
       else if 2 * i + 1 = n then (node_at A n i)\<lparr>nd_right := None\<rparr> else node_at A n i)"
      unfolding nodes_store_slot(1) [OF n] p c using e by auto
    then show ?thesis using i by (auto simp: node_at_def)
  qed
  moreover have "inj_on A {1..n - 1}"
    by (rule inj_on_subset [of A "{1..n}"]) (use t in \<open>auto simp: tree_at_def\<close>)
  ultimately show ?thesis using t n by (auto simp: tree_at_def nodes_store_slot)
qed

lemma replace_tree:
  assumes t: "tree_at h A m" and i: "0 < i" "i \<le> m" and x: "x \<notin> A ` {1..m}"
  shows "tree_at (replace_node h (A i) x) (A(i := x)) m" (is "tree_at ?h ?B _")
    and "hp_nelts (replace_node h (A i) x) = hp_nelts h"
    and "y \<notin> insert x (A ` {1..m}) \<Longrightarrow> hp_nodes (replace_node h (A i) x) y = hp_nodes h y"
proof -
  have xi: "x \<noteq> A j" if "0 < j" "j \<le> m" for j using x that by auto
  have inj: "A j = A k \<longleftrightarrow> j = k" if "0 < j" "j \<le> m" "0 < k" "k \<le> m" for j k
    using tree_at_inj [OF t] that by simp
  have node: "hp_nodes h (A j) = node_at A m j" if "0 < j" "j \<le> m" for j
    using tree_at_node [OF t] that by simp
  define h1 where "h1 = h\<lparr>hp_nodes := (hp_nodes h)(x := hp_nodes h (A i))\<rparr>"
  let ?l = "nd_left (node_at A m i)" and ?r = "nd_right (node_at A m i)" and ?p = "nd_parent (node_at A m i)"
  define h3 where "h3 = set_parent_of (set_parent_of h1 ?l x) ?r x"
  have n1: "hp_nodes h1 y = (if y = x then node_at A m i else hp_nodes h y)" for y using node i by (simp add: h1_def)
  have lr: "?l = Some (A j) \<or> ?r = Some (A j) \<longleftrightarrow> j div 2 = i" if "0 < j" "j \<le> m" for j
  proof -
    have "j div 2 = i \<longleftrightarrow> j = 2 * i \<or> j = 2 * i + 1" by arith
    then show ?thesis using inj [of j "2 * i"] inj [of j "2 * i + 1"] that i by (auto simp: node_at_def)
  qed
  have lx: "?l \<noteq> Some x" "?r \<noteq> Some x" using xi [of "2 * i"] xi [of "2 * i + 1"] i by (auto simp: node_at_def)
  have n3: "hp_nodes h3 y = (if y = x then node_at A m i else if ?l = Some y \<or> ?r = Some y
      then (hp_nodes h y)\<lparr>nd_parent := Some x\<rparr> else hp_nodes h y)" for y
    using lx by (simp add: h3_def nodes_set_parent_of n1)
  have ni: "hp_nodes h3 (A i) = node_at A m i" using n3 [of "A i"] lr [of i] xi [of i] i node by auto
  have e: "replace_node h (A i) x = relink h3 ?p (A i) x"
  proof -
    have "nd_left (hp_nodes h1 x) = ?l" "nd_right (hp_nodes (set_parent_of h1 ?l x) x) = ?r"
      using lx by (simp_all add: n1 nodes_set_parent_of)
    then show ?thesis by (simp only: replace_node_def Let_def h1_def [symmetric] h3_def [symmetric] ni)
  qed
  have pj: "?p = Some (A j) \<longleftrightarrow> i \<noteq> 1 \<and> j = i div 2" if "0 < j" "j \<le> m" for j
    using inj [of j "i div 2"] that i by (auto simp: node_at_def)
  have "hp_nodes ?h (?B j) = node_at ?B m j" if j: "0 < j" "j \<le> m" for j
  proof (cases "j = i")
    case True
    have "i div 2 \<le> m" using i by simp
    then have "?p \<noteq> Some x" using xi [of "i div 2"] i by (auto simp: node_at_def)
    then show ?thesis using True i by (auto simp: e nodes_relink n3 node_at_def)
  next
    case False
    have aj: "hp_nodes h3 (A j) = (if j div 2 = i then (node_at A m j)\<lparr>nd_parent := Some x\<rparr> else node_at A m j)"
      using n3 [of "A j"] lr [OF j] xi [OF j] node [OF j] by auto
    have left: "nd_left (hp_nodes h3 (A j)) = Some (A i) \<longleftrightarrow> i = 2 * j"
      using inj [of "2 * j" i] i j by (auto simp: aj node_at_def)
    have pi: "?p = Some (A j) \<longleftrightarrow> i \<noteq> 1 \<and> (i = 2 * j \<or> i = 2 * j + 1)" unfolding pj [OF j] by arith
    have "hp_nodes ?h (A j) =
      (if i = 2 * j then (hp_nodes h3 (A j))\<lparr>nd_left := Some x\<rparr>
       else if i = 2 * j + 1 then (hp_nodes h3 (A j))\<lparr>nd_right := Some x\<rparr> else hp_nodes h3 (A j))"
      unfolding e nodes_relink left pi using j by auto
    then show ?thesis using False i j by (auto simp: aj node_at_def)
  qed
  moreover have "inj_on ?B {1..m}" using t x by (intro inj_on_fun_updI) (simp_all add: tree_at_def)
  moreover have "hp_min ?h = Some (?B 1)"
    using t i by (auto simp: e min_relink h3_def h1_def tree_at_def node_at_def)
  ultimately show "tree_at ?h ?B m" using i by (auto simp: tree_at_def)
  show "hp_nelts (replace_node h (A i) x) = hp_nelts h" by (simp add: e h3_def h1_def)
  assume y: "y \<notin> insert x (A ` {1..m})"
  then have yj: "A j \<noteq> y" if "0 < j" "j \<le> m" for j using that by auto
  have "i div 2 \<le> m" using i by simp
  then have "?l \<noteq> Some y" "?r \<noteq> Some y" "?p \<noteq> Some y"
    using i yj [of "2 * i"] yj [of "2 * i + 1"] yj [of "i div 2"] by (auto simp: node_at_def)
  then show "hp_nodes (replace_node h (A i) x) y = hp_nodes h y" using y by (simp add: e nodes_relink n3)
qed

text \<open>The heap holds exactly the nodes \<open>S\<close>, linked as a complete tree in heap order.\<close>

definition heap_inv :: "(addr \<Rightarrow> addr \<Rightarrow> bool) \<Rightarrow> heap \<Rightarrow> addr set \<Rightarrow> bool" where
  "heap_inv lt h S \<longleftrightarrow> (\<exists>A. tree_at h A (unat (hp_nelts h)) \<and> heap_ordered lt A (unat (hp_nelts h)) \<and>
     S = A ` {1..unat (hp_nelts h)})"

lemma heap_inv_card: "heap_inv lt h S \<Longrightarrow> finite S \<and> card S = unat (hp_nelts h)"
  by (auto simp: heap_inv_def tree_at_def card_image)

lemma heap_inv_cong:
  assumes "heap_inv lt h S" and "\<And>a b. \<lbrakk>a \<in> S; b \<in> S\<rbrakk> \<Longrightarrow> lt' a b = lt a b"
  shows "heap_inv lt' h S"
proof -
  obtain A where A: "tree_at h A (unat (hp_nelts h))" "heap_ordered lt A (unat (hp_nelts h))" "S = A ` {1..unat (hp_nelts h)}"
    using assms(1) by (auto simp: heap_inv_def)
  have "heap_ordered lt' A (unat (hp_nelts h))"
    unfolding heap_ordered_def
  proof
    fix j assume j: "j \<in> {2..unat (hp_nelts h)}"
    then have "j \<in> {1..unat (hp_nelts h)}" "j div 2 \<in> {1..unat (hp_nelts h)}" by auto
    then have "A j \<in> S" "A (j div 2) \<in> S" using A(3) by blast+
    then show "ordered_at lt' A j" using A(2) j assms(2) by (auto simp: heap_ordered_def ordered_at_def)
  qed
  then show ?thesis using A by (auto simp: heap_inv_def)
qed

lemma heap_init_inv: "heap_inv lt (heap_init h) {}"
  by (simp add: heap_inv_def heap_init_def tree_at_def heap_ordered_def)

lemma tree_blank:
  assumes "tree_at h A n" and "x \<notin> A ` {1..n}"
  shows "tree_at (h\<lparr>hp_nodes := (hp_nodes h)(x := v)\<rparr>) A n"
  using assms unfolding tree_at_def by (auto simp: image_iff)

lemma tree_at_nelts [simp]: "tree_at (h\<lparr>hp_nelts := v\<rparr>) A n = tree_at h A n"
  by (simp add: tree_at_def)

lemma last_image:
  assumes inj: "inj_on A {1..n}" and n: "0 < (n :: nat)"
  shows "A n \<notin> A ` {1..n - 1}" and "A ` {1..n} - {A n} = A ` {1..n - 1}"
proof -
  show last: "A n \<notin> A ` {1..n - 1}"
  proof
    assume "A n \<in> A ` {1..n - 1}"
    then obtain j where "A n = A j" "j \<in> {1..n}" "j \<noteq> n" by auto
    then show False using inj_onD [OF inj] n by (metis atLeastAtMost_iff less_eq_Suc_le One_nat_def order_refl)
  qed
  have "{1..n} = insert n {1..n - 1}" using n by auto
  then show "A ` {1..n} - {A n} = A ` {1..n - 1}" using last by auto
qed

lemma replace_image:
  assumes inj: "inj_on A {1..n}" and i: "0 < i" "i < (n :: nat)"
  shows "(A(i := A n)) ` {1..n - 1} = A ` {1..n} - {A i}"
proof -
  have "i \<in> {1..n - 1}" using i by simp
  then have "(A(i := A n)) ` {1..n - 1} = insert (A n) (A ` ({1..n - 1} - {i}))" by (simp only: fun_upd_image if_True)
  also have "A ` ({1..n - 1} - {i}) = A ` {1..n - 1} - {A i}"
  proof -
    have "{1..n - 1} - {i} \<subseteq> {1..n}" "{i} \<subseteq> {1..n}" using i by auto
    from inj_on_image_set_diff [OF inj this] show ?thesis by simp
  qed
  also have "insert (A n) (A ` {1..n - 1} - {A i}) = A ` {1..n} - {A i}"
  proof -
    have "{1..n} = insert n {1..n - 1}" using i by auto
    moreover have "A n \<noteq> A i" using last_image(1) [OF inj] i by force
    ultimately show ?thesis by auto
  qed
  finally show ?thesis .
qed

context heap_order
begin

lemma replace_defect:
  assumes A: "heap_ordered lt A n" and i: "0 < i" "i < n"
  shows "defect lt (A(i := A n)) (n - 1) i" (is "defect lt ?B _ _")
proof -
  have o: "\<not> lt (A j) (A (j div 2))" if "2 \<le> j" "j \<le> n" for j using A that by (auto simp: heap_ordered_def ordered_at_def)
  have "ordered_at lt ?B j" if "2 \<le> j" "j \<le> n - 1" "j \<noteq> i" "j div 2 \<noteq> i" for j
    using o [of j] that by (simp add: ordered_at_def)
  moreover have "\<not> lt (?B j) (?B (i div 2))" if j: "2 \<le> j" "j \<le> n - 1" "1 < i" "j div 2 = i" for j
  proof -
    have "i div 2 \<noteq> i" "j \<noteq> i" using j by auto
    moreover have "\<not> lt (A j) (A (i div 2))" using o [of j] o [of i] j i lt_not_trans [of "A i" "A (i div 2)" "A j"] by auto
    ultimately show ?thesis by simp
  qed
  ultimately show ?thesis using i by (auto simp: defect_def)
qed

lemma heap_min_least:
  assumes "heap_inv lt h S"
  shows "heap_min h = None \<longleftrightarrow> S = {}" and "heap_min h = Some m \<Longrightarrow> m \<in> S \<and> (\<forall>a\<in>S. \<not> lt a m)"
proof -
  obtain A where A: "tree_at h A (unat (hp_nelts h))" "heap_ordered lt A (unat (hp_nelts h))" "S = A ` {1..unat (hp_nelts h)}"
    using assms by (auto simp: heap_inv_def)
  have m: "heap_min h = (if unat (hp_nelts h) = 0 then None else Some (A 1))" using A(1) by (simp add: tree_at_def heap_min_def)
  show "heap_min h = None \<longleftrightarrow> S = {}" using m A(3) by auto
  show "heap_min h = Some m \<Longrightarrow> m \<in> S \<and> (\<forall>a\<in>S. \<not> lt a m)"
    using m A(3) root_least [OF A(2)] by (auto split: if_splits)
qed

lemma heap_insert_inv:
  assumes inv: "heap_inv lt h S" and x: "x \<notin> S" and room: "card S + 1 < 2 ^ 32"
  shows "\<exists>h'. heap_insert h x lt = Some h' \<and> heap_inv lt h' (insert x S)"
proof -
  define n where "n = unat (hp_nelts h)"
  obtain A where A: "tree_at h A n" "heap_ordered lt A n" "S = A ` {1..n}"
    using inv by (auto simp: heap_inv_def n_def)
  let ?h = "h\<lparr>hp_nodes := (hp_nodes h)(x := \<lparr>nd_left = None, nd_right = None, nd_parent = None\<rparr>)\<rparr>"
  have t: "tree_at ?h A n" using tree_blank A x by simp
  have n1: "n + 1 < 2 ^ 32" using heap_inv_card [OF inv] room n_def by simp
  then have N: "unat (1 + hp_nelts h) = n + 1" by (simp add: n_def unat_word_ariths)
  then have N0: "0 < 1 + hp_nelts h" by (simp add: word_less_nat_alt)
  obtain path k where hp: "heap_path (1 + hp_nelts h) 0 0 = (path, k)" by (cases "heap_path (1 + hp_nelts h) 0 0")
  let ?par = "if n + 1 = 1 then Min_Slot else slot_of A ((n + 1) div 2)"
  have w: "walk_path ?h k path Min_Slot Min_Slot = Some (?par, slot_of A (n + 1))"
    using walk_to_position [OF t N0 _ hp] N by simp
  have lp: "load_slot ?h ?par = (if n = 0 then None else Some (A ((n + 1) div 2)))"
  proof (cases "n = 0")
    case False
    then have "0 < (n + 1) div 2" "(n + 1) div 2 div 2 \<le> n" "(n + 1) div 2 \<le> n" by linarith+
    then show ?thesis using load_slot_of [OF t, of "(n + 1) div 2"] False by simp
  qed (use t in \<open>simp add: tree_at_def\<close>)
  define h2 where "h2 = store_slot (set_parent ?h x (load_slot ?h ?par)) (slot_of A (n + 1)) (Some x)"
  define h3 where "h3 = h2\<lparr>hp_nelts := hp_nelts h2 + 1\<rparr>"
  let ?B = "A(n + 1 := x)"
  have t3: "tree_at h3 ?B (n + 1)"
    using attach_tree [OF t x [unfolded A(3)]] unfolding h3_def h2_def lp tree_at_nelts by simp
  have e3: "unat (hp_nelts h3) = n + 1" using N by (simp add: h3_def h2_def nodes_store_slot add.commute)
  have "ordered_at lt ?B j" if j: "j \<in> {2..n + 1}" "j \<noteq> n + 1" for j
  proof -
    have "j div 2 \<noteq> n + 1" using j by auto
    then show ?thesis using A(2) j by (auto simp: heap_ordered_def ordered_at_def)
  qed
  then have "defect_up lt ?B (n + 1) (n + 1)" by (auto simp: defect_up_def)
  from sift_up_ordered [OF t3 this] obtain h' C
    where s: "sift_up lt h3 x = Some h'" "rearranged h3 ?B (n + 1) h' C" "heap_ordered lt C (n + 1)" by auto
  have "heap_insert h x lt = Some h'"
    using hp w s(1) by (simp add: heap_insert_def Let_def h3_def h2_def)
  moreover have "?B ` {1..n + 1} = insert x S"
  proof -
    have "{1..n + 1} = insert (n + 1) {1..n}" by auto
    moreover have "?B ` {1..n} = A ` {1..n}" by (rule image_cong) auto
    ultimately show ?thesis using A(3) by (simp only: image_insert fun_upd_same)
  qed
  ultimately show ?thesis using s(2,3) e3 by (auto simp: heap_inv_def rearranged_def)
qed

lemma heap_remove_inv:
  assumes inv: "heap_inv lt h S" and x: "x \<in> S"
  shows "\<exists>h'. heap_remove h x lt = Some h' \<and> heap_inv lt h' (S - {x})"
proof -
  define n where "n = unat (hp_nelts h)"
  obtain A where A: "tree_at h A n" "heap_ordered lt A n" "S = A ` {1..n}"
    using inv by (auto simp: heap_inv_def n_def)
  obtain i where i: "x = A i" "0 < i" "i \<le> n" using x A(3) by auto
  have inj: "inj_on A {1..n}" using A(1) by (simp add: tree_at_def)
  have n0: "0 < n" "hp_nelts h \<noteq> 0" "0 < hp_nelts h" using i by (auto simp: n_def word_less_nat_alt)
  obtain path k where hp: "heap_path (hp_nelts h) 0 0 = (path, k)" by (cases "heap_path (hp_nelts h) 0 0")
  have w: "walk_path h k path Min_Slot Min_Slot = Some (if n = 1 then Min_Slot else slot_of A (n div 2), slot_of A n)"
    using walk_to_position [OF A(1) n0(3) _ hp] n_def by simp
  let ?h = "h\<lparr>hp_nelts := hp_nelts h - 1\<rparr>"
  have t: "tree_at ?h A n" using A(1) by simp
  have l: "load_slot ?h (slot_of A n) = Some (A n)" using load_slot_of [OF t, of n] n0 by simp
  define h1 where "h1 = store_slot ?h (slot_of A n) None"
  have t1: "tree_at h1 A (n - 1)" unfolding h1_def by (rule detach_tree [OF t n0(1)])
  have e1: "unat (hp_nelts h1) = n - 1"
    using n0 by (simp add: h1_def nodes_store_slot n_def unat_minus_one)
  note last = last_image [OF inj n0(1)]
  have rm: "heap_remove h x lt =
    (if A n = x then Some (if hp_min h1 = Some (A n) then h1\<lparr>hp_min := None\<rparr> else h1)
     else case sift_down lt (replace_node h1 x (A n)) (A n) of None \<Rightarrow> None | Some h2 \<Rightarrow> sift_up lt h2 (A n))"
    using n0 hp w l by (simp add: heap_remove_def Let_def h1_def)
  show ?thesis
  proof (cases "i = n")
    case True
    have "hp_min h1 = (if n - 1 = 0 then None else Some (A 1))" using t1 by (simp add: tree_at_def)
    moreover have "n - 1 \<noteq> 0 \<Longrightarrow> A 1 \<in> A ` {1..n - 1}" by auto
    ultimately have "hp_min h1 \<noteq> Some (A n)" using last(1) by (metis option.distinct(1) option.inject)
    then have "heap_remove h x lt = Some h1" using rm i(1) True by simp
    moreover have "heap_ordered lt A (n - 1)" using A(2) by (auto simp: heap_ordered_def)
    moreover have "S - {x} = A ` {1..n - 1}" using last(2) A(3) i(1) True by simp
    ultimately show ?thesis using t1 e1 by (auto simp: heap_inv_def)
  next
    case False
    let ?B = "A(i := A n)" and ?h2 = "replace_node h1 x (A n)"
    have im: "i \<le> n - 1" "i < n" using False i by simp_all
    note rep = replace_tree [OF t1 i(2) im(1) last(1), folded i(1)]
    from sift_down_repairs [OF rep(1) replace_defect [OF A(2) i(2) im(2)]] obtain h3 C j
      where s: "sift_down lt ?h2 (A n) = Some h3" "rearranged ?h2 ?B (n - 1) h3 C" "C j = A n" "defect_up lt C (n - 1) j" by auto
    from s(2) have "tree_at h3 C (n - 1)" by (simp add: rearranged_def)
    from sift_up_ordered [OF this s(4)] obtain h4 D
      where u: "sift_up lt h3 (A n) = Some h4" "rearranged h3 C (n - 1) h4 D" "heap_ordered lt D (n - 1)" unfolding s(3) by auto
    have r: "rearranged ?h2 ?B (n - 1) h4 D" by (rule rearranged_trans [OF s(2) u(2)])
    have "A n \<noteq> x" using last(1) i im by auto
    then have rm4: "heap_remove h x lt = Some h4" using rm s(1) u(1) by simp
    have "unat (hp_nelts h4) = n - 1" "tree_at h4 D (n - 1)" "D ` {1..n - 1} = ?B ` {1..n - 1}"
      using r rep(2) e1 by (simp_all only: rearranged_def)
    then have "heap_inv lt h4 (S - {x})"
      unfolding heap_inv_def using u(3) replace_image [OF inj i(2) im(2)] A(3) i(1) by metis
    then show ?thesis using rm4 by blast
  qed
qed

end

section \<open>The interface of a queue that gives its least element first\<close>

locale min_queue =
  fixes lt :: "'a \<Rightarrow> 'a \<Rightarrow> bool" and inv :: "'q \<Rightarrow> 'a set \<Rightarrow> bool"
    and first :: "'q \<Rightarrow> 'a option" and rest :: "'q \<Rightarrow> 'q option"
  assumes queue_finite: "inv q S \<Longrightarrow> finite S"
    and first_none: "inv q S \<Longrightarrow> first q = None \<longleftrightarrow> S = {}"
    and first_least: "\<lbrakk>inv q S; first q = Some m\<rbrakk> \<Longrightarrow> m \<in> S \<and> (\<forall>a\<in>S. \<not> lt a m)"
    and rest_inv: "\<lbrakk>inv q S; first q = Some m\<rbrakk> \<Longrightarrow> \<exists>q'. rest q = Some q' \<and> inv q' (S - {m})"

text \<open>The first \<open>n\<close> elements in the order in which the queue gives them, and what is left.\<close>

fun draw :: "('q \<Rightarrow> 'a option) \<Rightarrow> ('q \<Rightarrow> 'q option) \<Rightarrow> nat \<Rightarrow> 'q \<Rightarrow> ('a list \<times> 'q) option" where
  "draw first rest 0 q = Some ([], q)"
| "draw first rest (Suc n) q =
     (case first q of
        None \<Rightarrow> Some ([], q)
      | Some m \<Rightarrow>
          (case rest q of
             None \<Rightarrow> None
           | Some q' \<Rightarrow> (case draw first rest n q' of None \<Rightarrow> None | Some (xs, q'') \<Rightarrow> Some (m # xs, q''))))"

context min_queue
begin

lemma draw_sorted:
  "inv q S \<Longrightarrow> \<exists>xs q'. draw first rest n q = Some (xs, q') \<and> inv q' (S - set xs) \<and> length xs = min n (card S) \<and> distinct xs \<and>
    set xs \<subseteq> S \<and> sorted_wrt (\<lambda>a b. \<not> lt b a) xs \<and> (\<forall>a\<in>set xs. \<forall>b\<in>S - set xs. \<not> lt b a)"
proof (induction n arbitrary: q S)
  case (Suc n)
  show ?case
  proof (cases "first q")
    case None
    then have "S = {}" using first_none [OF Suc.prems] by simp
    then show ?thesis using None Suc.prems by simp
  next
    case (Some m)
    note m = first_least [OF Suc.prems Some]
    obtain q1 where q1: "rest q = Some q1" "inv q1 (S - {m})" using rest_inv [OF Suc.prems Some] by blast
    obtain xs q2 where xs: "draw first rest n q1 = Some (xs, q2)" "inv q2 (S - {m} - set xs)"
      "length xs = min n (card (S - {m}))" "distinct xs" "set xs \<subseteq> S - {m}" "sorted_wrt (\<lambda>a b. \<not> lt b a) xs"
      "\<forall>a\<in>set xs. \<forall>b\<in>S - {m} - set xs. \<not> lt b a"
      using Suc.IH [OF q1(2)] by blast
    have d: "draw first rest (Suc n) q = Some (m # xs, q2)" using Some q1(1) xs(1) by simp
    have c: "card S = Suc (card (S - {m}))" using card_Suc_Diff1 [OF queue_finite [OF Suc.prems], of m] m by simp
    have "S - set (m # xs) = S - {m} - set xs" by auto
    then show ?thesis using d c m xs by (intro exI [of _ "m # xs"] exI [of _ q2]) auto
  qed
qed simp

end

lemma heap_dequeue_min: "\<lbrakk>heap_inv lt h S; heap_min h = Some m\<rbrakk> \<Longrightarrow> heap_dequeue h lt = heap_remove h m lt"
proof -
  assume "heap_inv lt h S" "heap_min h = Some m"
  then have "hp_nelts h \<noteq> 0" by (auto simp: heap_inv_def tree_at_def heap_min_def)
  then show ?thesis using \<open>heap_min h = Some m\<close> by (simp add: heap_dequeue_def heap_min_def)
qed

sublocale heap_order \<subseteq> heap_queue: min_queue lt "heap_inv lt" heap_min "\<lambda>h. heap_dequeue h lt"
proof
  show "finite S" if "heap_inv lt h S" for h S using heap_inv_card [OF that] by simp
  show "heap_min h = None \<longleftrightarrow> S = {}" if "heap_inv lt h S" for h S by (rule heap_min_least(1) [OF that])
  show least: "m \<in> S \<and> (\<forall>a\<in>S. \<not> lt a m)" if "heap_inv lt h S" "heap_min h = Some m" for h S m
    using heap_min_least(2) that by blast
  show "\<exists>h'. heap_dequeue h lt = Some h' \<and> heap_inv lt h' (S - {m})" if "heap_inv lt h S" "heap_min h = Some m" for h S m
    using heap_remove_inv [OF that(1)] heap_dequeue_min [OF that] least [OF that] by simp
qed

context heap_order
begin

lemmas heap_draw_sorted = heap_queue.draw_sorted

end

section \<open>Properties\<close>

text \<open>C6: The pointer heap refines a finite set of nodes. On a well-formed heap (a complete tree in heap order, with all its
  links) insertion of a new node and removal of any node of the heap follow no null pointer and end, and leave a
  well-formed heap with the node added or removed; the minimum is null exactly when the heap is empty and no node
  is smaller.\<close>

theorem heap_refines_set:
  assumes "heap_order lt" and "heap_inv lt h S"
  shows "(\<forall>x. x \<notin> S \<and> card S + 1 < 2 ^ 32 \<longrightarrow> (\<exists>h'. heap_insert h x lt = Some h' \<and> heap_inv lt h' (insert x S))) \<and>
    (\<forall>x\<in>S. \<exists>h'. heap_remove h x lt = Some h' \<and> heap_inv lt h' (S - {x})) \<and>
    (case heap_min h of None \<Rightarrow> S = {} | Some m \<Rightarrow> m \<in> S \<and> (\<forall>a\<in>S. \<not> lt a m))"
proof -
  note ord = heap_order.heap_insert_inv [OF assms] heap_order.heap_remove_inv [OF assms] heap_order.heap_min_least [OF assms]
  show ?thesis using ord by (auto split: option.splits)
qed

lemma heap_order_less: "heap_order (<)"
  by unfold_locales auto

theorem heap_refines_set_witness:
  "\<exists>h h' h''. heap_inv (<) h {} \<and> heap_insert h 5 (<) = Some h' \<and> heap_inv (<) h' {5} \<and>
    heap_remove h' 5 (<) = Some h'' \<and> heap_inv (<) h'' {}"
proof -
  fix h0 :: heap
  let ?h = "heap_init h0"
  have i: "heap_inv (<) ?h {}" by (rule heap_init_inv)
  obtain h' where h': "heap_insert ?h 5 (<) = Some h'" "heap_inv (<) h' {5}"
    using heap_refines_set [OF heap_order_less i] by auto
  obtain h'' where "heap_remove h' 5 (<) = Some h''" "heap_inv (<) h'' {}"
    using heap_refines_set [OF heap_order_less h'(2)] by auto
  with i h' show ?thesis by blast
qed

text \<open>Dequeuing any number of nodes gives them in ascending order, each once, and none that is left is smaller than one
  that was given; with as many steps as there are nodes the heap is emptied.\<close>

lemma heap_drain_sorted:
  assumes "heap_order lt" and "heap_inv lt h S"
  shows "\<exists>xs h'. draw heap_min (\<lambda>h. heap_dequeue h lt) n h = Some (xs, h') \<and> heap_inv lt h' (S - set xs) \<and>
    length xs = min n (card S) \<and> distinct xs \<and> set xs \<subseteq> S \<and> sorted_wrt (\<lambda>a b. \<not> lt b a) xs \<and>
    (\<forall>a\<in>set xs. \<forall>b\<in>S - set xs. \<not> lt b a)"
  using heap_order.heap_draw_sorted [OF assms] .

end
