(* ===== verification/Uv_Timer.thy ===== *)
theory Uv_Timer
  imports Uv_Heap
begin

text \<open>
  Timers: \<^verbatim>\<open>Libuv-gRPC/src/timer.c\<close> with the handle macros of \<^verbatim>\<open>uv-common.h\<close> and what \<^verbatim>\<open>unix/core.c\<close> does to a
  timer that is closed. A timer is addressed by its embedded heap node. All timers belong to one loop; the loop
  pointer and the type tag of a handle, which never change, are left out, and of the close callback only the call
  is kept. An operation gives \<^term>\<open>None\<close> when a heap operation under it does, when a null
  callback would be called or when it does not return.
\<close>

section \<open>Model\<close>

subsection \<open>Handles\<close>

record 'cb uv_timer =
  tm_flags :: u32
  tm_cb :: "'cb option"
  tm_timeout :: u64
  tm_repeat :: u64
  tm_start_id :: u64

record ('cb, 'd) uv_loop =
  lp_time :: u64
  lp_timer_counter :: u64
  lp_active_handles :: u32
  lp_handle_queue :: "addr list"
  lp_closing_handles :: "addr list"
  lp_heap :: heap
  lp_timers :: "addr \<Rightarrow> 'cb uv_timer"
  lp_data :: 'd

definition UV_HANDLE_CLOSING :: u32 where
  "UV_HANDLE_CLOSING = 0x00000001"

definition UV_HANDLE_CLOSED :: u32 where
  "UV_HANDLE_CLOSED = 0x00000002"

definition UV_HANDLE_ACTIVE :: u32 where
  "UV_HANDLE_ACTIVE = 0x00000004"

definition UV_HANDLE_REF :: u32 where
  "UV_HANDLE_REF = 0x00000008"

definition upd_timer :: "('cb, 'd) uv_loop \<Rightarrow> addr \<Rightarrow> ('cb uv_timer \<Rightarrow> 'cb uv_timer) \<Rightarrow> ('cb, 'd) uv_loop" where
  "upd_timer L h f = L\<lparr>lp_timers := (lp_timers L)(h := f (lp_timers L h))\<rparr>"

definition uv__is_active :: "'cb uv_timer \<Rightarrow> bool" where
  "uv__is_active t \<longleftrightarrow> tm_flags t AND UV_HANDLE_ACTIVE \<noteq> 0"

definition uv__is_closing :: "'cb uv_timer \<Rightarrow> bool" where
  "uv__is_closing t \<longleftrightarrow> tm_flags t AND (UV_HANDLE_CLOSING OR UV_HANDLE_CLOSED) \<noteq> 0"

definition uv__has_ref :: "'cb uv_timer \<Rightarrow> bool" where
  "uv__has_ref t \<longleftrightarrow> tm_flags t AND UV_HANDLE_REF \<noteq> 0"

definition uv__active_handle_add :: "('cb, 'd) uv_loop \<Rightarrow> ('cb, 'd) uv_loop" where
  "uv__active_handle_add L = L\<lparr>lp_active_handles := lp_active_handles L + 1\<rparr>"

definition uv__active_handle_rm :: "('cb, 'd) uv_loop \<Rightarrow> ('cb, 'd) uv_loop" where
  "uv__active_handle_rm L = L\<lparr>lp_active_handles := lp_active_handles L - 1\<rparr>"

definition uv__handle_start :: "('cb, 'd) uv_loop \<Rightarrow> addr \<Rightarrow> ('cb, 'd) uv_loop" where
  "uv__handle_start L h =
     (if uv__is_active (lp_timers L h) then L
      else
      (let L1 = upd_timer L h (\<lambda>t. t\<lparr>tm_flags := tm_flags t OR UV_HANDLE_ACTIVE\<rparr>)
       in if uv__has_ref (lp_timers L1 h) then uv__active_handle_add L1 else L1))"

definition uv__handle_stop :: "('cb, 'd) uv_loop \<Rightarrow> addr \<Rightarrow> ('cb, 'd) uv_loop" where
  "uv__handle_stop L h =
     (if \<not> uv__is_active (lp_timers L h) then L
      else
      (let L1 = upd_timer L h (\<lambda>t. t\<lparr>tm_flags := tm_flags t AND NOT UV_HANDLE_ACTIVE\<rparr>)
       in if uv__has_ref (lp_timers L1 h) then uv__active_handle_rm L1 else L1))"

definition uv__handle_ref :: "('cb, 'd) uv_loop \<Rightarrow> addr \<Rightarrow> ('cb, 'd) uv_loop" where
  "uv__handle_ref L h =
     (if uv__has_ref (lp_timers L h) then L
      else
      (let L1 = upd_timer L h (\<lambda>t. t\<lparr>tm_flags := tm_flags t OR UV_HANDLE_REF\<rparr>)
       in if tm_flags (lp_timers L1 h) AND UV_HANDLE_CLOSING \<noteq> 0 then L1
          else if uv__is_active (lp_timers L1 h) then uv__active_handle_add L1 else L1))"

definition uv__handle_unref :: "('cb, 'd) uv_loop \<Rightarrow> addr \<Rightarrow> ('cb, 'd) uv_loop" where
  "uv__handle_unref L h =
     (if \<not> uv__has_ref (lp_timers L h) then L
      else
      (let L1 = upd_timer L h (\<lambda>t. t\<lparr>tm_flags := tm_flags t AND NOT UV_HANDLE_REF\<rparr>)
       in if tm_flags (lp_timers L1 h) AND UV_HANDLE_CLOSING \<noteq> 0 then L1
          else if uv__is_active (lp_timers L1 h) then uv__active_handle_rm L1 else L1))"

definition uv__handle_init :: "('cb, 'd) uv_loop \<Rightarrow> addr \<Rightarrow> ('cb, 'd) uv_loop" where
  "uv__handle_init L h =
     (upd_timer L h (\<lambda>t. t\<lparr>tm_flags := UV_HANDLE_REF\<rparr>))\<lparr>lp_handle_queue := lp_handle_queue L @ [h]\<rparr>"

subsection \<open>Timers\<close>

definition timer_less_than :: "(addr \<Rightarrow> 'cb uv_timer) \<Rightarrow> addr \<Rightarrow> addr \<Rightarrow> bool" where
  "timer_less_than T ha hb =
     (let a = T ha; b = T hb
      in if tm_timeout a < tm_timeout b then True
         else if tm_timeout b < tm_timeout a then False
         else tm_start_id a < tm_start_id b)"

definition uv_timer_init :: "('cb, 'd) uv_loop \<Rightarrow> addr \<Rightarrow> int \<times> ('cb, 'd) uv_loop" where
  "uv_timer_init L h = (0, upd_timer (uv__handle_init L h) h (\<lambda>t. t\<lparr>tm_cb := None, tm_repeat := 0\<rparr>))"

definition uv_timer_stop :: "('cb, 'd) uv_loop \<Rightarrow> addr \<Rightarrow> (int \<times> ('cb, 'd) uv_loop) option" where
  "uv_timer_stop L h =
     (if \<not> uv__is_active (lp_timers L h) then Some (0, L)
      else
      (case heap_remove (lp_heap L) h (timer_less_than (lp_timers L)) of
         None \<Rightarrow> None
       | Some hp \<Rightarrow> Some (0, uv__handle_stop (L\<lparr>lp_heap := hp\<rparr>) h)))"

definition clamped :: "u64 \<Rightarrow> u64 \<Rightarrow> u64" where
  "clamped time timeout = (if time + timeout < timeout then - 1 else time + timeout)"

definition uv_timer_start ::
    "('cb, 'd) uv_loop \<Rightarrow> addr \<Rightarrow> 'cb option \<Rightarrow> u64 \<Rightarrow> u64 \<Rightarrow> (int \<times> ('cb, 'd) uv_loop) option" where
  "uv_timer_start L0 h cb timeout repeat =
     (if uv__is_closing (lp_timers L0 h) \<or> cb = None then Some (UV_EINVAL, L0)
      else
      (case (if uv__is_active (lp_timers L0 h) then uv_timer_stop L0 h else Some (0, L0)) of
         None \<Rightarrow> None
       | Some (_, L) \<Rightarrow>
           (let L1 = upd_timer L h (\<lambda>t. t\<lparr>tm_cb := cb, tm_timeout := clamped (lp_time L) timeout, tm_repeat := repeat,
                                         tm_start_id := lp_timer_counter L\<rparr>);
                L2 = L1\<lparr>lp_timer_counter := lp_timer_counter L1 + 1\<rparr>
            in case heap_insert (lp_heap L2) h (timer_less_than (lp_timers L2)) of
                 None \<Rightarrow> None
               | Some hp \<Rightarrow> Some (0, uv__handle_start (L2\<lparr>lp_heap := hp\<rparr>) h))))"

definition uv_timer_again :: "('cb, 'd) uv_loop \<Rightarrow> addr \<Rightarrow> (int \<times> ('cb, 'd) uv_loop) option" where
  "uv_timer_again L h =
     (if tm_cb (lp_timers L h) = None then Some (UV_EINVAL, L)
      else if tm_repeat (lp_timers L h) = 0 then Some (0, L)
      else
      (case uv_timer_stop L h of
         None \<Rightarrow> None
       | Some (_, L1) \<Rightarrow>
           map_option (\<lambda>(_, L2). (0, L2))
             (uv_timer_start L1 h (tm_cb (lp_timers L1 h)) (tm_repeat (lp_timers L1 h)) (tm_repeat (lp_timers L1 h)))))"

definition uv_timer_set_repeat :: "('cb, 'd) uv_loop \<Rightarrow> addr \<Rightarrow> u64 \<Rightarrow> ('cb, 'd) uv_loop" where
  "uv_timer_set_repeat L h repeat = upd_timer L h (\<lambda>t. t\<lparr>tm_repeat := repeat\<rparr>)"

definition uv_timer_get_repeat :: "('cb, 'd) uv_loop \<Rightarrow> addr \<Rightarrow> u64" where
  "uv_timer_get_repeat L h = tm_repeat (lp_timers L h)"

definition uv__next_timeout :: "('cb, 'd) uv_loop \<Rightarrow> int" where
  "uv__next_timeout L =
     (case heap_min (lp_heap L) of
        None \<Rightarrow> - 1
      | Some h \<Rightarrow>
          if tm_timeout (lp_timers L h) \<le> lp_time L then 0
          else
          (let diff = unat (tm_timeout (lp_timers L h) - lp_time L)
           in int (if INT_MAX < diff then INT_MAX else diff)))"


definition uv__timer_close :: "('cb, 'd) uv_loop \<Rightarrow> addr \<Rightarrow> ('cb, 'd) uv_loop option" where
  "uv__timer_close L h = map_option snd (uv_timer_stop L h)"

subsection \<open>Closing\<close>

definition uv__make_close_pending :: "('cb, 'd) uv_loop \<Rightarrow> addr \<Rightarrow> ('cb, 'd) uv_loop" where
  "uv__make_close_pending L h = L\<lparr>lp_closing_handles := h # lp_closing_handles L\<rparr>"

text \<open>A failed assertion is \<^term>\<open>None\<close>.\<close>

definition uv_close :: "('cb, 'd) uv_loop \<Rightarrow> addr \<Rightarrow> ('cb, 'd) uv_loop option" where
  "uv_close L h =
     (if uv__is_closing (lp_timers L h) then None
      else
      map_option (\<lambda>L'. uv__make_close_pending L' h)
        (uv__timer_close (upd_timer L h (\<lambda>t. t\<lparr>tm_flags := tm_flags t OR UV_HANDLE_CLOSING\<rparr>)) h))"

definition uv__finish_close ::
    "(addr \<Rightarrow> ('cb, 'd) uv_loop \<Rightarrow> ('cb, 'd) uv_loop option) \<Rightarrow> addr \<Rightarrow> ('cb, 'd) uv_loop \<Rightarrow> ('cb, 'd) uv_loop option" where
  "uv__finish_close close_cb h L =
     (if tm_flags (lp_timers L h) AND UV_HANDLE_CLOSING = 0 \<or> tm_flags (lp_timers L h) AND UV_HANDLE_CLOSED \<noteq> 0 then None
      else
      (let L1 = uv__handle_unref (upd_timer L h (\<lambda>t. t\<lparr>tm_flags := tm_flags t OR UV_HANDLE_CLOSED\<rparr>)) h
       in close_cb h (L1\<lparr>lp_handle_queue := remove1 h (lp_handle_queue L1)\<rparr>)))"

fun finish_all ::
    "(addr \<Rightarrow> ('cb, 'd) uv_loop \<Rightarrow> ('cb, 'd) uv_loop option) \<Rightarrow> addr list \<Rightarrow> ('cb, 'd) uv_loop \<Rightarrow> ('cb, 'd) uv_loop option" where
  "finish_all close_cb [] L = Some L"
| "finish_all close_cb (p # q) L =
     (case uv__finish_close close_cb p L of None \<Rightarrow> None | Some L' \<Rightarrow> finish_all close_cb q L')"

definition uv__run_closing_handles ::
    "(addr \<Rightarrow> ('cb, 'd) uv_loop \<Rightarrow> ('cb, 'd) uv_loop option) \<Rightarrow> ('cb, 'd) uv_loop \<Rightarrow> ('cb, 'd) uv_loop option" where
  "uv__run_closing_handles close_cb L = finish_all close_cb (lp_closing_handles L) (L\<lparr>lp_closing_handles := []\<rparr>)"

section \<open>Flags\<close>

lemma flag_bits:
  "f AND UV_HANDLE_CLOSING = 0 \<longleftrightarrow> \<not> bit f 0" "f AND UV_HANDLE_CLOSED = 0 \<longleftrightarrow> \<not> bit f 1"
  "f AND UV_HANDLE_ACTIVE = 0 \<longleftrightarrow> \<not> bit f 2" "f AND UV_HANDLE_REF = 0 \<longleftrightarrow> \<not> bit f 3"
  "f AND (UV_HANDLE_CLOSING OR UV_HANDLE_CLOSED) = 0 \<longleftrightarrow> \<not> bit f 0 \<and> \<not> bit f 1"
proof -
  show 0: "f AND UV_HANDLE_CLOSING = 0 \<longleftrightarrow> \<not> bit f 0"
    using and_exp_eq_0_iff_not_bit [of f 0] by (simp add: UV_HANDLE_CLOSING_def)
  show 1: "f AND UV_HANDLE_CLOSED = 0 \<longleftrightarrow> \<not> bit f 1"
    using and_exp_eq_0_iff_not_bit [of f 1] by (simp add: UV_HANDLE_CLOSED_def)
  show "f AND UV_HANDLE_ACTIVE = 0 \<longleftrightarrow> \<not> bit f 2"
    using and_exp_eq_0_iff_not_bit [of f 2] by (simp add: UV_HANDLE_ACTIVE_def)
  show "f AND UV_HANDLE_REF = 0 \<longleftrightarrow> \<not> bit f 3"
    using and_exp_eq_0_iff_not_bit [of f 3] by (simp add: UV_HANDLE_REF_def)
  have "f AND (UV_HANDLE_CLOSING OR UV_HANDLE_CLOSED) = 0 \<longleftrightarrow> f AND UV_HANDLE_CLOSING = 0 \<and> f AND UV_HANDLE_CLOSED = 0"
    by (simp add: bit.conj_disj_distrib or_eq_0_iff)
  then show "f AND (UV_HANDLE_CLOSING OR UV_HANDLE_CLOSED) = 0 \<longleftrightarrow> \<not> bit f 0 \<and> \<not> bit f 1" using 0 1 by simp
qed

lemma flag_values:
  "bit UV_HANDLE_CLOSING n \<longleftrightarrow> n = 0" "bit UV_HANDLE_CLOSED n \<longleftrightarrow> n = 1"
  "bit UV_HANDLE_ACTIVE n \<longleftrightarrow> n = 2" "bit UV_HANDLE_REF n \<longleftrightarrow> n = 3"
proof -
  have p: "bit (2 ^ m :: u32) n \<longleftrightarrow> n = m" if "m < 32" for m using that by (auto simp: bit_exp_iff)
  show "bit UV_HANDLE_CLOSING n \<longleftrightarrow> n = 0" "bit UV_HANDLE_CLOSED n \<longleftrightarrow> n = 1"
    "bit UV_HANDLE_ACTIVE n \<longleftrightarrow> n = 2" "bit UV_HANDLE_REF n \<longleftrightarrow> n = 3"
    using p [of 0] p [of 1] p [of 2] p [of 3]
    by (simp_all add: UV_HANDLE_CLOSING_def UV_HANDLE_CLOSED_def UV_HANDLE_ACTIVE_def UV_HANDLE_REF_def)
qed

lemma flag_tests:
  "uv__is_active t \<longleftrightarrow> bit (tm_flags t) 2" "uv__has_ref t \<longleftrightarrow> bit (tm_flags t) 3"
  "uv__is_closing t \<longleftrightarrow> bit (tm_flags t) 0 \<or> bit (tm_flags t) 1"
  by (auto simp: uv__is_active_def uv__has_ref_def uv__is_closing_def flag_bits)

lemmas flag_simps = flag_tests flag_bits bit_or_iff bit_and_iff bit_not_iff flag_values

section \<open>The invariant of a loop\<close>

definition active_timers :: "('cb, 'd) uv_loop \<Rightarrow> addr set" where
  "active_timers L = {h. uv__is_active (lp_timers L h)}"

text \<open>\<open>others\<close> is the number of active referenced handles of other kinds.\<close>

definition loop_inv :: "nat \<Rightarrow> ('cb, 'd) uv_loop \<Rightarrow> bool" where
  "loop_inv others L \<longleftrightarrow> heap_inv (timer_less_than (lp_timers L)) (lp_heap L) (active_timers L) \<and>
     (\<forall>h\<in>active_timers L. tm_cb (lp_timers L h) \<noteq> None \<and> \<not> uv__is_closing (lp_timers L h)) \<and>
     lp_active_handles L = of_nat (others + card {h \<in> active_timers L. uv__has_ref (lp_timers L h)})"

interpretation timer_order: heap_order "timer_less_than T" for T :: "addr \<Rightarrow> 'cb uv_timer"
  by unfold_locales (auto simp: timer_less_than_def Let_def split: if_splits)

lemma timer_less_than_cong:
  "\<lbrakk>\<And>h. h \<in> {a, b} \<Longrightarrow> tm_timeout (T' h) = tm_timeout (T h) \<and> tm_start_id (T' h) = tm_start_id (T h)\<rbrakk> \<Longrightarrow>
    timer_less_than T' a b = timer_less_than T a b"
  by (simp add: timer_less_than_def Let_def)

lemma loop_inv_finite: "loop_inv others L \<Longrightarrow> finite (active_timers L)"
  using heap_inv_card by (auto simp: loop_inv_def)

text \<open>What an operation on one timer leaves alone.\<close>

definition same_but :: "addr \<Rightarrow> ('cb, 'd) uv_loop \<Rightarrow> ('cb, 'd) uv_loop \<Rightarrow> bool" where
  "same_but h L L' \<longleftrightarrow> lp_time L' = lp_time L \<and> lp_data L' = lp_data L \<and> lp_handle_queue L' = lp_handle_queue L \<and>
     lp_closing_handles L' = lp_closing_handles L \<and> (\<forall>k. k \<noteq> h \<longrightarrow> lp_timers L' k = lp_timers L k)"

lemma same_but_active: "same_but h L L' \<Longrightarrow> active_timers L' - {h} = active_timers L - {h}"
  by (auto simp: same_but_def active_timers_def)

text \<open>The number of referenced active timers when one timer changes.\<close>

lemma ref_count_change:
  assumes "finite S" and "\<And>k. k \<noteq> h \<Longrightarrow> r' k = r k" and "S' - {h} = S - {h}"
  shows "card {k \<in> S'. r' k} + (if h \<in> S \<and> r h then 1 else 0) = card {k \<in> S. r k} + (if h \<in> S' \<and> r' h then 1 else 0)"
proof -
  define C where "C = {k \<in> S - {h}. r k}"
  have "{k \<in> S. r k} = (if h \<in> S \<and> r h then insert h C else C)" by (auto simp: C_def)
  moreover have "{k \<in> S'. r' k} = (if h \<in> S' \<and> r' h then insert h C else C)"
    using assms(2,3) by (auto simp: C_def)
  moreover have "finite C" "h \<notin> C" using assms(1) by (auto simp: C_def)
  ultimately show ?thesis by simp
qed


lemma word_count:
  fixes w w' :: u32
  assumes "c' + i = c + j" and "w' + of_nat i = w + of_nat j" and "w = of_nat (m + c)"
  shows "w' = of_nat (m + c')"
proof -
  have "w' + of_nat i = of_nat (m + (c + j))" using assms(2,3) by simp
  also have "\<dots> = of_nat (m + c') + of_nat i" unfolding assms(1) [symmetric] by simp
  finally show ?thesis by simp
qed

lemma loop_inv_change:
  assumes inv: "loop_inv others L" and same: "same_but h L L'"
    and hp: "heap_inv (timer_less_than (lp_timers L')) (lp_heap L') (active_timers L')"
    and ok: "h \<in> active_timers L' \<Longrightarrow> tm_cb (lp_timers L' h) \<noteq> None \<and> \<not> uv__is_closing (lp_timers L' h)"
    and cnt: "lp_active_handles L' + (if h \<in> active_timers L \<and> uv__has_ref (lp_timers L h) then 1 else 0) =
      lp_active_handles L + (if h \<in> active_timers L' \<and> uv__has_ref (lp_timers L' h) then 1 else 0)"
  shows "loop_inv others L'"
proof -
  have k: "lp_timers L' k = lp_timers L k" if "k \<noteq> h" for k using same that by (simp add: same_but_def)
  have "tm_cb (lp_timers L' k) \<noteq> None \<and> \<not> uv__is_closing (lp_timers L' k)" if "k \<in> active_timers L'" for k
  proof (cases "k = h")
    case False
    then have "k \<in> active_timers L" using that k by (simp add: active_timers_def)
    then show ?thesis using inv k [OF False] by (simp add: loop_inv_def)
  qed (use ok that in simp)
  moreover have "lp_active_handles L' = of_nat (others + card {k \<in> active_timers L'. uv__has_ref (lp_timers L' k)})"
  proof -
    have c: "card {k \<in> active_timers L'. uv__has_ref (lp_timers L' k)} + (if h \<in> active_timers L \<and> uv__has_ref (lp_timers L h) then 1 else 0) =
        card {k \<in> active_timers L. uv__has_ref (lp_timers L k)} + (if h \<in> active_timers L' \<and> uv__has_ref (lp_timers L' h) then 1 else 0)"
      using k by (intro ref_count_change [OF loop_inv_finite [OF inv]] same_but_active [OF same]) simp
    have "lp_active_handles L = of_nat (others + card {k \<in> active_timers L. uv__has_ref (lp_timers L k)})"
      using inv by (simp add: loop_inv_def)
    from word_count [OF c _ this] cnt show ?thesis by (simp split: if_splits)
  qed
  ultimately show ?thesis using hp by (simp add: loop_inv_def)
qed

section \<open>The operations keep the invariant\<close>

lemmas handle_updates = upd_timer_def uv__active_handle_add_def uv__active_handle_rm_def Let_def

lemma timer_stop_spec:
  assumes inv: "loop_inv others L"
  shows "\<exists>L'. uv_timer_stop L h = Some (0, L') \<and> loop_inv others L' \<and> same_but h L L' \<and>
    active_timers L' = active_timers L - {h} \<and> lp_timer_counter L' = lp_timer_counter L \<and>
    lp_timers L' h = (lp_timers L h)\<lparr>tm_flags := tm_flags (lp_timers L h) AND NOT UV_HANDLE_ACTIVE\<rparr>"
proof (cases "h \<in> active_timers L")
  case False
  then have n: "\<not> bit (tm_flags (lp_timers L h)) 2" by (simp add: active_timers_def flag_simps)
  then have "tm_flags (lp_timers L h) AND NOT UV_HANDLE_ACTIVE = tm_flags (lp_timers L h)"
    by (auto intro!: bit_word_eqI simp: flag_simps)
  with n False show ?thesis using inv by (simp add: uv_timer_stop_def flag_simps same_but_def)
next
  case True
  let ?lt = "timer_less_than (lp_timers L)"
  obtain hp where hp: "heap_remove (lp_heap L) h ?lt = Some hp" "heap_inv ?lt hp (active_timers L - {h})"
    using timer_order.heap_remove_inv inv True by (metis loop_inv_def)
  define L' where "L' = uv__handle_stop (L\<lparr>lp_heap := hp\<rparr>) h"
  have act: "bit (tm_flags (lp_timers L h)) 2" using True by (simp add: active_timers_def flag_simps)
  then have stop: "uv_timer_stop L h = Some (0, L')" using hp(1) by (simp add: uv_timer_stop_def L'_def flag_simps)
  let ?t = "(lp_timers L h)\<lparr>tm_flags := tm_flags (lp_timers L h) AND NOT UV_HANDLE_ACTIVE\<rparr>"
  have f: "lp_timers L' = (lp_timers L)(h := ?t)" "lp_heap L' = hp" "same_but h L L'" "lp_timer_counter L' = lp_timer_counter L"
    "lp_active_handles L' = lp_active_handles L - (if uv__has_ref (lp_timers L h) then 1 else 0)"
    using act by (simp_all add: L'_def uv__handle_stop_def handle_updates same_but_def flag_simps)
  have a: "active_timers L' = active_timers L - {h}" by (auto simp: active_timers_def f(1) flag_simps)
  have "timer_less_than (lp_timers L') = ?lt" by (intro ext timer_less_than_cong) (simp add: f(1))
  then have "loop_inv others L'"
    using loop_inv_change [OF inv f(3)] hp(2) a f(2,5) True by simp
  then show ?thesis using stop f a by simp
qed

lemma timer_insert_spec:
  assumes inv: "loop_inv others L" and h: "h \<notin> active_timers L" and room: "card (active_timers L) + 1 < 2 ^ 32"
    and cb: "cb \<noteq> None" "\<not> uv__is_closing (lp_timers L h)"
    and t: "t = (lp_timers L h)\<lparr>tm_cb := cb, tm_timeout := timeout, tm_repeat := repeat, tm_start_id := lp_timer_counter L\<rparr>"
  shows "\<exists>hp L'. heap_insert (lp_heap L) h (timer_less_than ((lp_timers L)(h := t))) = Some hp \<and>
    L' = uv__handle_start (L\<lparr>lp_timers := (lp_timers L)(h := t), lp_timer_counter := lp_timer_counter L + 1, lp_heap := hp\<rparr>) h \<and>
    loop_inv others L' \<and> same_but h L L' \<and> active_timers L' = insert h (active_timers L) \<and>
    lp_timer_counter L' = lp_timer_counter L + 1 \<and>
    lp_timers L' h = t\<lparr>tm_flags := tm_flags (lp_timers L h) OR UV_HANDLE_ACTIVE\<rparr>"
proof -
  let ?T = "(lp_timers L)(h := t)"
  have "heap_inv (timer_less_than ?T) (lp_heap L) (active_timers L)"
  proof (rule heap_inv_cong)
    show "heap_inv (timer_less_than (lp_timers L)) (lp_heap L) (active_timers L)" using inv by (simp add: loop_inv_def)
    show "timer_less_than ?T a b = timer_less_than (lp_timers L) a b" if "a \<in> active_timers L" "b \<in> active_timers L" for a b
      using that h by (intro timer_less_than_cong) auto
  qed
  from timer_order.heap_insert_inv [OF this h room] obtain hp
    where hp: "heap_insert (lp_heap L) h (timer_less_than ?T) = Some hp" "heap_inv (timer_less_than ?T) hp (insert h (active_timers L))"
    by blast
  define L' where "L' = uv__handle_start (L\<lparr>lp_timers := ?T, lp_timer_counter := lp_timer_counter L + 1, lp_heap := hp\<rparr>) h"
  let ?t = "t\<lparr>tm_flags := tm_flags (lp_timers L h) OR UV_HANDLE_ACTIVE\<rparr>"
  have inact: "\<not> bit (tm_flags (lp_timers L h)) 2" using h by (simp add: active_timers_def flag_simps)
  have f: "lp_timers L' = (lp_timers L)(h := ?t)" "lp_heap L' = hp" "same_but h L L'" "lp_timer_counter L' = lp_timer_counter L + 1"
    "lp_active_handles L' = lp_active_handles L + (if uv__has_ref (lp_timers L h) then 1 else 0)"
    using inact by (simp_all add: L'_def uv__handle_start_def handle_updates same_but_def flag_simps t)
  have a: "active_timers L' = insert h (active_timers L)" by (auto simp: active_timers_def f(1) flag_simps)
  have l: "timer_less_than (lp_timers L') = timer_less_than ?T" by (intro ext timer_less_than_cong) (simp add: f(1))
  have th: "tm_cb (lp_timers L' h) = cb" "uv__is_closing (lp_timers L' h) = uv__is_closing (lp_timers L h)"
    "uv__has_ref (lp_timers L' h) = uv__has_ref (lp_timers L h)" "lp_timers L' h = ?t"
    by (simp_all add: f(1) t flag_simps)
  have "loop_inv others L'"
    by (rule loop_inv_change [OF inv f(3)]) (use hp(2) a l f(2,5) th h cb in simp_all)
  with hp(1) L'_def f(3,4) a th(4) show ?thesis by (intro exI conjI) assumption+
qed


lemma active_empty_room: "card (active_timers L - {h}) \<le> card (active_timers L)"
  by (cases "finite (active_timers L)") (auto intro: card_mono)

lemma timer_start_spec:
  assumes inv: "loop_inv others L" and room: "card (active_timers L) + 1 < 2 ^ 32"
  shows "\<exists>r L'. uv_timer_start L h cb timeout repeat = Some (r, L') \<and> loop_inv others L' \<and> same_but h L L' \<and>
    (if cb = None \<or> uv__is_closing (lp_timers L h) then r = UV_EINVAL \<and> L' = L
     else r = 0 \<and> active_timers L' = insert h (active_timers L) \<and> lp_timer_counter L' = lp_timer_counter L + 1 \<and>
       tm_cb (lp_timers L' h) = cb \<and> tm_timeout (lp_timers L' h) = clamped (lp_time L) timeout \<and>
       tm_repeat (lp_timers L' h) = repeat \<and> tm_start_id (lp_timers L' h) = lp_timer_counter L)"
proof (cases "cb = None \<or> uv__is_closing (lp_timers L h)")
  case True
  then show ?thesis using inv by (auto simp: uv_timer_start_def same_but_def)
next
  case False
  obtain L1 where s: "uv_timer_stop L h = Some (0, L1)" "loop_inv others L1" "same_but h L L1"
    "active_timers L1 = active_timers L - {h}" "lp_timer_counter L1 = lp_timer_counter L"
    "lp_timers L1 h = (lp_timers L h)\<lparr>tm_flags := tm_flags (lp_timers L h) AND NOT UV_HANDLE_ACTIVE\<rparr>"
    using timer_stop_spec [OF inv] by blast
  have s': "(if uv__is_active (lp_timers L h) then uv_timer_stop L h else Some (0, L)) = Some (0, L1)"
    using s(1) by (auto simp: uv_timer_stop_def)
  have r1: "h \<notin> active_timers L1" "card (active_timers L1) + 1 < 2 ^ 32" "\<not> uv__is_closing (lp_timers L1 h)" "lp_time L1 = lp_time L"
    using s room active_empty_room [of L h] False by (auto simp: flag_simps same_but_def)
  define t where "t = (lp_timers L1 h)\<lparr>tm_cb := cb, tm_timeout := clamped (lp_time L1) timeout, tm_repeat := repeat,
    tm_start_id := lp_timer_counter L1\<rparr>"
  have ne: "cb \<noteq> None" using False by simp
  obtain hp L' where i: "heap_insert (lp_heap L1) h (timer_less_than ((lp_timers L1)(h := t))) = Some hp"
    "L' = uv__handle_start (L1\<lparr>lp_timers := (lp_timers L1)(h := t), lp_timer_counter := lp_timer_counter L1 + 1, lp_heap := hp\<rparr>) h"
    "loop_inv others L'" "same_but h L1 L'" "active_timers L' = insert h (active_timers L1)"
    "lp_timer_counter L' = lp_timer_counter L1 + 1"
    "lp_timers L' h = t\<lparr>tm_flags := tm_flags (lp_timers L1 h) OR UV_HANDLE_ACTIVE\<rparr>"
    using timer_insert_spec [OF s(2) r1(1,2) ne r1(3) t_def] by (elim exE conjE) (rule that)
  have "uv_timer_start L h cb timeout repeat = Some (0, L')"
    using False s' i(1,2) by (auto simp: uv_timer_start_def Let_def upd_timer_def t_def)
  moreover have "same_but h L L'" using s(3) i(4) by (simp add: same_but_def)
  moreover have "active_timers L' = insert h (active_timers L)" using i(5) s(4) by auto
  moreover obtain c where "cb = Some c" using ne by auto
  ultimately show ?thesis using False i(3,6,7) s(5) r1(4) by (simp add: t_def)
qed

lemma timer_again_spec:
  assumes inv: "loop_inv others L" and room: "card (active_timers L) + 1 < 2 ^ 32"
  shows "\<exists>r L'. uv_timer_again L h = Some (r, L') \<and> loop_inv others L' \<and> same_but h L L' \<and>
    tm_cb (lp_timers L' h) = tm_cb (lp_timers L h) \<and> tm_repeat (lp_timers L' h) = tm_repeat (lp_timers L h) \<and>
    (if tm_cb (lp_timers L h) = None then r = UV_EINVAL \<and> L' = L
     else if tm_repeat (lp_timers L h) = 0 then r = 0 \<and> L' = L
     else r = 0 \<and> (\<not> uv__is_closing (lp_timers L h) \<longrightarrow> active_timers L' = insert h (active_timers L) \<and>
       tm_timeout (lp_timers L' h) = clamped (lp_time L) (tm_repeat (lp_timers L h))))"
proof (cases "tm_cb (lp_timers L h) = None \<or> tm_repeat (lp_timers L h) = 0")
  case True
  then show ?thesis using inv by (auto simp: uv_timer_again_def same_but_def)
next
  case False
  then obtain c where c: "tm_cb (lp_timers L h) = Some c" "tm_repeat (lp_timers L h) \<noteq> 0" by auto
  obtain L1 where s: "uv_timer_stop L h = Some (0, L1)" "loop_inv others L1" "same_but h L L1"
    "active_timers L1 = active_timers L - {h}"
    "lp_timers L1 h = (lp_timers L h)\<lparr>tm_flags := tm_flags (lp_timers L h) AND NOT UV_HANDLE_ACTIVE\<rparr>"
    using timer_stop_spec [OF inv] by blast
  let ?cb = "tm_cb (lp_timers L1 h)" and ?rep = "tm_repeat (lp_timers L1 h)"
  have "card (active_timers L1) + 1 < 2 ^ 32" using room s(4) active_empty_room [of L h] by simp
  from timer_start_spec [OF s(2) this, of h ?cb ?rep ?rep] obtain r L2
    where i: "uv_timer_start L1 h ?cb ?rep ?rep = Some (r, L2)" "loop_inv others L2" "same_but h L1 L2"
      "if ?cb = None \<or> uv__is_closing (lp_timers L1 h) then r = UV_EINVAL \<and> L2 = L1
       else r = 0 \<and> active_timers L2 = insert h (active_timers L1) \<and> lp_timer_counter L2 = lp_timer_counter L1 + 1 \<and>
         tm_cb (lp_timers L2 h) = ?cb \<and> tm_timeout (lp_timers L2 h) = clamped (lp_time L1) ?rep \<and>
         tm_repeat (lp_timers L2 h) = ?rep \<and> tm_start_id (lp_timers L2 h) = lp_timer_counter L1" by blast
  have "uv_timer_again L h = Some (0, L2)" using False s(1) i(1) by (auto simp: uv_timer_again_def)
  moreover have "same_but h L L2" using s(3) i(3) by (simp add: same_but_def)
  moreover have "uv__is_closing (lp_timers L1 h) = uv__is_closing (lp_timers L h)" by (simp add: s(5) flag_simps)
  moreover have "lp_time L1 = lp_time L" using s(3) by (simp add: same_but_def)
  ultimately show ?thesis
    using c i(2,4) s(4,5)
    by (intro exI [of _ 0] exI [of _ L2]) (cases "uv__is_closing (lp_timers L h)"; simp)
qed

text \<open>Operations that change neither the heap nor the times and the activity of a timer.\<close>

lemma loop_inv_quiet:
  fixes L L' :: "('cb, 'd) uv_loop"
  assumes inv: "loop_inv others L" and same: "\<And>k. k \<noteq> h \<Longrightarrow> lp_timers L' k = lp_timers L k" and hp: "lp_heap L' = lp_heap L"
    and t: "uv__is_active (lp_timers L' h) = uv__is_active (lp_timers L h)"
    and u: "h \<in> active_timers L \<Longrightarrow> tm_timeout (lp_timers L' h) = tm_timeout (lp_timers L h) \<and>
      tm_start_id (lp_timers L' h) = tm_start_id (lp_timers L h) \<and>
      tm_cb (lp_timers L' h) = tm_cb (lp_timers L h) \<and> \<not> uv__is_closing (lp_timers L' h)"
    and cnt: "lp_active_handles L' + (if h \<in> active_timers L \<and> uv__has_ref (lp_timers L h) then 1 else 0) =
      lp_active_handles L + (if h \<in> active_timers L \<and> uv__has_ref (lp_timers L' h) then 1 else 0)"
  shows "loop_inv others L'" and "active_timers L' = active_timers L"
proof -
  have "uv__is_active (lp_timers L' k) = uv__is_active (lp_timers L k)" for k using same [of k] t by (cases "k = h") auto
  then show a: "active_timers L' = active_timers L" by (auto simp: active_timers_def)
  let ?M = "L'\<lparr>lp_time := lp_time L, lp_data := lp_data L, lp_handle_queue := lp_handle_queue L,
    lp_closing_handles := lp_closing_handles L\<rparr>"
  have "heap_inv (timer_less_than (lp_timers L')) (lp_heap L') (active_timers L')"
    unfolding a hp
  proof (rule heap_inv_cong)
    show "heap_inv (timer_less_than (lp_timers L)) (lp_heap L) (active_timers L)" using inv by (simp add: loop_inv_def)
    show "timer_less_than (lp_timers L') i j = timer_less_than (lp_timers L) i j" if "i \<in> active_timers L" "j \<in> active_timers L" for i j
    proof (rule timer_less_than_cong)
      show "tm_timeout (lp_timers L' k) = tm_timeout (lp_timers L k) \<and> tm_start_id (lp_timers L' k) = tm_start_id (lp_timers L k)"
        if "k \<in> {i, j}" for k using u same [of k] that \<open>i \<in> active_timers L\<close> \<open>j \<in> active_timers L\<close> by (cases "k = h") auto
    qed
  qed
  moreover have am: "active_timers ?M = active_timers L'" by (simp add: active_timers_def)
  ultimately have "loop_inv others ?M"
    using u inv cnt same a
    by (intro loop_inv_change [OF inv, of h]) (auto simp: same_but_def loop_inv_def)
  then show "loop_inv others L'" using am by (simp add: loop_inv_def)
qed

lemma timer_init_inv:
  assumes "loop_inv others L" and "h \<notin> active_timers L"
  shows "loop_inv others (snd (uv_timer_init L h))"
  by (rule loop_inv_quiet(1) [OF assms(1), of h])
    (use assms(2) in \<open>simp_all add: uv_timer_init_def uv__handle_init_def upd_timer_def active_timers_def flag_simps\<close>)

lemma set_repeat_inv: "loop_inv others L \<Longrightarrow> loop_inv others (uv_timer_set_repeat L h r)"
  by (rule loop_inv_quiet(1) [of others L h]) (auto simp: uv_timer_set_repeat_def upd_timer_def flag_simps loop_inv_def)

lemma not_closing_active: "\<lbrakk>loop_inv others L; h \<in> active_timers L\<rbrakk> \<Longrightarrow> \<not> bit (tm_flags (lp_timers L h)) 0 \<and> \<not> bit (tm_flags (lp_timers L h)) 1"
  by (auto simp: loop_inv_def flag_simps)

lemma handle_ref_inv:
  assumes "loop_inv others L"
  shows "loop_inv others (uv__handle_ref L h)"
  by (rule loop_inv_quiet(1) [OF assms, of h])
    (use not_closing_active [OF assms, of h] in \<open>auto simp: uv__handle_ref_def handle_updates flag_simps active_timers_def\<close>)

lemma handle_unref_inv:
  assumes "loop_inv others L"
  shows "loop_inv others (uv__handle_unref L h)"
  by (rule loop_inv_quiet(1) [OF assms, of h])
    (use not_closing_active [OF assms, of h] in \<open>auto simp: uv__handle_unref_def handle_updates flag_simps active_timers_def\<close>)


lemma close_stops:
  assumes "uv_timer_stop L h = Some (0, L2)"
  shows "uv__timer_close (upd_timer L h (\<lambda>t. t\<lparr>tm_flags := tm_flags t OR UV_HANDLE_CLOSING\<rparr>)) h =
    Some (upd_timer L2 h (\<lambda>t. t\<lparr>tm_flags := tm_flags t OR UV_HANDLE_CLOSING\<rparr>))"
proof -
  let ?L = "upd_timer L h (\<lambda>t. t\<lparr>tm_flags := tm_flags t OR UV_HANDLE_CLOSING\<rparr>)"
  have lt: "timer_less_than (lp_timers ?L) = timer_less_than (lp_timers L)"
    by (intro ext timer_less_than_cong) (simp add: upd_timer_def)
  have fl: "(f OR UV_HANDLE_CLOSING) AND NOT UV_HANDLE_ACTIVE = (f AND NOT UV_HANDLE_ACTIVE) OR UV_HANDLE_CLOSING" for f
    by (auto intro!: bit_word_eqI simp: flag_simps)
  show ?thesis
  proof (cases "uv__is_active (lp_timers L h)")
    case False
    then show ?thesis using assms by (simp add: uv__timer_close_def uv_timer_stop_def upd_timer_def flag_simps)
  next
    case True
    then obtain hp where "heap_remove (lp_heap L) h (timer_less_than (lp_timers L)) = Some hp" "L2 = uv__handle_stop (L\<lparr>lp_heap := hp\<rparr>) h"
      using assms by (auto simp: uv_timer_stop_def split: option.splits)
    moreover have "lp_heap ?L = lp_heap L" by (simp add: upd_timer_def)
    ultimately show ?thesis
      using True unfolding uv__timer_close_def uv_timer_stop_def lt
      by (simp add: uv__handle_stop_def handle_updates flag_simps fl)
  qed
qed

lemma close_spec:
  assumes inv: "loop_inv others L" and "\<not> uv__is_closing (lp_timers L h)"
  shows "\<exists>L'. uv_close L h = Some L' \<and> loop_inv others L' \<and> active_timers L' = active_timers L - {h} \<and>
    uv__is_closing (lp_timers L' h) \<and> lp_closing_handles L' = h # lp_closing_handles L"
proof -
  obtain L2 where s: "uv_timer_stop L h = Some (0, L2)" "loop_inv others L2" "same_but h L L2" "active_timers L2 = active_timers L - {h}"
    using timer_stop_spec [OF inv] by blast
  let ?L = "uv__make_close_pending (upd_timer L2 h (\<lambda>t. t\<lparr>tm_flags := tm_flags t OR UV_HANDLE_CLOSING\<rparr>)) h"
  have c: "uv_close L h = Some ?L" using assms(2) close_stops [OF s(1)] by (simp add: uv_close_def)
  have "h \<notin> active_timers L2" using s(4) by simp
  then have "loop_inv others ?L" "active_timers ?L = active_timers L2"
    by (intro loop_inv_quiet [OF s(2), of h]; simp add: uv__make_close_pending_def upd_timer_def flag_simps)+
  moreover have "uv__is_closing (lp_timers ?L h)" "lp_closing_handles ?L = h # lp_closing_handles L"
    using s(3) by (simp_all add: uv__make_close_pending_def upd_timer_def flag_simps same_but_def)
  ultimately show ?thesis using c s(4) by auto
qed

lemma finish_close_inv:
  assumes inv: "loop_inv others L" and "tm_flags (lp_timers L h) AND UV_HANDLE_CLOSING \<noteq> 0"
    and "tm_flags (lp_timers L h) AND UV_HANDLE_CLOSED = 0"
  shows "\<exists>L'. uv__finish_close (\<lambda>_. Some) h L = Some L' \<and> loop_inv others L'"
proof -
  let ?L = "upd_timer L h (\<lambda>t. t\<lparr>tm_flags := tm_flags t OR UV_HANDLE_CLOSED\<rparr>)"
  have "h \<notin> active_timers L" using not_closing_active [OF inv, of h] assms(2) by (auto simp: flag_simps)
  then have "loop_inv others ?L" by (intro loop_inv_quiet(1) [OF inv, of h]) (simp_all add: upd_timer_def flag_simps)
  then have "loop_inv others (uv__handle_unref ?L h)" by (rule handle_unref_inv)
  then show ?thesis using assms(2,3) by (simp add: uv__finish_close_def Let_def loop_inv_def active_timers_def)
qed

section \<open>Sequences of operations\<close>

datatype 'cb loop_op =
    Op_Init addr
  | Op_Start addr "'cb option" u64 u64
  | Op_Stop addr
  | Op_Again addr
  | Op_Set_Repeat addr u64
  | Op_Ref addr
  | Op_Unref addr
  | Op_Close addr
  | Op_Finish_Close addr
  | Op_Update_Time u64

fun do_op :: "'cb loop_op \<Rightarrow> ('cb, 'd) uv_loop \<Rightarrow> ('cb, 'd) uv_loop option" where
  "do_op (Op_Init h) L = Some (snd (uv_timer_init L h))"
| "do_op (Op_Start h cb timeout repeat) L = map_option snd (uv_timer_start L h cb timeout repeat)"
| "do_op (Op_Stop h) L = map_option snd (uv_timer_stop L h)"
| "do_op (Op_Again h) L = map_option snd (uv_timer_again L h)"
| "do_op (Op_Set_Repeat h repeat) L = Some (uv_timer_set_repeat L h repeat)"
| "do_op (Op_Ref h) L = Some (uv__handle_ref L h)"
| "do_op (Op_Unref h) L = Some (uv__handle_unref L h)"
| "do_op (Op_Close h) L = uv_close L h"
| "do_op (Op_Finish_Close h) L = uv__finish_close (\<lambda>_. Some) h L"
| "do_op (Op_Update_Time now) L = Some (L\<lparr>lp_time := now\<rparr>)"

text \<open>What a caller must observe: an active timer is not initialised again, a handle is closed once, fewer than \<open>2 ^ 32 - 1\<close>
  timers are active.\<close>

fun op_allowed :: "'cb loop_op \<Rightarrow> ('cb, 'd) uv_loop \<Rightarrow> bool" where
  "op_allowed (Op_Init h) L = (\<not> uv__is_active (lp_timers L h))"
| "op_allowed (Op_Start h cb timeout repeat) L = (card (active_timers L) + 1 < 2 ^ 32)"
| "op_allowed (Op_Again h) L = (card (active_timers L) + 1 < 2 ^ 32)"
| "op_allowed (Op_Close h) L = (\<not> uv__is_closing (lp_timers L h))"
| "op_allowed (Op_Finish_Close h) L =
     (tm_flags (lp_timers L h) AND UV_HANDLE_CLOSING \<noteq> 0 \<and> tm_flags (lp_timers L h) AND UV_HANDLE_CLOSED = 0)"
| "op_allowed _ L = True"

inductive loop_run :: "('cb, 'd) uv_loop \<Rightarrow> 'cb loop_op list \<Rightarrow> ('cb, 'd) uv_loop \<Rightarrow> bool" where
  run_nil: "loop_run L [] L"
| run_cons: "\<lbrakk>op_allowed x L; do_op x L = Some L'; loop_run L' xs L''\<rbrakk> \<Longrightarrow> loop_run L (x # xs) L''"

inductive_cases loop_run_consE: "loop_run L (x # xs) L''"

lemma do_op_inv:
  assumes "loop_inv others L" and "op_allowed x L"
  shows "\<exists>L'. do_op x L = Some L' \<and> loop_inv others L'"
proof (cases x)
  case (Op_Start h cb timeout repeat)
  then show ?thesis using timer_start_spec [OF assms(1), of h cb timeout repeat] assms(2) by auto
next
  case (Op_Stop h)
  then show ?thesis using timer_stop_spec [OF assms(1), of h] by auto
next
  case (Op_Again h)
  then show ?thesis using timer_again_spec [OF assms(1), of h] assms(2) by auto
next
  case (Op_Close h)
  then show ?thesis using close_spec [OF assms(1), of h] assms(2) by auto
next
  case (Op_Finish_Close h)
  then show ?thesis using finish_close_inv [OF assms(1), of h] assms(2) by simp
next
  case (Op_Init h)
  then show ?thesis using timer_init_inv [OF assms(1), of h] assms(2) by (simp add: active_timers_def)
qed (use assms(1) set_repeat_inv handle_ref_inv handle_unref_inv in \<open>simp_all add: loop_inv_def active_timers_def\<close>)

lemma loop_run_inv: "\<lbrakk>loop_run L xs L'; loop_inv others L\<rbrakk> \<Longrightarrow> loop_inv others L'"
proof (induction rule: loop_run.induct)
  case (run_cons x L L' xs L'')
  then show ?case using do_op_inv [OF run_cons.prems run_cons.hyps(1)] by auto
qed

section \<open>Running the timers that are due\<close>

definition due :: "('cb, 'd) uv_loop \<Rightarrow> addr set" where
  "due L = {h \<in> active_timers L. tm_timeout (lp_timers L h) \<le> lp_time L}"


lemma heap_min_timer:
  assumes "loop_inv others L"
  shows "heap_min (lp_heap L) = None \<longleftrightarrow> active_timers L = {}"
    and "heap_min (lp_heap L) = Some m \<Longrightarrow> m \<in> active_timers L \<and> (\<forall>k\<in>active_timers L. \<not> timer_less_than (lp_timers L) k m)"
  using timer_order.heap_min_least [of "lp_timers L"] assms by (auto simp: loop_inv_def)

lemma not_less_timeout: "\<not> timer_less_than T k m \<Longrightarrow> tm_timeout (T m) \<le> tm_timeout (T k)"
  by (auto simp: timer_less_than_def Let_def split: if_splits)








text \<open>A loop as \<^verbatim>\<open>uv_loop_init\<close> leaves it, with \<open>others\<close> referenced active handles of other kinds.\<close>

definition loop_start :: "nat \<Rightarrow> ('cb, 'd) uv_loop \<Rightarrow> bool" where
  "loop_start others L \<longleftrightarrow> lp_heap L = heap_init (lp_heap L) \<and> active_timers L = {} \<and> lp_active_handles L = of_nat others"

lemma loop_start_inv: "loop_start others L \<Longrightarrow> loop_inv others L"
  using heap_init_inv [of "timer_less_than (lp_timers L)" "lp_heap L"] by (auto simp: loop_start_def loop_inv_def)

definition empty_loop :: "(unit, addr list) uv_loop" where
  "empty_loop = \<lparr>lp_time = 5, lp_timer_counter = 0, lp_active_handles = 0, lp_handle_queue = [], lp_closing_handles = [],
     lp_heap = \<lparr>hp_min = None, hp_nelts = 0, hp_nodes = (\<lambda>_. \<lparr>nd_left = None, nd_right = None, nd_parent = None\<rparr>)\<rparr>,
     lp_timers = (\<lambda>_. \<lparr>tm_flags = UV_HANDLE_REF, tm_cb = None, tm_timeout = 0, tm_repeat = 0, tm_start_id = 0\<rparr>), lp_data = []\<rparr>"

lemma empty_loop_start: "loop_start 0 empty_loop"
  by (simp add: loop_start_def empty_loop_def heap_init_def active_timers_def flag_simps)

lemma empty_loop_facts: "loop_inv 0 empty_loop" "active_timers empty_loop = {}" "\<not> uv__is_closing (lp_timers empty_loop h)"
  "lp_time empty_loop = 5" "lp_data empty_loop = []"
  using loop_start_inv [OF empty_loop_start] empty_loop_start
  by (simp_all add: loop_start_def) (simp_all add: empty_loop_def flag_simps)

text \<open>A loop with one timer that is due.\<close>

lemma one_timer:
  obtains L where "uv_timer_start empty_loop 7 (Some ()) 0 0 = Some (0, L)" and "loop_inv 0 L" and "active_timers L = {7}"
    and "tm_timeout (lp_timers L 7) = 5" and "tm_repeat (lp_timers L 7) = 0" and "lp_time L = 5" and "lp_data L = []"
    and "due L = {7}"
proof -
  have "card (active_timers empty_loop) + 1 < 2 ^ 32" by (simp add: empty_loop_facts)
  from timer_start_spec [OF empty_loop_facts(1) this, of 7 "Some ()" 0 0] obtain L
    where L: "uv_timer_start empty_loop 7 (Some ()) 0 0 = Some (0, L)" "loop_inv 0 L" "same_but 7 empty_loop L"
      "active_timers L = {7}" "tm_timeout (lp_timers L 7) = clamped 5 0" "tm_repeat (lp_timers L 7) = 0"
    by (auto simp: empty_loop_facts)
  moreover have "clamped 5 0 = 5" by (simp add: clamped_def)
  moreover have t: "lp_time L = 5" "lp_data L = []" using L(3) by (simp_all add: same_but_def empty_loop_facts)
  ultimately have "due L = {7}" by (auto simp: due_def)
  with L t \<open>clamped 5 0 = 5\<close> that show thesis by simp
qed

section \<open>Properties\<close>

text \<open>C7: Whatever sequence of operations a program performs on the timers of a loop, the heap stays a well-formed pointer heap
  that holds exactly the active timers, every active timer has a callback and is not being closed, and the count
  of active handles is exact; and no operation that is allowed then fails or gets stuck.\<close>

theorem timer_loop_invariant:
  assumes "loop_start others L0" and "loop_run L0 xs L"
  shows "loop_inv others L \<and> (\<forall>x. op_allowed x L \<longrightarrow> (\<exists>L'. do_op x L = Some L'))"
  using loop_run_inv [OF assms(2) loop_start_inv [OF assms(1)]] do_op_inv by blast

theorem timer_loop_invariant_witness:
  "\<exists>L. loop_run empty_loop [Op_Start 7 (Some ()) 0 0] L \<and> loop_inv 0 L \<and> active_timers L = {7}"
proof (rule one_timer)
  fix L assume L: "uv_timer_start empty_loop 7 (Some ()) 0 0 = Some (0, L)" "active_timers L = {7}"
  have "loop_run empty_loop [Op_Start 7 (Some ()) 0 0] L"
    by (rule run_cons [OF _ _ run_nil]) (simp_all add: empty_loop_facts L)
  with timer_loop_invariant [OF empty_loop_start this] L(2) show ?thesis by blast
qed

text \<open>C24: \<^verbatim>\<open>uv__next_timeout\<close> tells how long the loop may sleep: -1, for ever, exactly when no timer is active, and
  otherwise the time until the earliest active timer, 0 when it is due, at most \<^verbatim>\<open>INT_MAX\<close>.\<close>

theorem next_timeout_exact:
  assumes "loop_inv others L"
  shows "uv__next_timeout L =
    (if active_timers L = {} then - 1
     else int (min INT_MAX (Min ((\<lambda>h. unat (tm_timeout (lp_timers L h))) ` active_timers L) - unat (lp_time L))))"
proof (cases "heap_min (lp_heap L)")
  case None
  then show ?thesis using heap_min_timer(1) [OF assms] by (simp add: uv__next_timeout_def)
next
  case (Some m)
  note least = heap_min_timer(2) [OF assms Some]
  let ?t = "\<lambda>h. unat (tm_timeout (lp_timers L h))"
  have "?t m \<le> ?t k" if "k \<in> active_timers L" for k
    using not_less_timeout least that by (simp add: word_le_nat_alt) blast
  then have min: "Min (?t ` active_timers L) = ?t m"
    using least loop_inv_finite [OF assms] by (intro Min_eqI) auto
  have "unat (tm_timeout (lp_timers L m) - lp_time L) = ?t m - unat (lp_time L)" if "lp_time L < tm_timeout (lp_timers L m)"
    using that by (intro unat_sub) simp
  then show ?thesis using Some least min
    by (auto simp: uv__next_timeout_def Let_def word_le_nat_alt word_less_nat_alt not_le min_def)
qed

theorem next_timeout_exact_witness:
  "\<exists>L :: (unit, addr list) uv_loop. loop_inv 0 L \<and> active_timers L = {7} \<and> uv__next_timeout L = 0"
proof (rule one_timer)
  fix L :: "(unit, addr list) uv_loop"
  assume "loop_inv 0 L" "active_timers L = {7}" "tm_timeout (lp_timers L 7) = 5" "lp_time L = 5"
  then show ?thesis using next_timeout_exact [of 0 L] by (intro exI [of _ L]) simp
qed









end
