(* ===== verification/Uv_Inet.thy ===== *)
theory Uv_Inet
  imports Prelude
begin

text \<open>
  Internet addresses as text: \<^verbatim>\<open>Libuv-gRPC/src/inet.c\<close> and \<^verbatim>\<open>strscpy.c\<close>. A C string is the list of its bytes without the
  terminating zero; a buffer is a list that keeps its length. The error codes and address families are
  those of the Darwin headers.
\<close>

section \<open>Model\<close>

subsection \<open>Strings\<close>

definition UV_E2BIG :: int where
  "UV_E2BIG = - 7"

definition UV_ENOSPC :: int where
  "UV_ENOSPC = - 28"

definition UV_EAFNOSUPPORT :: int where
  "UV_EAFNOSUPPORT = - 47"

definition SSIZE_MAX :: nat where
  "SSIZE_MAX = 2 ^ 63 - 1"

text \<open>The source is read with its terminator.\<close>

function strscpy_loop :: "u8 list \<Rightarrow> u8 list \<Rightarrow> nat \<Rightarrow> nat \<Rightarrow> u8 list \<times> int" where
  "strscpy_loop d s i n =
     (if i < n
      then
        (let d' = d[i := s ! i]
         in if s ! i = 0 then (d', if SSIZE_MAX < i then UV_E2BIG else int i) else strscpy_loop d' s (i + 1) n)
      else if i = 0 then (d, 0)
      else (d[i - 1 := 0], UV_E2BIG))"
  by pat_completeness auto
termination
  by (relation "measure (\<lambda>(_, _, i, n). n - i)") auto

declare strscpy_loop.simps [simp del]

definition uv__strscpy :: "u8 list \<Rightarrow> u8 list \<Rightarrow> nat \<Rightarrow> u8 list \<times> int" where
  "uv__strscpy d s n = strscpy_loop d (s @ [0]) 0 n"

fun strchr :: "u8 list \<Rightarrow> u8 \<Rightarrow> nat option" where
  "strchr [] c = None"
| "strchr (x # xs) c = (if x = c then Some 0 else map_option Suc (strchr xs c))"

definition digits :: "u8 list" where
  "digits = [48, 49, 50, 51, 52, 53, 54, 55, 56, 57]"

definition xdigits_l :: "u8 list" where
  "xdigits_l = digits @ [97, 98, 99, 100, 101, 102]"

definition xdigits_u :: "u8 list" where
  "xdigits_u = digits @ [65, 66, 67, 68, 69, 70]"

text \<open>What \<^verbatim>\<open>sprintf\<close> prints for \<^verbatim>\<open>"%x"\<close>.\<close>

fun hexadecimal :: "nat \<Rightarrow> u8 list" where
  "hexadecimal n = (if n < 16 then [xdigits_l ! n] else hexadecimal (n div 16) @ [xdigits_l ! (n mod 16)])"

declare hexadecimal.simps [simp del]

subsection \<open>Address to text\<close>

definition UV__INET_ADDRSTRLEN :: nat where
  "UV__INET_ADDRSTRLEN = 16"

definition UV__INET6_ADDRSTRLEN :: nat where
  "UV__INET6_ADDRSTRLEN = 46"

text \<open>What \<^verbatim>\<open>snprintf\<close> prints for the format of four octets.\<close>

definition dotted :: "u8 list \<Rightarrow> u8 list" where
  "dotted src = decimal (unat (src ! 0)) @ [46] @ decimal (unat (src ! 1)) @ [46] @ decimal (unat (src ! 2)) @ [46] @
     decimal (unat (src ! 3))"

text \<open>\<^verbatim>\<open>snprintf\<close> keeps what fits into the buffer and returns the full length. The result is the destination and the error code.\<close>

definition inet_ntop4 :: "u8 list \<Rightarrow> u8 list \<Rightarrow> nat \<Rightarrow> u8 list \<times> int" where
  "inet_ntop4 src dst sz =
     (let tmp = take (UV__INET_ADDRSTRLEN - 1) (dotted src); l = length (dotted src)
      in if l = 0 \<or> sz \<le> l then (dst, UV_ENOSPC) else (fst (uv__strscpy dst tmp sz), 0))"

record zero_run =
  zr_base :: int
  zr_len :: int

definition inet6_words :: "u8 list \<Rightarrow> u32 list" where
  "inet6_words src =
     fold (\<lambda>i words. words[i div 2 := words ! (i div 2) OR push_bit ((1 - i mod 2) * 8) (ucast (src ! i))]) [0..<16] (replicate 8 0)"

definition better_run :: "zero_run \<Rightarrow> zero_run \<Rightarrow> zero_run" where
  "better_run best cur = (if zr_base best = - 1 \<or> zr_len best < zr_len cur then cur else best)"

fun scan_words :: "int \<Rightarrow> u32 list \<Rightarrow> zero_run \<Rightarrow> zero_run \<Rightarrow> zero_run" where
  "scan_words i [] best cur = (if zr_base cur \<noteq> - 1 then better_run best cur else best)"
| "scan_words i (w # ws) best cur =
     (if w = 0
      then scan_words (i + 1) ws best
             (if zr_base cur = - 1 then \<lparr>zr_base = i, zr_len = 1\<rparr> else cur\<lparr>zr_len := zr_len cur + 1\<rparr>)
      else if zr_base cur \<noteq> - 1 then scan_words (i + 1) ws (better_run best cur) (cur\<lparr>zr_base := - 1\<rparr>)
      else scan_words (i + 1) ws best cur)"

definition best_run :: "u32 list \<Rightarrow> zero_run" where
  "best_run words =
     (let best = scan_words 0 words \<lparr>zr_base = - 1, zr_len = 0\<rparr> \<lparr>zr_base = - 1, zr_len = 0\<rparr>
      in if zr_base best \<noteq> - 1 \<and> zr_len best < 2 then best\<lparr>zr_base := - 1\<rparr> else best)"

definition encapsulated_v4 :: "u32 list \<Rightarrow> zero_run \<Rightarrow> nat \<Rightarrow> bool" where
  "encapsulated_v4 words best i \<longleftrightarrow> i = 6 \<and> zr_base best = 0 \<and>
     (zr_len best = 6 \<or> zr_len best = 7 \<and> words ! 7 \<noteq> 0x0001 \<or> zr_len best = 5 \<and> words ! 5 = 0xffff)"

text \<open>\<open>out\<close> is what has been written to the buffer \<^verbatim>\<open>tmp\<close> of 46 bytes.\<close>

function ntop6_loop :: "u8 list \<Rightarrow> u32 list \<Rightarrow> zero_run \<Rightarrow> nat \<Rightarrow> u8 list \<Rightarrow> int + u8 list" where
  "ntop6_loop src words best i out =
     (if 8 \<le> i then Inr out
      else if zr_base best \<noteq> - 1 \<and> zr_base best \<le> int i \<and> int i < zr_base best + zr_len best
      then ntop6_loop src words best (i + 1) (if int i = zr_base best then out @ [58] else out)
      else
      (let tp = (if i \<noteq> 0 then out @ [58] else out)
       in if encapsulated_v4 words best i
          then
            (case inet_ntop4 (drop 12 src) (replicate (UV__INET6_ADDRSTRLEN - length tp) 0) (UV__INET6_ADDRSTRLEN - length tp) of
               (rest, err) \<Rightarrow> if err \<noteq> 0 then Inl err else Inr (tp @ takeWhile (\<lambda>c. c \<noteq> 0) rest))
          else ntop6_loop src words best (i + 1) (tp @ hexadecimal (unat (words ! i)))))"
  by pat_completeness auto
termination
  by (relation "measure (\<lambda>(_, _, _, i, _). 8 - i)") auto

declare ntop6_loop.simps [simp del]

definition inet_ntop6 :: "u8 list \<Rightarrow> u8 list \<Rightarrow> nat \<Rightarrow> u8 list \<times> int" where
  "inet_ntop6 src dst sz =
     (let words = inet6_words src; best = best_run words
      in case ntop6_loop src words best 0 [] of
           Inl err \<Rightarrow> (dst, err)
         | Inr out \<Rightarrow>
             (let tmp = (if zr_base best \<noteq> - 1 \<and> zr_base best + zr_len best = 8 then out @ [58] else out)
              in case uv__strscpy dst tmp sz of (dst', r) \<Rightarrow> (dst', if r = UV_E2BIG then UV_ENOSPC else 0)))"

definition AF_INET :: int where
  "AF_INET = 2"

definition AF_INET6 :: int where
  "AF_INET6 = 30"

definition uv_inet_ntop :: "int \<Rightarrow> u8 list \<Rightarrow> u8 list \<Rightarrow> nat \<Rightarrow> u8 list \<times> int" where
  "uv_inet_ntop af src dst sz =
     (if af = AF_INET then inet_ntop4 src dst sz
      else if af = AF_INET6 then inet_ntop6 src dst sz
      else (dst, UV_EAFNOSUPPORT))"

subsection \<open>Text to address\<close>

text \<open>\<^term>\<open>None\<close> is the error \<^verbatim>\<open>UV_EINVAL\<close>. The bytes of \<^verbatim>\<open>tmp\<close> that C leaves uninitialised are zero.\<close>

fun pton4_loop :: "bool \<Rightarrow> nat \<Rightarrow> u8 list \<Rightarrow> nat \<Rightarrow> u8 list \<Rightarrow> u8 list option" where
  "pton4_loop saw_digit octets tmp tp [] = (if octets < 4 then None else Some tmp)"
| "pton4_loop saw_digit octets tmp tp (ch # src) =
     (case strchr digits ch of
        Some k \<Rightarrow>
          (let nw = unat (tmp ! tp) * 10 + k
           in if saw_digit \<and> tmp ! tp = 0 then None
              else if 255 < nw then None
              else if \<not> saw_digit \<and> 4 < octets + 1 then None
              else pton4_loop True (if saw_digit then octets else octets + 1) (tmp[tp := of_nat nw]) tp src)
      | None \<Rightarrow>
          if ch = 46 \<and> saw_digit
          then if octets = 4 then None else pton4_loop False octets (tmp[tp + 1 := 0]) (tp + 1) src
          else None)"

definition inet_pton4 :: "u8 list \<Rightarrow> u8 list option" where
  "inet_pton4 src = pton4_loop False 0 (replicate 4 0) 0 src"

definition put_word :: "u8 list \<Rightarrow> nat \<Rightarrow> u32 \<Rightarrow> u8 list" where
  "put_word tmp tp val = tmp[tp := ucast (drop_bit 8 val) AND 0xff, tp + 1 := ucast val AND 0xff]"

text \<open>The state of the loop: \<^verbatim>\<open>tmp\<close>, \<^verbatim>\<open>tp\<close>, \<^verbatim>\<open>colonp\<close>, \<^verbatim>\<open>seen_xdigits\<close> and \<^verbatim>\<open>val\<close>; positions count from the start of \<^verbatim>\<open>tmp\<close>.\<close>

record pton6_state =
  p6_tmp :: "u8 list"
  p6_tp :: nat
  p6_colonp :: "nat option"
  p6_seen :: nat
  p6_val :: u32

definition xdigit :: "u8 \<Rightarrow> nat option" where
  "xdigit ch = (case strchr xdigits_l ch of None \<Rightarrow> strchr xdigits_u ch | Some k \<Rightarrow> Some k)"

fun pton6_loop :: "u8 list \<Rightarrow> pton6_state \<Rightarrow> u8 list \<Rightarrow> pton6_state option" where
  "pton6_loop curtok st [] = Some st"
| "pton6_loop curtok st (ch # src) =
     (case xdigit ch of
        Some k \<Rightarrow>
          if 4 < p6_seen st + 1 then None
          else pton6_loop curtok (st\<lparr>p6_val := push_bit 4 (p6_val st) OR of_nat k, p6_seen := p6_seen st + 1\<rparr>) src
      | None \<Rightarrow>
          if ch = 58
          then
            if p6_seen st = 0
            then if p6_colonp st \<noteq> None then None else pton6_loop src (st\<lparr>p6_colonp := Some (p6_tp st)\<rparr>) src
            else if src = [] then None
            else if 16 < p6_tp st + 2 then None
            else
              pton6_loop src
                (st\<lparr>p6_tmp := put_word (p6_tmp st) (p6_tp st) (p6_val st), p6_tp := p6_tp st + 2, p6_seen := 0, p6_val := 0\<rparr>) src
          else if ch = 46 \<and> p6_tp st + 4 \<le> 16
          then
            (case inet_pton4 curtok of
               None \<Rightarrow> None
             | Some bytes \<Rightarrow>
                 Some (st\<lparr>p6_tmp := take (p6_tp st) (p6_tmp st) @ bytes @ drop (p6_tp st + 4) (p6_tmp st),
                          p6_tp := p6_tp st + 4, p6_seen := 0\<rparr>))
          else None)"

text \<open>The bytes after the double colon are moved to the end.\<close>

definition shift_tail :: "u8 list \<Rightarrow> nat \<Rightarrow> nat \<Rightarrow> u8 list" where
  "shift_tail tmp colonp n =
     fold (\<lambda>i tmp. tmp[16 - i := tmp ! (colonp + n - i), colonp + n - i := 0]) [1..<n + 1] tmp"

definition pton6_finish :: "pton6_state \<Rightarrow> u8 list option" where
  "pton6_finish st0 =
     (case (if p6_seen st0 = 0 then Some st0
            else if 16 < p6_tp st0 + 2 then None
            else Some (st0\<lparr>p6_tmp := put_word (p6_tmp st0) (p6_tp st0) (p6_val st0), p6_tp := p6_tp st0 + 2\<rparr>)) of
        None \<Rightarrow> None
      | Some st \<Rightarrow>
          (case p6_colonp st of
             None \<Rightarrow> if p6_tp st \<noteq> 16 then None else Some (p6_tmp st)
           | Some colonp \<Rightarrow>
               if p6_tp st = 16 then None else Some (shift_tail (p6_tmp st) colonp (p6_tp st - colonp))))"

definition inet_pton6 :: "u8 list \<Rightarrow> u8 list option" where
  "inet_pton6 src0 =
     (case (case src0 of
              [] \<Rightarrow> Some []
            | c # src1 \<Rightarrow> if c = 58 then if src1 \<noteq> [] \<and> hd src1 = 58 then Some src1 else None else Some src0) of
        None \<Rightarrow> None
      | Some src \<Rightarrow>
          Option.bind
            (pton6_loop src \<lparr>p6_tmp = replicate 16 0, p6_tp = 0, p6_colonp = None, p6_seen = 0, p6_val = 0\<rparr> src)
            pton6_finish)"

text \<open>A null pointer for the text is \<^term>\<open>None\<close>; \<open>dst_null\<close> says that the destination is null. The result is the error or the address.\<close>

definition uv_inet_pton :: "int \<Rightarrow> u8 list option \<Rightarrow> bool \<Rightarrow> int + u8 list" where
  "uv_inet_pton af src0 dst_null =
     (case src0 of
        None \<Rightarrow> Inl UV_EINVAL
      | Some src \<Rightarrow>
          if dst_null then Inl UV_EINVAL
          else if af = AF_INET then (case inet_pton4 src of None \<Rightarrow> Inl UV_EINVAL | Some bytes \<Rightarrow> Inr bytes)
          else if af = AF_INET6
          then
            (let s = (case strchr src 37 of None \<Rightarrow> Some src
                      | Some len \<Rightarrow> if UV__INET6_ADDRSTRLEN - 1 < len then None else Some (take len src))
             in case Option.bind s inet_pton6 of None \<Rightarrow> Inl UV_EINVAL | Some bytes \<Rightarrow> Inr bytes)
          else Inl UV_EAFNOSUPPORT)"

section \<open>Copying strings\<close>

lemma strscpy_loop_eq:
  assumes "0 \<notin> set s" and "length s \<le> SSIZE_MAX"
  shows "\<lbrakk>i \<le> length s; i \<le> n; n \<le> length d\<rbrakk> \<Longrightarrow> strscpy_loop (take i s @ drop i d) (s @ [0]) i n =
    (if n = 0 then (d, 0)
     else if length s < n then (s @ 0 # drop (length s + 1) d, int (length s))
     else (take (n - 1) s @ 0 # drop n d, UV_E2BIG))"
proof (induction "n - i" arbitrary: i)
  case 0
  then have i: "i = n" by simp
  show ?case
  proof (cases n)
    case (Suc k)
    then have "(take n s @ drop n d)[k := 0] = take k s @ 0 # drop n d"
      using 0 i by (simp add: list_update_append take_Suc_conv_app_nth)
    then show ?thesis using 0 i Suc by (subst strscpy_loop.simps) simp
  qed (use i in \<open>subst strscpy_loop.simps; simp\<close>)
next
  case (Suc m)
  have u: "(take i s @ drop i d)[i := c] = take i s @ c # drop (i + 1) d" for c
    using Suc by (simp add: list_update_append upd_conv_take_nth_drop)
  show ?case
  proof (cases "i = length s")
    case True
    moreover from this Suc(2) have "length s < n" by simp
    ultimately show ?thesis using u [of 0] assms(2) by (subst strscpy_loop.simps) (simp add: Let_def)
  next
    case False
    then have il: "i < length s" using Suc by simp
    then have "s ! i \<noteq> 0" using assms(1) by (metis nth_mem)
    moreover have "i < n" using Suc(2) by simp
    ultimately have "strscpy_loop (take i s @ drop i d) (s @ [0]) i n = strscpy_loop (take (i + 1) s @ drop (i + 1) d) (s @ [0]) (i + 1) n"
      using u [of "s ! i"] il by (subst strscpy_loop.simps) (simp add: nth_append Let_def take_Suc_conv_app_nth)
    then show ?thesis using Suc.hyps(1) [of "i + 1"] Suc il by simp
  qed
qed

lemma strscpy_eq:
  assumes "0 \<notin> set s" and "length s \<le> SSIZE_MAX" and "n \<le> length d"
  shows "uv__strscpy d s n =
    (if n = 0 then (d, 0)
     else if length s < n then (s @ 0 # drop (length s + 1) d, int (length s))
     else (take (n - 1) s @ 0 # drop n d, UV_E2BIG))"
  using strscpy_loop_eq [OF assms(1,2), of 0 n d] assms(3) by (simp add: uv__strscpy_def)

section \<open>Dotted decimal\<close>

lemma strchr_digits: "strchr digits ch = (if 48 \<le> ch \<and> ch \<le> 57 then Some (unat ch - 48) else None)"
proof (cases "48 \<le> ch \<and> ch \<le> 57")
  case True
  then have "\<not> ch < 48 \<and> \<not> 57 < ch" by auto
  then obtain c where c: "c < 10" "ch = of_nat (48 + c)" using digit_range by blast
  then have "c \<in> {0, 1, 2, 3, 4, 5, 6, 7, 8, 9}" by auto
  then show ?thesis using c by (auto simp: digits_def)
next
  case False
  then have "ch \<notin> {48, 49, 50, 51, 52, 53, 54, 55, 56, 57}" by auto
  then show ?thesis using False by (auto simp: digits_def)
qed

lemma strchr_digit: "c < 10 \<Longrightarrow> strchr digits (of_nat (48 + c)) = Some c"
proof -
  assume "c < 10"
  then have "c \<in> {0, 1, 2, 3, 4, 5, 6, 7, 8, 9}" by auto
  then show ?thesis by (auto simp: digits_def)
qed

lemma pton4_digit:
  "c < 10 \<Longrightarrow> pton4_loop True k tmp tp (of_nat (48 + c) # s) =
    (if tmp ! tp = 0 \<or> 255 < unat (tmp ! tp) * 10 + c then None
     else pton4_loop True k (tmp[tp := of_nat (unat (tmp ! tp) * 10 + c)]) tp s)"
  by (simp add: strchr_digit Let_def del: of_nat_add)

lemma pton4_decimal:
  assumes "k < 4" and "length tmp = 4" and "tmp ! k = 0" and "n < 256"
  shows "pton4_loop False k tmp k (decimal n @ s) = pton4_loop True (k + 1) (tmp[k := of_nat n]) k s"
  using assms(4)
proof (induction n arbitrary: s rule: decimal.induct)
  case (1 n)
  show ?case
  proof (cases "n < 10")
    case True
    then show ?thesis using assms by (simp add: decimal_small strchr_digit Let_def del: of_nat_add)
  next
    case False
    let ?m = "n div 10" and ?c = "n mod 10"
    have "decimal n = decimal ?m @ [of_nat (48 + ?c)]" using False by (subst decimal.simps) simp
    then have "pton4_loop False k tmp k (decimal n @ s) = pton4_loop True (k + 1) (tmp[k := of_nat ?m]) k (of_nat (48 + ?c) # s)"
      using 1 False by simp
    moreover have "unat (of_nat ?m :: u8) = ?m" using 1(2) by (intro unat_of_nat_u8) simp
    moreover have "of_nat ?m \<noteq> (0 :: u8)" using False calculation(2) by (metis div_greater_zero_iff linorder_not_less nat_neq_iff unsigned_0 zero_less_numeral)
    ultimately show ?thesis using pton4_digit [of ?c "k + 1" "tmp[k := of_nat ?m]" k s] assms 1(2) by simp
  qed
qed

text \<open>What a run of the loop from the middle of a number reads.\<close>

lemma pton4_number_sound:
  assumes "pton4_loop True k tmp tp s = Some bs" and "tp < length tmp"
  shows "\<exists>a ds. decimal (unat a) = decimal (unat (tmp ! tp)) @ ds \<and>
    (s = ds \<and> 4 \<le> k \<and> bs = tmp[tp := a] \<or>
     (\<exists>r. s = ds @ 46 # r \<and> k \<noteq> 4 \<and> pton4_loop False k (tmp[tp := a, tp + 1 := 0]) (tp + 1) r = Some bs))"
  using assms
proof (induction s arbitrary: tmp)
  case Nil
  then show ?case by (intro exI [of _ "tmp ! tp"] exI [of _ "[]"]) (auto split: if_splits)
next
  case (Cons ch s)
  show ?case
  proof (cases "strchr digits ch")
    case None
    then have "ch = 46" "k \<noteq> 4" "pton4_loop False k (tmp[tp + 1 := 0]) (tp + 1) s = Some bs"
      using Cons.prems(1) by (auto split: if_splits)
    then show ?thesis by (intro exI [of _ "tmp ! tp"] exI [of _ "[]"]) simp
  next
    case (Some j)
    then have "48 \<le> ch \<and> ch \<le> 57" by (auto simp: strchr_digits split: if_splits)
    then have "\<not> ch < 48 \<and> \<not> 57 < ch" by auto
    then obtain c where c: "c < 10" "ch = of_nat (48 + c)" using digit_range by blast
    let ?v = "unat (tmp ! tp) * 10 + c"
    from Cons.prems(1) have p: "tmp ! tp \<noteq> 0" "?v \<le> 255" "pton4_loop True k (tmp[tp := of_nat ?v]) tp s = Some bs"
      unfolding c(2) pton4_digit [OF c(1)] by (auto split: if_splits)
    have v: "unat (of_nat ?v :: u8) = ?v" using p(2) by (intro unat_of_nat_u8) simp
    have d: "decimal ?v = decimal (unat (tmp ! tp)) @ [ch]"
      using decimal_step [of "unat (tmp ! tp)" c] p(1) c by (simp add: unat_gt_0)
    from Cons.IH [OF p(3)] Cons.prems(2) obtain a ds where
      "decimal (unat a) = decimal (unat (tmp[tp := of_nat ?v] ! tp)) @ ds"
      "s = ds \<and> 4 \<le> k \<and> bs = tmp[tp := of_nat ?v, tp := a] \<or>
       (\<exists>r. s = ds @ 46 # r \<and> k \<noteq> 4 \<and> pton4_loop False k (tmp[tp := of_nat ?v, tp := a, tp + 1 := 0]) (tp + 1) r = Some bs)"
      by auto
    then show ?thesis using Cons.prems(2) v d by (intro exI [of _ a] exI [of _ "ch # ds"]) (simp del: of_nat_add of_nat_mult)
  qed
qed


lemma pton4_octet_sound:
  assumes "pton4_loop False k tmp tp s = Some bs" and "tmp ! tp = 0" and "tp < length tmp" and "k < 4"
  shows "\<exists>a. s = decimal (unat a) \<and> k = 3 \<and> bs = tmp[tp := a] \<or>
    (\<exists>r. s = decimal (unat a) @ 46 # r \<and> k \<noteq> 3 \<and> pton4_loop False (k + 1) (tmp[tp := a, tp + 1 := 0]) (tp + 1) r = Some bs)"
proof (cases s)
  case (Cons ch s')
  then have "48 \<le> ch \<and> ch \<le> 57" using assms(1) by (auto simp: strchr_digits split: if_splits)
  then have "\<not> ch < 48 \<and> \<not> 57 < ch" by auto
  then obtain c where c: "c < 10" "ch = of_nat (48 + c)" using digit_range by blast
  have u: "unat (of_nat c :: u8) = c" using c(1) by (intro unat_of_nat_u8) simp
  have "pton4_loop True (k + 1) (tmp[tp := of_nat c]) tp s' = Some bs"
    using assms c(1) unfolding Cons c(2) by (simp add: strchr_digit Let_def del: of_nat_add split: if_splits)
  from pton4_number_sound [OF this] assms(3) obtain a ds where "decimal (unat a) = [ch] @ ds"
    "s' = ds \<and> 4 \<le> k + 1 \<and> bs = tmp[tp := a] \<or>
     (\<exists>r. s' = ds @ 46 # r \<and> k + 1 \<noteq> 4 \<and> pton4_loop False (k + 1) (tmp[tp := a, tp + 1 := 0]) (tp + 1) r = Some bs)"
    using c u by (auto simp: decimal_small simp del: of_nat_add)
  then show ?thesis using Cons assms(4) by (intro exI [of _ a]) auto
qed (use assms in auto)

lemma pton4_dot: "pton4_loop True k tmp tp (46 # s) = (if k = 4 then None else pton4_loop False k (tmp[tp + 1 := 0]) (tp + 1) s)"
  by (simp add: strchr_digits)

lemma pton4_octet:
  "\<lbrakk>k < 3; length tmp = 4; tmp ! k = 0\<rbrakk> \<Longrightarrow>
    pton4_loop False k tmp k (decimal (unat a) @ 46 # s) = pton4_loop False (k + 1) (tmp[k := a, k + 1 := 0]) (k + 1) s"
  using pton4_decimal [of k tmp "unat a" "46 # s"] u8_bound [of a] by (simp add: pton4_dot del: pton4_loop.simps)

lemma pton4_dotted: "inet_pton4 (dotted [a, b, c, d]) = Some [a, b, c, d]"
proof -
  have "pton4_loop False 3 [a, b, c, 0] 3 (decimal (unat d)) = Some [a, b, c, d]"
    using pton4_decimal [of 3 "[a, b, c, 0]" "unat d" "[]"] u8_bound [of d] by (simp add: numeral_3_eq_3)
  moreover have "pton4_loop False 2 [a, b, 0, 0] 2 (decimal (unat c) @ 46 # s) = pton4_loop False 3 [a, b, c, 0] 3 s" for s
    using pton4_octet [of 2 "[a, b, 0, 0]" c s] by (simp add: numeral_2_eq_2 numeral_3_eq_3)
  moreover have "pton4_loop False 1 [a, 0, 0, 0] 1 (decimal (unat b) @ 46 # s) = pton4_loop False 2 [a, b, 0, 0] 2 s" for s
    using pton4_octet [of 1 "[a, 0, 0, 0]" b s] by (simp add: numeral_2_eq_2)
  moreover have "pton4_loop False 0 [0, 0, 0, 0] 0 (decimal (unat a) @ 46 # s) = pton4_loop False 1 [a, 0, 0, 0] 1 s" for s
    using pton4_octet [of 0 "[0, 0, 0, 0]" a s] by simp
  ultimately show ?thesis by (simp add: inet_pton4_def dotted_def eval_nat_numeral)
qed

lemma pton4_sound: "inet_pton4 s = Some bs \<Longrightarrow> \<exists>a b c d. bs = [a, b, c, d] \<and> s = dotted [a, b, c, d]"
proof -
  assume "inet_pton4 s = Some bs"
  then have "pton4_loop False 0 [0, 0, 0, 0] 0 s = Some bs" by (simp add: inet_pton4_def eval_nat_numeral)
  from pton4_octet_sound [OF this] obtain a r where 1: "s = decimal (unat a) @ 46 # r" "pton4_loop False 1 [a, 0, 0, 0] 1 r = Some bs"
    by auto
  from pton4_octet_sound [OF 1(2)] obtain b r' where 2: "r = decimal (unat b) @ 46 # r'" "pton4_loop False 2 [a, b, 0, 0] 2 r' = Some bs"
    by (auto simp: numeral_2_eq_2)
  from pton4_octet_sound [OF 2(2)] obtain c r'' where 3: "r' = decimal (unat c) @ 46 # r''" "pton4_loop False 3 [a, b, c, 0] 3 r'' = Some bs"
    by (auto simp: eval_nat_numeral)
  from pton4_octet_sound [OF 3(2)] obtain d where "r'' = decimal (unat d)" "bs = [a, b, c, d]"
    by (auto simp: eval_nat_numeral)
  then show ?thesis using 1(1) 2(1) 3(1) by (simp add: dotted_def eval_nat_numeral)
qed

lemma decimal_digits: "c \<in> set (decimal n) \<Longrightarrow> 48 \<le> c \<and> c \<le> 57"
proof (induction n rule: decimal.induct)
  case (1 n)
  have "48 \<le> (of_nat (48 + k) :: u8) \<and> of_nat (48 + k) \<le> (57 :: u8)" if "k < 10" for k
  proof -
    have "\<exists>c<10. of_nat (48 + k) = (of_nat (48 + c) :: u8)" using that by blast
    from digit_range [THEN iffD2, OF this] show ?thesis by (simp add: not_less)
  qed
  from this [of n] this [of "n mod 10"] show ?case using 1 by (subst (asm) decimal.simps) (auto split: if_splits)
qed

lemma decimal_nonzero: "0 \<notin> set (decimal n)"
  using decimal_digits [of 0 n] by auto

lemma length_octet: "length (decimal (unat (a :: u8))) \<le> 3"
  using length_decimal [of "unat a" 3] u8_bound [of a] by simp

lemma dotted_bounds: "7 \<le> length (dotted src)" "length (dotted src) \<le> 15" "0 \<notin> set (dotted src)"
proof -
  have "1 \<le> length (decimal n)" for n by (cases "decimal n") auto
  then have "1 \<le> length (decimal (unat (src ! 0)))" "1 \<le> length (decimal (unat (src ! 1)))"
    "1 \<le> length (decimal (unat (src ! 2)))" "1 \<le> length (decimal (unat (src ! 3)))" by blast+
  then show "7 \<le> length (dotted src)" by (simp add: dotted_def)
  show "length (dotted src) \<le> 15"
    using length_octet [of "src ! 0"] length_octet [of "src ! 1"] length_octet [of "src ! 2"] length_octet [of "src ! 3"]
    by (simp add: dotted_def)
  show "0 \<notin> set (dotted src)" by (simp add: dotted_def decimal_nonzero)
qed

lemma inet_ntop4_eq:
  "sz \<le> length dst \<Longrightarrow> inet_ntop4 src dst sz =
    (if length (dotted src) < sz then (dotted src @ 0 # drop (length (dotted src) + 1) dst, 0) else (dst, UV_ENOSPC))"
  using dotted_bounds [of src]
  by (auto simp: inet_ntop4_def Let_def UV__INET_ADDRSTRLEN_def strscpy_eq SSIZE_MAX_def)

section \<open>The run of zero words\<close>

text \<open>The words from \<open>p\<close> to \<open>p + l\<close> are zero.\<close>

definition zeros :: "u32 list \<Rightarrow> nat \<Rightarrow> nat \<Rightarrow> bool" where
  "zeros ws p l \<longleftrightarrow> p + l \<le> length ws \<and> (\<forall>j. p \<le> j \<and> j < p + l \<longrightarrow> ws ! j = 0)"

definition no_run :: zero_run where
  "no_run = \<lparr>zr_base = - 1, zr_len = 0\<rparr>"

text \<open>The run is as long as each run of zeros that ends at or before \<open>i\<close>, and the first of its length.\<close>

definition longest :: "u32 list \<Rightarrow> nat \<Rightarrow> zero_run \<Rightarrow> bool" where
  "longest ws i r \<longleftrightarrow>
     (if zr_base r = - 1 then \<forall>p l. zeros ws p l \<and> p + l \<le> i \<longrightarrow> l = 0
      else \<exists>b n. zr_base r = int b \<and> zr_len r = int n \<and> 0 < n \<and> b + n \<le> i \<and> zeros ws b n \<and>
        (\<forall>p l. zeros ws p l \<and> p + l \<le> i \<longrightarrow> l < n \<or> l = n \<and> b \<le> p))"

text \<open>The run that ends at \<open>i\<close> and starts after \<open>c\<close>.\<close>

definition current :: "u32 list \<Rightarrow> nat \<Rightarrow> nat \<Rightarrow> zero_run \<Rightarrow> bool" where
  "current ws c i r \<longleftrightarrow>
     (if zr_base r = - 1 then c = i else zr_base r = int c \<and> zr_len r = int (i - c) \<and> c < i) \<and>
     zeros ws c (i - c) \<and> c \<le> i \<and> (c = 0 \<or> ws ! (c - 1) \<noteq> 0)"

lemma zeros_split:
  assumes "zeros ws p l" and "p + l \<le> i" and "zeros ws c (i - c)" and "c = 0 \<or> ws ! (c - 1) \<noteq> 0" and "c \<le> i"
  shows "l = 0 \<or> p + l \<le> c \<or> c \<le> p"
proof (rule ccontr)
  assume "\<not> ?thesis"
  then have "p \<le> c - 1 \<and> c - 1 < p + l" "c \<noteq> 0" by auto
  then show False using assms(1,4) by (auto simp: zeros_def)
qed

lemma longestI:
  "\<lbrakk>zr_base r = int b; zr_len r = int n; 0 < n; b + n \<le> i; zeros ws b n;
     \<And>p l. \<lbrakk>zeros ws p l; p + l \<le> i\<rbrakk> \<Longrightarrow> l < n \<or> l = n \<and> b \<le> p\<rbrakk> \<Longrightarrow> longest ws i r"
  unfolding longest_def by auto

lemma longest_better:
  assumes "longest ws c best" and "current ws c i r" and "zr_base r \<noteq> - 1"
  shows "longest ws i (better_run best r)"
proof -
  have r: "zr_base r = int c" "zr_len r = int (i - c)" "c < i" "zeros ws c (i - c)"
    and s: "\<And>p l. zeros ws p l \<Longrightarrow> p + l \<le> i \<Longrightarrow> l = 0 \<or> p + l \<le> c \<or> c \<le> p \<and> l \<le> i - c"
    using assms(2,3) zeros_split [of ws _ _ i c] by (fastforce simp: current_def)+
  show ?thesis
  proof (cases "zr_base best = - 1")
    case True
    then have "better_run best r = r" by (simp add: better_run_def)
    moreover have "l < i - c \<or> l = i - c \<and> c \<le> p" if "zeros ws p l" "p + l \<le> i" for p l
    proof -
      have "p + l \<le> c \<Longrightarrow> l = 0" using assms(1) True that(1) by (simp add: longest_def)
      then show ?thesis using s [OF that] r(3) by auto
    qed
    ultimately show ?thesis using r by (intro longestI [of _ c "i - c"]) auto
  next
    case False
    then obtain b n where b: "zr_base best = int b" "zr_len best = int n" "0 < n" "b + n \<le> c" "zeros ws b n"
      "\<And>p l. zeros ws p l \<Longrightarrow> p + l \<le> c \<Longrightarrow> l < n \<or> l = n \<and> b \<le> p"
      using assms(1) by (auto simp: longest_def)
    show ?thesis
    proof (cases "n < i - c")
      case True
      then have "better_run best r = r" using b(2) r by (auto simp: better_run_def)
      moreover have "l < i - c \<or> l = i - c \<and> c \<le> p" if "zeros ws p l" "p + l \<le> i" for p l
        using s [OF that] b(6) [OF that(1)] True r(3) by auto
      ultimately show ?thesis using r by (intro longestI [of _ c "i - c"]) auto
    next
      case False
      then have "better_run best r = best" using b r by (auto simp: better_run_def)
      moreover have "l < n \<or> l = n \<and> b \<le> p" if "zeros ws p l" "p + l \<le> i" for p l
        using s [OF that] b(3,4) b(6) [OF that(1)] False by auto
      ultimately show ?thesis using b r(3) by (intro longestI [of _ b n]) auto
    qed
  qed
qed

lemma longest_nonzero:
  assumes "longest ws i r" and "ws ! i \<noteq> 0"
  shows "longest ws (i + 1) r"
proof -
  have "l = 0 \<or> p + l \<le> i" if "zeros ws p l" "p + l \<le> i + 1" for p l
    using that assms(2) by (auto simp: zeros_def) (metis add_Suc_right le_SucE lessI less_add_Suc1 less_eq_Suc_le nat_le_linear not_less_eq_eq old.nat.exhaust)
  then show ?thesis using assms(1) unfolding longest_def by (smt (verit) le_add1 order_trans)
qed

lemma scan_words_longest:
  "\<lbrakk>ws = drop i all; i \<le> length all; longest all c best; current all c i cur\<rbrakk> \<Longrightarrow>
    longest all (length all) (scan_words (int i) ws best cur)"
proof (induction ws arbitrary: i c best cur)
  case Nil
  then have i: "i = length all" by simp
  show ?case
  proof (cases "zr_base cur = - 1")
    case True
    then show ?thesis using Nil i by (simp add: current_def)
  qed (use Nil i longest_better in auto)
next
  case (Cons w ws)
  then have w: "w = all ! i" "ws = drop (i + 1) all" "i < length all"
    by (metis nth_via_drop, metis Suc_eq_plus1 drop_Suc list.sel(3) tl_drop, metis drop_eq_Nil2 linorder_not_le list.distinct(1))
  show ?case
  proof (cases "w = 0")
    case True
    let ?cur = "if zr_base cur = - 1 then \<lparr>zr_base = int i, zr_len = 1\<rparr> else cur\<lparr>zr_len := zr_len cur + 1\<rparr>"
    have "zeros all c (i + 1 - c)"
      using Cons.prems(4) w True by (auto simp: current_def zeros_def less_Suc_eq)
    then have "current all c (i + 1) ?cur" using Cons.prems(4) by (auto simp: current_def)
    from Cons.IH [OF w(2) _ Cons.prems(3) this] w(3) True show ?thesis by (simp add: add.commute)
  next
    case False
    let ?best = "if zr_base cur = - 1 then best else better_run best cur"
    have "longest all i ?best"
    proof (cases "zr_base cur = - 1")
      case True
      then show ?thesis using Cons.prems(3,4) by (simp add: current_def)
    qed (use Cons.prems longest_better in auto)
    then have "longest all (i + 1) ?best" using w(1) False longest_nonzero by blast
    moreover have "current all (i + 1) (i + 1) (cur\<lparr>zr_base := - 1\<rparr>)"
      using w False by (auto simp: current_def zeros_def)
    ultimately have "longest all (length all) (scan_words (int (i + 1)) ws ?best (cur\<lparr>zr_base := - 1\<rparr>))"
      using Cons.IH [OF w(2)] w(3) by simp
    moreover have "zr_base cur = - 1 \<Longrightarrow> cur\<lparr>zr_base := - 1\<rparr> = cur" by (cases cur) simp
    ultimately show ?thesis using False by (cases "zr_base cur = - 1") (simp_all add: add.commute)
  qed
qed

lemma scan_all: "longest ws (length ws) (scan_words 0 ws no_run no_run)"
proof -
  have "longest ws 0 no_run" "current ws 0 0 no_run" by (auto simp: longest_def current_def no_run_def zeros_def)
  from scan_words_longest [of ws 0 ws 0, OF _ _ this] show ?thesis by simp
qed

lemma best_run_cases:
  obtains (none) "zr_base (best_run ws) = - 1" "\<And>p l. zeros ws p l \<Longrightarrow> l < 2"
  | (run) b n where "zr_base (best_run ws) = int b" "zr_len (best_run ws) = int n" "2 \<le> n" "zeros ws b n"
      "\<And>p l. zeros ws p l \<Longrightarrow> l < n \<or> l = n \<and> b \<le> p"
proof -
  let ?r = "scan_words 0 ws no_run no_run"
  have l: "longest ws (length ws) ?r" by (rule scan_all)
  have z: "zeros ws p l \<Longrightarrow> p + l \<le> length ws" for p l by (simp add: zeros_def)
  have e: "best_run ws = (if zr_base ?r \<noteq> - 1 \<and> zr_len ?r < 2 then ?r\<lparr>zr_base := - 1\<rparr> else ?r)"
    by (simp add: best_run_def no_run_def Let_def)
  show ?thesis
  proof (cases "zr_base ?r = - 1")
    case True
    then have "zeros ws p l \<Longrightarrow> l = 0" for p l using l z by (auto simp: longest_def)
    then have "zeros ws p l \<Longrightarrow> l < 2" for p l by force
    then show ?thesis using True e none by simp
  next
    case False
    then obtain b n where b: "zr_base ?r = int b" "zr_len ?r = int n" "zeros ws b n"
      "\<And>p l. zeros ws p l \<Longrightarrow> l < n \<or> l = n \<and> b \<le> p"
      using l z by (auto simp: longest_def)
    show ?thesis
    proof (cases "n < 2")
      case True
      then have "zeros ws p l \<Longrightarrow> l < 2" for p l using b(4) by force
      then show ?thesis using True e b none by simp
    qed (use e b run in auto)
  qed
qed

section \<open>The text of an IPv6 address\<close>

text \<open>Groups of hexadecimal digits separated by colons.\<close>

definition colon_groups :: "u32 list \<Rightarrow> u8 list" where
  "colon_groups ws = concat (map (\<lambda>w. 58 # hexadecimal (unat w)) ws)"

definition groups_colon :: "u32 list \<Rightarrow> u8 list" where
  "groups_colon ws = concat (map (\<lambda>w. hexadecimal (unat w) @ [58]) ws)"

definition hex_groups :: "u32 list \<Rightarrow> u8 list" where
  "hex_groups ws = (if ws = [] then [] else groups_colon (butlast ws) @ hexadecimal (unat (last ws)))"

definition v4_mapped :: "u32 list \<Rightarrow> nat \<Rightarrow> nat \<Rightarrow> bool" where
  "v4_mapped ws b n \<longleftrightarrow> b = 0 \<and> (n = 6 \<or> n = 5 \<and> ws ! 5 = 0xffff)"

definition inet6_text :: "u8 list \<Rightarrow> u8 list" where
  "inet6_text src =
     (let ws = inet6_words src; best = best_run ws; b = nat (zr_base best); n = nat (zr_len best)
      in if zr_base best = - 1 then hex_groups ws
         else if v4_mapped ws b n then [58, 58] @ groups_colon (take (6 - n) (drop n ws)) @ dotted (drop 12 src)
         else hex_groups (take b ws) @ [58, 58] @ hex_groups (drop (b + n) ws))"

lemma groups_colon_Nil [simp]: "groups_colon [] = []"
  and groups_colon_Cons [simp]: "groups_colon (w # ws) = hexadecimal (unat w) @ 58 # groups_colon ws"
  and groups_colon_append [simp]: "groups_colon (xs @ ys) = groups_colon xs @ groups_colon ys"
  by (simp_all add: groups_colon_def)

lemma colon_groups_Nil [simp]: "colon_groups [] = []"
  and colon_groups_Cons [simp]: "colon_groups (w # ws) = 58 # hexadecimal (unat w) @ colon_groups ws"
  and colon_groups_append [simp]: "colon_groups (xs @ ys) = colon_groups xs @ colon_groups ys"
  by (simp_all add: colon_groups_def)

lemma colon_shift: "colon_groups ws @ [58] = 58 # groups_colon ws"
  by (induction ws) simp_all

lemma colon_groups_eq: "ws \<noteq> [] \<Longrightarrow> colon_groups ws = 58 # hex_groups ws"
  by (cases ws rule: rev_exhaust) (simp_all add: hex_groups_def flip: append_Cons colon_shift)

lemma hex_groups_Cons: "hex_groups (w # ws) = hexadecimal (unat w) @ colon_groups ws"
proof -
  have "58 # hex_groups (w # ws) = 58 # hexadecimal (unat w) @ colon_groups ws"
    using colon_groups_eq [of "w # ws"] by simp
  then show ?thesis by simp
qed

lemma hex_groups_append: "xs \<noteq> [] \<Longrightarrow> hex_groups (xs @ ys) = hex_groups xs @ colon_groups ys"
  by (cases xs) (simp_all add: hex_groups_Cons)

definition in_run :: "zero_run \<Rightarrow> nat \<Rightarrow> bool" where
  "in_run best i \<longleftrightarrow> zr_base best \<noteq> - 1 \<and> zr_base best \<le> int i \<and> int i < zr_base best + zr_len best"

lemma ntop6_group:
  "\<lbrakk>i < 8; \<not> in_run best i; \<not> encapsulated_v4 ws best i\<rbrakk> \<Longrightarrow>
    ntop6_loop src ws best i out =
    ntop6_loop src ws best (i + 1) (out @ (if i = 0 then [] else [58]) @ hexadecimal (unat (ws ! i)))"
  by (subst ntop6_loop.simps) (auto simp: in_run_def Let_def)

lemma ntop6_skip:
  "\<lbrakk>i < 8; in_run best i\<rbrakk> \<Longrightarrow>
    ntop6_loop src ws best i out = ntop6_loop src ws best (i + 1) (if int i = zr_base best then out @ [58] else out)"
  by (subst ntop6_loop.simps) (auto simp: in_run_def)

lemma ntop6_end: "ntop6_loop src ws best 8 out = Inr out"
  by (subst ntop6_loop.simps) simp

lemma ntop6_groups:
  assumes "length ws = 8" and "\<And>j. i \<le> j \<Longrightarrow> j < i + k \<Longrightarrow> \<not> in_run best j \<and> \<not> encapsulated_v4 ws best j"
    and "i + k \<le> 8" and "0 < i"
  shows "ntop6_loop src ws best i out = ntop6_loop src ws best (i + k) (out @ colon_groups (take k (drop i ws)))"
  using assms(2-)
proof (induction k arbitrary: i out)
  case (Suc k)
  have "take (Suc k) (drop i ws) = ws ! i # take k (drop (i + 1) ws)"
    using Suc.prems assms(1) by (simp add: Cons_nth_drop_Suc [symmetric])
  moreover have "ntop6_loop src ws best i out = ntop6_loop src ws best (i + 1) (out @ 58 # hexadecimal (unat (ws ! i)))"
    using Suc.prems ntop6_group [of i best ws src out] by simp
  ultimately show ?case using Suc.IH [of "i + 1"] Suc.prems by simp
qed simp

lemma ntop6_leading:
  assumes "length ws = 8" and "\<And>j. j < k \<Longrightarrow> \<not> in_run best j \<and> \<not> encapsulated_v4 ws best j" and "k \<le> 8"
  shows "ntop6_loop src ws best 0 [] = ntop6_loop src ws best k (hex_groups (take k ws))"
proof (cases k)
  case (Suc k')
  have "ntop6_loop src ws best 0 [] = ntop6_loop src ws best 1 (hexadecimal (unat (ws ! 0)))"
    using ntop6_group [of 0 best ws src "[]"] assms Suc by simp
  also have "\<dots> = ntop6_loop src ws best k (hexadecimal (unat (ws ! 0)) @ colon_groups (take k' (drop 1 ws)))"
    using ntop6_groups [of ws 1 k' best] assms Suc by simp
  also have "hexadecimal (unat (ws ! 0)) @ colon_groups (take k' (drop 1 ws)) = hex_groups (take k ws)"
    using assms(1) Suc by (cases ws) (simp_all add: hex_groups_Cons)
  finally show ?thesis .
qed (simp add: hex_groups_def)

lemma ntop6_inside:
  assumes "zr_base best = int b" and "zr_len best = int n" and "b < i" and "i + k \<le> b + n" and "i + k \<le> 8"
  shows "ntop6_loop src ws best i out = ntop6_loop src ws best (i + k) out"
  using assms(3-)
proof (induction k arbitrary: i)
  case (Suc k)
  then show ?case using ntop6_skip [of i best src ws out] assms(1,2) Suc.IH [of "i + 1"] by (simp add: in_run_def)
qed simp

lemma ntop6_run:
  assumes "zr_base best = int b" and "zr_len best = int n" and "0 < n" and "b + n \<le> 8"
  shows "ntop6_loop src ws best b out = ntop6_loop src ws best (b + n) (out @ [58])"
  using ntop6_skip [of b best src ws out] ntop6_inside [of best b n "b + 1" "n - 1"] assms by (simp add: in_run_def)

lemma encapsulated_iff:
  "\<lbrakk>zr_base best = int b; zr_len best = int n; \<not> in_run best 6\<rbrakk> \<Longrightarrow> encapsulated_v4 ws best 6 \<longleftrightarrow> v4_mapped ws b n"
  by (auto simp: encapsulated_v4_def v4_mapped_def in_run_def)

lemma not_encapsulated: "zr_base best = int b \<Longrightarrow> zr_len best = int n \<Longrightarrow> \<not> v4_mapped ws b n \<Longrightarrow> \<not> in_run best i \<Longrightarrow> \<not> encapsulated_v4 ws best i"
  using encapsulated_iff [of best b n ws] by (auto simp: encapsulated_v4_def)

text \<open>The address as it stands in the buffer, the colon of a trailing run included.\<close>

definition close_run :: "zero_run \<Rightarrow> u8 list \<Rightarrow> u8 list" where
  "close_run best out = (if zr_base best \<noteq> - 1 \<and> zr_base best + zr_len best = 8 then out @ [58] else out)"

lemma ntop6_mapped:
  assumes "length out \<le> 29" and "encapsulated_v4 ws best 6" and "\<not> in_run best 6"
  shows "ntop6_loop src ws best 6 out = Inr (out @ 58 # dotted (drop 12 src))"
proof -
  let ?sz = "46 - length (out @ [58])"
  have "inet_ntop4 (drop 12 src) (replicate ?sz 0) ?sz =
    (dotted (drop 12 src) @ 0 # drop (length (dotted (drop 12 src)) + 1) (replicate ?sz 0), 0)"
    using assms(1) dotted_bounds(2) [of "drop 12 src"] by (subst inet_ntop4_eq) auto
  moreover have "takeWhile (\<lambda>c. c \<noteq> 0) (dotted bs @ 0 # zs) = dotted bs" for bs zs
    using dotted_bounds(3) [of bs] by (subst takeWhile_append2) auto
  ultimately show ?thesis using assms(2,3)
    by (subst ntop6_loop.simps) (auto simp: in_run_def Let_def UV__INET6_ADDRSTRLEN_def)
qed

lemma ntop6_text:
  assumes "length (inet6_words src) = 8" and "\<And>w. w \<in> set (inet6_words src) \<Longrightarrow> length (hexadecimal (unat w)) \<le> 4"
  shows "map_sum id (close_run (best_run (inet6_words src))) (ntop6_loop src (inet6_words src) (best_run (inet6_words src)) 0 []) =
    Inr (inet6_text src)"
proof (cases rule: best_run_cases [of "inet6_words src"])
  case none
  then have "\<not> in_run (best_run (inet6_words src)) j" "\<not> encapsulated_v4 (inet6_words src) (best_run (inet6_words src)) j" for j
    by (auto simp: in_run_def encapsulated_v4_def)
  then show ?thesis using ntop6_leading [of "inet6_words src" 8 "best_run (inet6_words src)"] assms(1) none(1)
    by (simp add: ntop6_end close_run_def inet6_text_def Let_def)
next
  case (run b n)
  let ?ws = "inet6_words src" and ?best = "best_run (inet6_words src)"
  have bn: "b + n \<le> 8" using run(4) assms(1) by (simp add: zeros_def)
  have out: "\<not> in_run ?best j \<longleftrightarrow> j < b \<or> b + n \<le> j" for j using run(1,2) by (auto simp: in_run_def)
  show ?thesis
  proof (cases "v4_mapped ?ws b n")
    case True
    then have b: "b = 0" "n = 5 \<or> n = 6" by (auto simp: v4_mapped_def)
    have e: "encapsulated_v4 ?ws ?best 6" using True encapsulated_iff [OF run(1,2)] out [of 6] b by auto
    have "ntop6_loop src ?ws ?best 0 [] = ntop6_loop src ?ws ?best n [58]"
      using ntop6_run [OF run(1,2), of src ?ws "[]"] bn run(3) b(1) by simp
    also have "\<dots> = ntop6_loop src ?ws ?best (n + (6 - n)) ([58] @ colon_groups (take (6 - n) (drop n ?ws)))"
      using b out by (intro ntop6_groups) (auto simp: assms(1) encapsulated_v4_def)
    also have "\<dots> = Inr ([58] @ colon_groups (take (6 - n) (drop n ?ws)) @ 58 # dotted (drop 12 src))"
    proof -
      have "length ([58] @ colon_groups (take (6 - n) (drop n ?ws))) \<le> 29"
        using b(2) assms(1) assms(2) [of "?ws ! 5"] by (auto simp: take_Suc_conv_app_nth)
      then show ?thesis using ntop6_mapped [OF _ e] out [of 6] b by auto
    qed
    also have "\<dots> = Inr (inet6_text src)"
      using True run(1,2) b(1) colon_shift [of "take (6 - n) (drop n ?ws)"]
      by (simp add: inet6_text_def Let_def)
    finally show ?thesis using run(1,2) b by (auto simp: close_run_def)
  next
    case False
    have ne: "\<not> in_run ?best j \<Longrightarrow> \<not> encapsulated_v4 ?ws ?best j" for j
      by (rule not_encapsulated [OF run(1,2) False])
    have "ntop6_loop src ?ws ?best 0 [] = ntop6_loop src ?ws ?best b (hex_groups (take b ?ws))"
      using assms(1) out ne bn by (intro ntop6_leading) auto
    also have "\<dots> = ntop6_loop src ?ws ?best (b + n) (hex_groups (take b ?ws) @ [58])"
      using ntop6_run [OF run(1,2)] run(3) bn by simp
    also have "\<dots> = Inr (hex_groups (take b ?ws) @ [58] @ colon_groups (drop (b + n) ?ws))"
      using ntop6_groups [of ?ws "b + n" "8 - (b + n)" ?best src] assms(1) out ne bn run(3) by (simp add: ntop6_end)
    finally have "ntop6_loop src ?ws ?best 0 [] = Inr (hex_groups (take b ?ws) @ [58] @ colon_groups (drop (b + n) ?ws))" .
    then show ?thesis using run(1,2) False assms(1) bn
      by (cases "b + n = 8") (simp_all add: close_run_def inet6_text_def Let_def hex_groups_def [of "[]"] colon_groups_eq)
  qed
qed

section \<open>Words and bytes\<close>

definition word_of_bytes :: "u8 \<Rightarrow> u8 \<Rightarrow> u32" where
  "word_of_bytes a b = push_bit 8 (ucast a) OR ucast b"

definition word_bytes :: "u32 \<Rightarrow> u8 list" where
  "word_bytes w = [ucast (drop_bit 8 w) AND 0xff, ucast w AND 0xff]"

lemma unat_word_of_bytes: "unat (word_of_bytes a b) = unat a * 256 + unat b"
  using unat_shift_or [of "ucast b :: u32" 8 "ucast a"] u8_bound [of a] by (simp add: word_of_bytes_def)

lemma word_bytes_of_bytes: "word_bytes (word_of_bytes a b) = [a, b]"
proof -
  have m: "(0xff :: u8) = mask 8" by (simp add: mask_eq_exp_minus_1)
  have "ucast (drop_bit 8 (push_bit 8 (ucast a) OR ucast b :: u32)) AND mask 8 = a"
    by (rule bit_eqI) (auto simp: bit_simps dest: bit_imp_le_length)
  moreover have "ucast (push_bit 8 (ucast a) OR ucast b :: u32) AND mask 8 = b"
    by (rule bit_eqI) (auto simp: bit_simps dest: bit_imp_le_length)
  ultimately show ?thesis by (simp only: word_bytes_def word_of_bytes_def m)
qed

lemma list16:
  assumes "length src = 16"
  obtains a0 a1 a2 a3 a4 a5 a6 a7 a8 a9 a10 a11 a12 a13 a14 a15
  where "src = [a0, a1, a2, a3, a4, a5, a6, a7, a8, a9, a10, a11, a12, a13, a14, a15]"
  using assms by (auto simp: length_Suc_conv numeral_eq_Suc)

lemma inet6_words_eq:
  "inet6_words [a0, a1, a2, a3, a4, a5, a6, a7, a8, a9, a10, a11, a12, a13, a14, a15] =
    [word_of_bytes a0 a1, word_of_bytes a2 a3, word_of_bytes a4 a5, word_of_bytes a6 a7,
     word_of_bytes a8 a9, word_of_bytes a10 a11, word_of_bytes a12 a13, word_of_bytes a14 a15]"
proof -
  have "replicate 8 0 = [0, 0, 0, 0, 0, 0, 0, 0 :: u32]" by (simp add: numeral_eq_Suc)
  then show ?thesis by (simp add: inet6_words_def word_of_bytes_def upt_rec)
qed

lemma hexadecimal_not_Nil [simp]: "hexadecimal n \<noteq> []"
  by (subst hexadecimal.simps) simp

lemma length_hexadecimal: "\<lbrakk>n < 16 ^ k; 0 < k\<rbrakk> \<Longrightarrow> length (hexadecimal n) \<le> k"
proof (induction k arbitrary: n)
  case (Suc k)
  show ?case
  proof (cases "n < 16")
    case False
    then have "k \<noteq> 0" using Suc.prems by (cases k) auto
    moreover have "n div 16 < 16 ^ k" using Suc.prems by (simp add: less_mult_imp_div_less mult.commute)
    ultimately show ?thesis using Suc.IH [of "n div 16"] False by (subst hexadecimal.simps) simp
  qed (subst hexadecimal.simps; simp)
qed simp

lemma xdigit_nth: "k < 16 \<Longrightarrow> xdigit (xdigits_l ! k) = Some k"
proof -
  assume "k < 16"
  moreover have "\<forall>k\<in>set [0..<16]. xdigit (xdigits_l ! k) = Some k"
    by (simp add: upt_rec xdigit_def xdigits_l_def digits_def)
  ultimately show ?thesis by simp
qed

lemma xdigit_small: "xdigit 0 = None" "xdigit 37 = None" "xdigit 58 = None" "xdigit 46 = None"
  by (simp_all add: xdigit_def xdigits_l_def xdigits_u_def digits_def)

lemma hexadecimal_xdigit: "c \<in> set (hexadecimal n) \<Longrightarrow> xdigit c \<noteq> None"
proof (induction n rule: hexadecimal.induct)
  case (1 n)
  have "xdigit (xdigits_l ! k) \<noteq> None" if "k < 16" for k using xdigit_nth [OF that] by simp
  from this [of n] this [of "n mod 16"] show ?case using 1 by (subst (asm) hexadecimal.simps) (auto split: if_splits)
qed

lemma inet6_words_props:
  assumes "length src = 16"
  shows "length (inet6_words src) = 8" and "concat (map word_bytes (inet6_words src)) = src"
    and "\<And>w. w \<in> set (inet6_words src) \<Longrightarrow> unat w < 65536"
proof -
  from assms show "length (inet6_words src) = 8" by (rule list16) (simp add: inet6_words_eq)
  from assms show "concat (map word_bytes (inet6_words src)) = src"
    by (rule list16) (simp add: inet6_words_eq word_bytes_of_bytes)
  have "unat (word_of_bytes a b) < 65536" for a b
    using u8_le [of a] u8_le [of b] unfolding unat_word_of_bytes by linarith
  moreover from assms have "\<exists>a b. w = word_of_bytes a b" if "w \<in> set (inet6_words src)" for w
    using that by (elim list16) (auto simp: inet6_words_eq)
  ultimately show "\<And>w. w \<in> set (inet6_words src) \<Longrightarrow> unat w < 65536" by force
qed

lemma length_groups_colon: "(\<And>w. w \<in> set ws \<Longrightarrow> unat w < 65536) \<Longrightarrow> length (groups_colon ws) \<le> 5 * length ws"
proof (induction ws)
  case (Cons w ws)
  then show ?case using length_hexadecimal [of "unat w" 4] by force
qed simp

lemma length_hex_groups: "(\<And>w. w \<in> set ws \<Longrightarrow> unat w < 65536) \<Longrightarrow> length (hex_groups ws) \<le> 5 * length ws - 1"
  using length_groups_colon [of "butlast ws"] length_hexadecimal [of "unat (last ws)" 4]
  by (cases ws rule: rev_exhaust) (force simp: hex_groups_def)+

lemma groups_xdigit:
  "\<lbrakk>xdigit c = None; c \<noteq> 58\<rbrakk> \<Longrightarrow> c \<notin> set (groups_colon ws)"
  "\<lbrakk>xdigit c = None; c \<noteq> 58\<rbrakk> \<Longrightarrow> c \<notin> set (hex_groups ws)"
  by (auto simp: groups_colon_def hex_groups_def dest: hexadecimal_xdigit)

lemma inet6_text_chars: "\<lbrakk>xdigit c = None; c < 46\<rbrakk> \<Longrightarrow> c \<notin> set (inet6_text src)"
proof -
  assume c: "xdigit c = None" "c < 46"
  then have "c \<noteq> 58" "\<not> 48 \<le> c" "c \<noteq> 46" by (auto simp: word_less_nat_alt word_le_nat_alt)
  moreover from this(2) have "c \<notin> set (decimal n)" for n using decimal_digits by blast
  ultimately show ?thesis using groups_xdigit [OF c(1)] by (auto simp: inet6_text_def Let_def dotted_def)
qed

lemma inet6_text_length:
  assumes "length src = 16"
  shows "length (inet6_text src) \<le> 39"
proof -
  let ?ws = "inet6_words src"
  have w: "set vs \<subseteq> set ?ws \<Longrightarrow> length (hex_groups vs) \<le> 5 * length vs - 1"
    "set vs \<subseteq> set ?ws \<Longrightarrow> length (groups_colon vs) \<le> 5 * length vs" for vs
    using length_hex_groups [of vs] length_groups_colon [of vs] inet6_words_props(3) [OF assms] by blast+
  have l: "length ?ws = 8" by (rule inet6_words_props(1) [OF assms])
  show ?thesis
  proof (cases rule: best_run_cases [of ?ws])
    case none
    then show ?thesis using w(1) [of ?ws] l by (simp add: inet6_text_def Let_def)
  next
    case (run b n)
    then have "b + n \<le> 8" using l by (simp add: zeros_def)
    moreover have "n \<le> 6 \<and> 5 \<le> n" if "v4_mapped ?ws b n" using that by (auto simp: v4_mapped_def)
    moreover note w(1) [of "take b ?ws", OF set_take_subset] w(1) [of "drop (b + n) ?ws", OF set_drop_subset]
    moreover have "length (groups_colon (take (6 - n) (drop n ?ws))) \<le> 5 * (6 - n)" if "n \<le> 6"
      using w(2) [of "take (6 - n) (drop n ?ws)"] l that by (auto dest: in_set_takeD in_set_dropD)
    ultimately show ?thesis using run l dotted_bounds(2) [of "drop 12 src"] by (auto simp: inet6_text_def Let_def)
  qed
qed

lemmas inet6_text_bounds = inet6_text_length
  inet6_text_chars [of 0, OF xdigit_small(1), simplified] inet6_text_chars [of 37, OF xdigit_small(2), simplified]

lemma inet_ntop6_eq:
  assumes "length src = 16" and "sz \<le> length dst"
  shows "inet_ntop6 src dst sz =
    (if sz = 0 then (dst, 0)
     else if length (inet6_text src) < sz then (inet6_text src @ 0 # drop (length (inet6_text src) + 1) dst, 0)
     else (take (sz - 1) (inet6_text src) @ 0 # drop sz dst, UV_ENOSPC))"
proof -
  let ?best = "best_run (inet6_words src)"
  have "length (hexadecimal (unat w)) \<le> 4" if "w \<in> set (inet6_words src)" for w
    using inet6_words_props(3) [OF assms(1) that] length_hexadecimal [of "unat w" 4] by simp
  then obtain out where "ntop6_loop src (inet6_words src) ?best 0 [] = Inr out" "close_run ?best out = inet6_text src"
    using ntop6_text [OF inet6_words_props(1) [OF assms(1)]] by (cases "ntop6_loop src (inet6_words src) ?best 0 []") auto
  then have "inet_ntop6 src dst sz = (case uv__strscpy dst (inet6_text src) sz of (dst', r) \<Rightarrow> (dst', if r = UV_E2BIG then UV_ENOSPC else 0))"
    by (auto simp: inet_ntop6_def Let_def close_run_def)
  then show ?thesis using inet6_text_bounds(1) [OF assms(1)] inet6_text_bounds(2) [of src] assms(2)
    by (simp add: strscpy_eq SSIZE_MAX_def UV_E2BIG_def)
qed

section \<open>Reading an IPv6 address\<close>

text \<open>The state between two groups, with the bytes \<open>bs\<close> read.\<close>

definition between :: "u8 list \<Rightarrow> nat option \<Rightarrow> pton6_state" where
  "between bs cp = \<lparr>p6_tmp = bs @ replicate (16 - length bs) 0, p6_tp = length bs, p6_colonp = cp, p6_seen = 0, p6_val = 0\<rparr>"

lemma pton6_hex:
  assumes "n < 65536" and "p6_seen st = 0" and "p6_val st = 0"
  shows "pton6_loop cur st (hexadecimal n @ s) =
    pton6_loop cur (st\<lparr>p6_val := of_nat n, p6_seen := length (hexadecimal n)\<rparr>) s"
  using assms(1)
proof (induction n arbitrary: s rule: hexadecimal.induct)
  case (1 n)
  have h: "length (hexadecimal n) \<le> 4" using length_hexadecimal [of n 4] 1(2) by simp
  show ?case
  proof (cases "n < 16")
    case True
    then have "hexadecimal n = [xdigits_l ! n]" by (subst hexadecimal.simps) simp
    then show ?thesis using assms True xdigit_nth [of n] by simp
  next
    case False
    let ?m = "n div 16" and ?c = "n mod 16"
    have e: "hexadecimal n = hexadecimal ?m @ [xdigits_l ! ?c]" using False by (subst hexadecimal.simps) simp
    have "push_bit 4 (of_nat ?m :: u32) OR of_nat ?c = of_nat n"
    proof -
      have "unat (of_nat ?c :: u32) < 2 ^ 4" by (simp add: unat_of_nat)
      then have "push_bit 4 (of_nat ?m :: u32) OR of_nat ?c = of_nat ?m * 2 ^ 4 + of_nat ?c" by (rule word_shift_or)
      also have "\<dots> = of_nat (?m * 2 ^ 4 + ?c)" by (simp only: of_nat_add of_nat_mult of_nat_power of_nat_numeral)
      also have "?m * 2 ^ 4 + ?c = n" by simp
      finally show ?thesis .
    qed
    then show ?thesis using 1 False h e xdigit_nth [of ?c] by simp
  qed
qed

lemma put_word_between:
  "length bs + 2 \<le> 16 \<Longrightarrow> put_word (bs @ replicate (16 - length bs) 0) (length bs) w =
    (bs @ word_bytes w) @ replicate (16 - length (bs @ word_bytes w)) 0"
proof -
  assume "length bs + 2 \<le> 16"
  then have "16 - length bs = Suc (Suc (14 - length bs))" "16 - length (bs @ word_bytes w) = 14 - length bs"
    by (simp_all add: word_bytes_def)
  then show ?thesis by (simp add: put_word_def word_bytes_def list_update_append)
qed

lemma pton6_colon:
  "\<lbrakk>p6_seen st \<noteq> 0; s \<noteq> []; p6_tp st + 2 \<le> 16\<rbrakk> \<Longrightarrow> pton6_loop cur st (58 # s) =
    pton6_loop s (st\<lparr>p6_tmp := put_word (p6_tmp st) (p6_tp st) (p6_val st), p6_tp := p6_tp st + 2, p6_seen := 0, p6_val := 0\<rparr>) s"
  by (simp add: xdigit_small)

lemma pton6_group_colon:
  assumes "unat w < 65536" and "length bs + 2 \<le> 16" and "s \<noteq> []"
  shows "pton6_loop cur (between bs cp) (hexadecimal (unat w) @ 58 # s) = pton6_loop s (between (bs @ word_bytes w) cp) s"
proof -
  have "length (word_bytes w) = 2" by (simp add: word_bytes_def)
  moreover have "pton6_loop cur (between bs cp) (hexadecimal (unat w) @ 58 # s) =
    pton6_loop cur (between bs cp\<lparr>p6_val := w, p6_seen := length (hexadecimal (unat w))\<rparr>) (58 # s)"
    using pton6_hex [of "unat w" "between bs cp" cur "58 # s"] assms(1) by (simp add: between_def)
  ultimately show ?thesis
    using pton6_colon [of "between bs cp\<lparr>p6_val := w, p6_seen := length (hexadecimal (unat w))\<rparr>" s cur] assms put_word_between [OF assms(2), of w]
    by (simp add: between_def del: pton6_loop.simps)
qed

lemma pton6_groups_colon:
  "\<lbrakk>\<And>w. w \<in> set ws \<Longrightarrow> unat w < 65536; length bs + 2 * length ws \<le> 16; s \<noteq> []\<rbrakk> \<Longrightarrow>
    pton6_loop cur (between bs cp) (groups_colon ws @ s) =
    pton6_loop (if ws = [] then cur else s) (between (bs @ concat (map word_bytes ws)) cp) s"
proof (induction ws arbitrary: bs cur)
  case (Cons w ws)
  have "length (word_bytes w) = 2" by (simp add: word_bytes_def)
  then show ?case using Cons pton6_group_colon [of w bs "groups_colon ws @ s" cur cp] by simp
qed simp

lemma pton6_last:
  assumes "unat w < 65536" and "length bs + 2 \<le> 16"
  shows "Option.bind (pton6_loop cur (between bs cp) (hexadecimal (unat w))) pton6_finish = pton6_finish (between (bs @ word_bytes w) cp)"
proof -
  have "length (word_bytes w) = 2" by (simp add: word_bytes_def)
  then show ?thesis using pton6_hex [of "unat w" "between bs cp" cur "[]"] put_word_between [OF assms(2), of w] assms
    by (cases cp) (simp_all add: pton6_finish_def between_def)
qed

lemma pton6_hex_groups:
  assumes "\<And>w. w \<in> set ws \<Longrightarrow> unat w < 65536" and "length bs + 2 * length ws \<le> 16"
  shows "Option.bind (pton6_loop cur (between bs cp) (hex_groups ws)) pton6_finish =
    pton6_finish (between (bs @ concat (map word_bytes ws)) cp)"
proof (cases ws rule: rev_exhaust)
  case (snoc vs v)
  have "length (concat (map word_bytes vs)) = 2 * length vs" by (induction vs) (simp_all add: word_bytes_def)
  then show ?thesis using assms snoc pton6_groups_colon [of vs bs "hexadecimal (unat v)" cur cp]
    by (simp add: hex_groups_def pton6_last)
qed (simp add: hex_groups_def)

lemma pton6_double_colon: "pton6_loop cur (between bs None) (58 # s) = pton6_loop s (between bs (Some (length bs))) s"
  by (simp add: xdigit_small between_def)

text \<open>The digits of the first octet are read as hexadecimal digits until the point is seen.\<close>

lemma pton6_digits:
  "\<lbrakk>\<And>c. c \<in> set ds \<Longrightarrow> xdigit c \<noteq> None; p6_seen st + length ds \<le> 4\<rbrakk> \<Longrightarrow>
    \<exists>v. pton6_loop cur st (ds @ s) = pton6_loop cur (st\<lparr>p6_val := v, p6_seen := p6_seen st + length ds\<rparr>) s"
proof (induction ds arbitrary: st)
  case Nil
  show ?case by (rule exI [of _ "p6_val st"]) simp
next
  case (Cons d ds)
  then obtain k where k: "xdigit d = Some k" by (metis list.set_intros(1) not_None_eq)
  let ?st = "st\<lparr>p6_val := push_bit 4 (p6_val st) OR of_nat k, p6_seen := p6_seen st + 1\<rparr>"
  obtain v where "pton6_loop cur ?st (ds @ s) = pton6_loop cur (?st\<lparr>p6_val := v, p6_seen := p6_seen ?st + length ds\<rparr>) s"
    using Cons.IH [of ?st] Cons.prems by auto
  then show ?case using k Cons.prems by (intro exI [of _ v]) simp
qed

lemma xdigit_decimal: "c \<in> set (decimal n) \<Longrightarrow> xdigit c \<noteq> None"
proof -
  assume "c \<in> set (decimal n)"
  then have "\<not> c < 48 \<and> \<not> 57 < c" using decimal_digits by (meson linorder_not_less)
  then obtain k where k: "k < 10" "c = of_nat (48 + k)" using digit_range by blast
  then have "k \<in> {0, 1, 2, 3, 4, 5, 6, 7, 8, 9}" by auto
  then have "xdigits_l ! k = c" "k < 16" using k by (auto simp: xdigits_l_def digits_def)
  then show ?thesis using xdigit_nth by force
qed

lemma pton6_dotted:
  assumes "length bs \<le> 12" and "length as = 4"
  shows "Option.bind (pton6_loop (dotted as) (between bs cp) (dotted as)) pton6_finish = pton6_finish (between (bs @ as) cp)"
proof -
  obtain s where s: "dotted as = decimal (unat (as ! 0)) @ 46 # s" by (simp add: dotted_def)
  obtain v where "pton6_loop (dotted as) (between bs cp) (dotted as) =
    pton6_loop (dotted as) (between bs cp\<lparr>p6_val := v, p6_seen := length (decimal (unat (as ! 0)))\<rparr>) (46 # s)"
    using pton6_digits [of "decimal (unat (as ! 0))" "between bs cp" "dotted as" "46 # s"] xdigit_decimal length_octet [of "as ! 0"]
    by (auto simp: s between_def simp del: pton6_loop.simps)
  moreover have "as = [as ! 0, as ! 1, as ! 2, as ! 3]" using assms(2) by (auto simp: length_Suc_conv numeral_eq_Suc)
  then have "inet_pton4 (dotted as) = Some as" using pton4_dotted by metis
  moreover have "drop 4 (replicate (16 - length bs) 0) = replicate (16 - length (bs @ as)) (0 :: u8)" using assms by simp
  ultimately show ?thesis using assms
    by (cases cp) (simp_all add: xdigit_small between_def pton6_finish_def)
qed

subsection \<open>Moving the bytes after the double colon\<close>

lemma shift_step:
  assumes "z \<noteq> 0" and "m < length bs"
  shows "(take (m + 1) bs @ replicate z 0 @ drop (m + 1) bs)[m + z := (take (m + 1) bs @ replicate z 0 @ drop (m + 1) bs) ! m, m := 0] =
    take m bs @ replicate z 0 @ drop m (bs :: u8 list)"
proof -
  obtain z' where z: "z = Suc z'" using assms(1) not0_implies_Suc by blast
  have t: "take (m + 1) bs = take m bs @ [bs ! m]" and d: "drop m bs = bs ! m # drop (m + 1) bs"
    using assms(2) by (simp_all add: take_Suc_conv_app_nth Cons_nth_drop_Suc)
  have r: "replicate (Suc z') 0 = replicate z' (0 :: u8) @ [0]" by (simp add: replicate_append_same)
  have "(take m bs @ [bs ! m] @ (replicate z' 0 @ [0]) @ drop (m + 1) bs)[m + Suc z' := bs ! m] =
    take m bs @ [bs ! m] @ (replicate z' 0 @ [bs ! m]) @ drop (m + 1) bs"
    using assms(2) by (simp add: list_update_append)
  then show ?thesis using assms(2) unfolding z t d r by (simp add: nth_append list_update_append replicate_append_same)
qed

lemma shift_tail_eq:
  assumes "c \<le> length bs" and "length bs < 16"
  shows "shift_tail (bs @ replicate (16 - length bs) 0) c (length bs - c) = take c bs @ replicate (16 - length bs) 0 @ drop c bs"
proof -
  let ?z = "16 - length bs"
  have "fold (\<lambda>i tmp. tmp[16 - i := tmp ! (c + (length bs - c) - i), c + (length bs - c) - i := 0]) [1..<k + 1] (bs @ replicate ?z 0) =
    take (length bs - k) bs @ replicate ?z 0 @ drop (length bs - k) bs" if "k \<le> length bs - c" for k
    using that
  proof (induction k)
    case (Suc k)
    let ?m = "length bs - Suc k"
    have "?m < length bs" "?m + 1 = length bs - k" "16 - Suc k = ?m + ?z" "?z \<noteq> 0" using Suc.prems assms by auto
    then show ?case using shift_step [of ?z ?m bs] Suc assms(1) by simp
  qed simp
  from this [of "length bs - c"] show ?thesis using assms(1) by (simp add: shift_tail_def)
qed

lemma pton6_finish_full: "length bs = 16 \<Longrightarrow> pton6_finish (between bs None) = Some bs"
  by (simp add: pton6_finish_def between_def)

lemma pton6_finish_run:
  "\<lbrakk>c \<le> length bs; length bs < 16\<rbrakk> \<Longrightarrow>
    pton6_finish (between bs (Some c)) = Some (take c bs @ replicate (16 - length bs) 0 @ drop c bs)"
  by (simp add: pton6_finish_def between_def shift_tail_eq)

subsection \<open>Reading what was printed\<close>

lemma inet_pton6_plain:
  "\<lbrakk>s \<noteq> []; hd s \<noteq> 58\<rbrakk> \<Longrightarrow> inet_pton6 s = Option.bind (pton6_loop s (between [] None) s) pton6_finish"
  by (cases s) (simp_all add: inet_pton6_def between_def)

lemma inet_pton6_colons: "inet_pton6 (58 # 58 # s) = Option.bind (pton6_loop s (between [] (Some 0)) s) pton6_finish"
  using pton6_double_colon [of "58 # s" "[]" s] by (simp add: inet_pton6_def between_def del: pton6_loop.simps)

abbreviation words_bytes :: "u32 list \<Rightarrow> u8 list" where
  "words_bytes ws \<equiv> concat (map word_bytes ws)"

lemma length_words_bytes [simp]: "length (words_bytes ws) = 2 * length ws"
  by (induction ws) (simp_all add: word_bytes_def)

lemma words_bytes_zero: "words_bytes (replicate n 0) = replicate (2 * n) 0"
  by (induction n) (simp_all add: word_bytes_def)

lemma zeros_decompose: "zeros ws b n \<Longrightarrow> ws = take b ws @ replicate n 0 @ drop (b + n) ws"
proof -
  assume z: "zeros ws b n"
  then have "take n (drop b ws) = replicate n 0" by (intro nth_equalityI) (auto simp: zeros_def)
  then show ?thesis by (metis add.commute append_take_drop_id drop_drop)
qed

lemma hd_hex_groups: "ws \<noteq> [] \<Longrightarrow> hex_groups ws \<noteq> [] \<and> hd (hex_groups ws @ s) \<noteq> 58"
proof -
  assume "ws \<noteq> []"
  then obtain v vs where ws: "ws = v # vs" by (cases ws) auto
  have "hd (hexadecimal (unat v)) \<in> set (hexadecimal (unat v))" by simp
  then have "hd (hexadecimal (unat v)) \<noteq> 58" using hexadecimal_xdigit xdigit_small(3) by metis
  then show ?thesis unfolding ws by (simp add: hex_groups_Cons)
qed

lemma hex_groups_colon: "ws \<noteq> [] \<Longrightarrow> hex_groups ws @ [58] = groups_colon ws"
  by (cases ws rule: rev_exhaust) (simp_all add: hex_groups_def)

lemma pton6_run_text:
  assumes "\<And>w. w \<in> set xs \<union> set ys \<Longrightarrow> unat w < 65536" and "length xs + length ys < 8"
  shows "inet_pton6 (hex_groups xs @ [58, 58] @ hex_groups ys) =
    Some (words_bytes xs @ replicate (16 - 2 * length xs - 2 * length ys) 0 @ words_bytes ys)"
proof -
  have f: "Option.bind (pton6_loop s (between (words_bytes xs) (Some (2 * length xs))) (hex_groups ys)) pton6_finish =
    Some (words_bytes xs @ replicate (16 - 2 * length xs - 2 * length ys) 0 @ words_bytes ys)" for s
    using assms by (subst pton6_hex_groups) (auto simp: pton6_finish_run)
  show ?thesis
  proof (cases "xs = []")
    case True
    then show ?thesis using f by (simp add: inet_pton6_colons hex_groups_def [of "[]"])
  next
    case False
    let ?t = "hex_groups xs @ [58, 58] @ hex_groups ys"
    have t: "?t = groups_colon xs @ 58 # hex_groups ys" using hex_groups_colon [OF False] by (metis append.assoc append_Cons append_Nil)
    have "inet_pton6 ?t = Option.bind (pton6_loop ?t (between [] None) ?t) pton6_finish"
      using hd_hex_groups [OF False, of "[58, 58] @ hex_groups ys"] by (intro inet_pton6_plain) auto
    also have "pton6_loop ?t (between [] None) ?t = pton6_loop (58 # hex_groups ys) (between (words_bytes xs) None) (58 # hex_groups ys)"
      using pton6_groups_colon [of xs "[]" "58 # hex_groups ys" ?t None] assms False unfolding t by (simp del: pton6_loop.simps)
    finally show ?thesis using f by (simp add: pton6_double_colon del: pton6_loop.simps)
  qed
qed

lemma pton6_mapped_text:
  assumes "\<And>w. w \<in> set ys \<Longrightarrow> unat w < 65536" and "length ys \<le> 5" and "length as = 4"
  shows "inet_pton6 ([58, 58] @ groups_colon ys @ dotted as) = Some (replicate (12 - 2 * length ys) 0 @ words_bytes ys @ as)"
proof -
  let ?s = "groups_colon ys @ dotted as"
  have "dotted as \<noteq> []" by (simp add: dotted_def)
  then have "pton6_loop ?s (between [] (Some 0)) ?s = pton6_loop (dotted as) (between (words_bytes ys) (Some 0)) (dotted as)"
    using pton6_groups_colon [of ys "[]" "dotted as" ?s "Some 0"] assms by (cases "ys = []") auto
  then show ?thesis using assms by (simp add: inet_pton6_colons pton6_dotted pton6_finish_run)
qed

lemma pton6_text:
  assumes "length src = 16"
  shows "inet_pton6 (inet6_text src) = Some src"
proof -
  let ?ws = "inet6_words src"
  note ws = inet6_words_props [OF assms]
  have sub: "w \<in> set vs \<Longrightarrow> set vs \<subseteq> set ?ws \<Longrightarrow> unat w < 65536" for w vs using ws(3) by blast
  show ?thesis
  proof (cases rule: best_run_cases [of ?ws])
    case none
    have "inet_pton6 (hex_groups ?ws) = Option.bind (pton6_loop (hex_groups ?ws) (between [] None) (hex_groups ?ws)) pton6_finish"
    proof -
      have "?ws \<noteq> []" using ws(1) by auto
      from hd_hex_groups [OF this, of "[]"] show ?thesis by (intro inet_pton6_plain) auto
    qed
    also have "\<dots> = Some src" using ws assms by (subst pton6_hex_groups) (auto simp: pton6_finish_full)
    finally show ?thesis using none(1) by (simp add: inet6_text_def Let_def)
  next
    case (run b n)
    have bn: "b + n \<le> 8" using run(4) ws(1) by (simp add: zeros_def)
    have d: "?ws = take b ?ws @ replicate n 0 @ drop (b + n) ?ws" by (rule zeros_decompose [OF run(4)])
    have "src = words_bytes (take b ?ws @ replicate n 0 @ drop (b + n) ?ws)" using d ws(2) by simp
    then have src: "src = words_bytes (take b ?ws) @ replicate (2 * n) 0 @ words_bytes (drop (b + n) ?ws)"
      by (simp only: map_append concat_append words_bytes_zero)
    show ?thesis
    proof (cases "v4_mapped ?ws b n")
      case True
      then have b: "b = 0" "n = 5 \<or> n = 6" by (auto simp: v4_mapped_def)
      let ?ys = "take (6 - n) (drop n ?ws)"
      have "drop n ?ws = ?ys @ drop (6 - n) (drop n ?ws)" by (rule append_take_drop_id [symmetric])
      moreover have "drop (6 - n) (drop n ?ws) = drop 6 ?ws" using b(2) by auto
      ultimately have "drop n ?ws = ?ys @ drop 6 ?ws" by simp
      then have s: "src = replicate (2 * n) 0 @ words_bytes ?ys @ words_bytes (drop 6 ?ws)" 
        using src b(1) by simp (metis concat_append map_append)
      have y: "length ?ys = 6 - n" using b(2) ws(1) by auto
      have d12: "drop 12 src = words_bytes (drop 6 ?ws)" using b(2) y by (subst s) auto
      have "12 - 2 * length ?ys = 2 * n" using y b(2) by auto
      then have "replicate (12 - 2 * length ?ys) 0 @ words_bytes ?ys @ drop 12 src = src" using s d12 by metis
      moreover have "inet_pton6 ([58, 58] @ groups_colon ?ys @ dotted (drop 12 src)) =
          Some (replicate (12 - 2 * length ?ys) 0 @ words_bytes ?ys @ drop 12 src)"
        using y b(2) assms sub [of _ ?ys] by (intro pton6_mapped_text) (auto dest: in_set_takeD in_set_dropD)
      ultimately have "inet_pton6 ([58, 58] @ groups_colon ?ys @ dotted (drop 12 src)) = Some src" by metis
      then show ?thesis using True run(1,2) b(1) by (simp add: inet6_text_def Let_def)
    next
      case False
      have "16 - 2 * length (take b ?ws) - 2 * length (drop (b + n) ?ws) = 2 * n" using bn ws(1) by simp
      then have "words_bytes (take b ?ws) @ replicate (16 - 2 * length (take b ?ws) - 2 * length (drop (b + n) ?ws)) 0 @
          words_bytes (drop (b + n) ?ws) = src"
        using src by metis
      moreover have "inet_pton6 (hex_groups (take b ?ws) @ [58, 58] @ hex_groups (drop (b + n) ?ws)) =
          Some (words_bytes (take b ?ws) @ replicate (16 - 2 * length (take b ?ws) - 2 * length (drop (b + n) ?ws)) 0 @
            words_bytes (drop (b + n) ?ws))"
        using run(3) bn ws(1,3) by (intro pton6_run_text) (auto dest: in_set_takeD in_set_dropD)
      ultimately have "inet_pton6 (hex_groups (take b ?ws) @ [58, 58] @ hex_groups (drop (b + n) ?ws)) = Some src" by metis
      then show ?thesis using False run(1,2) by (simp add: inet6_text_def Let_def)
    qed
  qed
qed

section \<open>Properties\<close>

lemma strchr_append: "c \<notin> set xs \<Longrightarrow> strchr (xs @ c # ys) c = Some (length xs)"
  by (induction xs) auto

lemma strchr_None: "c \<notin> set xs \<Longrightarrow> strchr xs c = None"
  by (induction xs) auto

lemma takeWhile_terminated: "0 \<notin> set s \<Longrightarrow> takeWhile (\<lambda>c. c \<noteq> 0) (s @ 0 # r) = (s :: u8 list)"
  by (induction s) auto

lemma written_inside:
  assumes "length t < sz" and "sz \<le> length dst"
  shows "length (t @ 0 # drop (length t + 1) dst) = length dst \<and> drop sz (t @ 0 # drop (length t + 1) dst) = drop sz dst \<and>
    (0 :: u8) \<in> set (take sz (t @ 0 # drop (length t + 1) dst))"
proof -
  obtain k where k: "sz = length t + Suc k" using assms(1) less_imp_add_positive by (metis gr0_implies_Suc)
  then show ?thesis using assms(2) by (simp add: add.commute)
qed

text \<open>C9: printing an IPv6 address with \<^verbatim>\<open>uv_inet_ntop\<close> into a buffer of at least 40 bytes succeeds and leaves a terminated string there, and
  \<^verbatim>\<open>uv_inet_pton\<close> reads the same sixteen bytes back from it, also when a zone follows a percent sign. This goes through every form of the
  text: eight groups, a double colon at the front, in the middle or at the end, and an embedded IPv4 address.\<close>

theorem inet6_roundtrip:
  assumes "length src = 16" and "sz \<le> length dst" and "40 \<le> sz"
  shows "\<exists>text rest. uv_inet_ntop AF_INET6 src dst sz = (text @ 0 # rest, 0) \<and> 0 \<notin> set text \<and>
    uv_inet_pton AF_INET6 (Some text) False = Inr src \<and>
    uv_inet_pton AF_INET6 (Some (text @ 37 # zone)) False = Inr src"
proof (intro exI conjI)
  let ?t = "inet6_text src"
  show "uv_inet_ntop AF_INET6 src dst sz = (?t @ 0 # drop (length ?t + 1) dst, 0)"
    using inet_ntop6_eq [OF assms(1,2)] inet6_text_length [OF assms(1)] assms(3)
    by (simp add: uv_inet_ntop_def AF_INET_def AF_INET6_def)
  show "0 \<notin> set ?t" by (rule inet6_text_bounds(2))
  show "uv_inet_pton AF_INET6 (Some ?t) False = Inr src"
    using pton6_text [OF assms(1)] strchr_None [OF inet6_text_bounds(3) [of src]]
    by (simp add: uv_inet_pton_def AF_INET_def AF_INET6_def)
  show "uv_inet_pton AF_INET6 (Some (?t @ 37 # zone)) False = Inr src"
    using pton6_text [OF assms(1)] strchr_append [OF inet6_text_bounds(3) [of src], of zone] inet6_text_length [OF assms(1)]
    by (simp add: uv_inet_pton_def AF_INET_def AF_INET6_def UV__INET6_ADDRSTRLEN_def)
qed

theorem inet6_roundtrip_witness:
  "\<exists>text rest. uv_inet_ntop AF_INET6 [0xfe, 0x80, 0, 0, 0, 0, 0, 0, 0, 0, 0, 0, 0, 0, 0, 1] (replicate 46 0) 46 = (text @ 0 # rest, 0) \<and>
    0 \<notin> set text \<and>
    uv_inet_pton AF_INET6 (Some text) False = Inr [0xfe, 0x80, 0, 0, 0, 0, 0, 0, 0, 0, 0, 0, 0, 0, 0, 1] \<and>
    uv_inet_pton AF_INET6 (Some (text @ 37 # [101, 110, 48])) False = Inr [0xfe, 0x80, 0, 0, 0, 0, 0, 0, 0, 0, 0, 0, 0, 0, 0, 1]"
  by (rule inet6_roundtrip) simp_all

text \<open>C10: \<^verbatim>\<open>uv_inet_pton\<close> for IPv4 accepts exactly the four-octet decimal notation that \<^verbatim>\<open>uv_inet_ntop\<close> prints (no leading zeros, no octet
  above 255, no fifth octet, nothing before or after) and returns its octets; every other string is \<^verbatim>\<open>UV_EINVAL\<close>.\<close>

theorem pton4_exact:
  "(uv_inet_pton AF_INET (Some s) False = Inr bs \<longleftrightarrow> length bs = 4 \<and> s = dotted bs) \<and>
   (uv_inet_pton AF_INET (Some s) False = Inl e \<longleftrightarrow> e = UV_EINVAL \<and> \<not> (\<exists>as. length as = 4 \<and> s = dotted as))"
proof -
  have b: "bs = [bs ! 0, bs ! 1, bs ! 2, bs ! 3]" if "length bs = 4" for bs :: "u8 list"
    using that by (auto simp: length_Suc_conv numeral_eq_Suc)
  have p: "inet_pton4 s = Some bs \<longleftrightarrow> length bs = 4 \<and> s = dotted bs" for bs
    using pton4_sound [of s bs] pton4_dotted [of "bs ! 0" "bs ! 1" "bs ! 2" "bs ! 3"] b [of bs] by auto
  have "inet_pton4 s = None \<longleftrightarrow> \<not> (\<exists>as. length as = 4 \<and> s = dotted as)" unfolding p [symmetric] by auto
  then show ?thesis using p [of bs] by (cases "inet_pton4 s") (auto simp: uv_inet_pton_def)
qed

text \<open>\<^verbatim>\<open>uv_inet_ntop\<close> never writes at or after \<^verbatim>\<open>size\<close>, terminates the string when it reports success for a buffer that is not empty, fails
  only for want of space or for an unknown family, and never for want of space when there are 16 bytes for IPv4 or 40 for IPv6.\<close>

lemma inet_ntop_bounded:
  assumes "sz \<le> length dst" and "af = AF_INET6 \<Longrightarrow> length src = 16"
  shows "\<exists>d r. uv_inet_ntop af src dst sz = (d, r) \<and> length d = length dst \<and> drop sz d = drop sz dst \<and>
    r \<in> {0, UV_ENOSPC, UV_EAFNOSUPPORT} \<and> (r = UV_EAFNOSUPPORT \<longleftrightarrow> af \<noteq> AF_INET \<and> af \<noteq> AF_INET6) \<and>
    (r = 0 \<and> 0 < sz \<longrightarrow> 0 \<in> set (take sz d)) \<and>
    (r = UV_ENOSPC \<longrightarrow> sz < (if af = AF_INET then UV__INET_ADDRSTRLEN else 40))"
proof -
  have e: "UV_ENOSPC = - 28" "UV_EAFNOSUPPORT = - 47" by (simp_all add: UV_ENOSPC_def UV_EAFNOSUPPORT_def)
  consider "af = AF_INET" | "af = AF_INET6" "af \<noteq> AF_INET" | "af \<noteq> AF_INET" "af \<noteq> AF_INET6" by blast
  then show ?thesis
  proof cases
    case 1
    then show ?thesis
      using inet_ntop4_eq [OF assms(1), of src] dotted_bounds(2) [of src] written_inside [of "dotted src", OF _ assms(1)] assms(1) e
      by (cases "length (dotted src) < sz") (simp_all add: uv_inet_ntop_def UV__INET_ADDRSTRLEN_def)
  next
    case 2
    then show ?thesis
      using inet_ntop6_eq [OF assms(2) assms(1)] inet6_text_length [OF assms(2)] written_inside [of "inet6_text src", OF _ assms(1)] assms(1) e
      by (cases "sz = 0"; cases "length (inet6_text src) < sz") (simp_all add: uv_inet_ntop_def)
  next
    case 3
    then show ?thesis using e by (auto simp: uv_inet_ntop_def)
  qed
qed

text \<open>the run of words that \<^verbatim>\<open>inet_ntop6\<close> writes as a double colon is a longest run of at least two zero words, the first of them if there are
  several; there is none exactly when no two neighbouring words are zero.\<close>

lemma best_run_longest:
  "if zr_base (best_run ws) = - 1 then \<forall>p l. zeros ws p l \<longrightarrow> l < 2
   else \<exists>b n. best_run ws = \<lparr>zr_base = int b, zr_len = int n\<rparr> \<and> 2 \<le> n \<and> zeros ws b n \<and>
     (\<forall>p l. zeros ws p l \<longrightarrow> l < n \<or> l = n \<and> b \<le> p)"
proof (cases rule: best_run_cases [of ws])
  case (run b n)
  moreover from this have "best_run ws = \<lparr>zr_base = int b, zr_len = int n\<rparr>" by (cases "best_run ws") simp
  ultimately show ?thesis by auto
qed simp

text \<open>C34: with a buffer of size zero \<^verbatim>\<open>uv_inet_ntop\<close> reports \<^verbatim>\<open>UV_ENOSPC\<close> for IPv4 but success for IPv6, because \<^verbatim>\<open>uv__strscpy\<close>
  returns 0 for size zero.\<close>

theorem ntop_size_zero:
  "length src = 16 \<Longrightarrow> uv_inet_ntop AF_INET6 src dst 0 = (dst, 0) \<and> uv_inet_ntop AF_INET src dst 0 = (dst, UV_ENOSPC)"
  using inet_ntop6_eq [of src 0 dst] inet_ntop4_eq [of 0 dst src] by (simp add: uv_inet_ntop_def AF_INET_def AF_INET6_def)

theorem ntop_size_zero_witness:
  "uv_inet_ntop AF_INET6 (replicate 16 0) [65] 0 = ([65], 0) \<and> uv_inet_ntop AF_INET (replicate 16 0) [65] 0 = ([65], UV_ENOSPC)"
  by (rule ntop_size_zero) simp

end
