(* ===== verification/Uv_Idna.thy ===== *)
theory Uv_Idna
  imports Unicode Uv_Inet
begin

text \<open>
  Host names: \<^verbatim>\<open>Libuv-gRPC/src/idna.c\<close>, the decoder of UTF-8 and the conversion of a host name to its ASCII
  form, and the part of \<^verbatim>\<open>uv_getaddrinfo\<close> (\<^verbatim>\<open>src/unix/getaddrinfo.c\<close>) that prepares a request with it. The
  labels that are written are proved to be what RFC 3492 decodes to the code points of the name.
\<close>

section \<open>Model\<close>

subsection \<open>Code points\<close>

text \<open>The bytes that the conversion reads are those of the address space; a pointer is its address.\<close>

type_synonym memory = "nat \<Rightarrow> u8"

text \<open>The \<^verbatim>\<open>switch\<close> on the distance of the cursor from the end: the lower bound, the four parts of the code
  point and the cursor behind the bytes that were read.\<close>

definition utf8_parts :: "memory \<Rightarrow> nat \<Rightarrow> nat \<Rightarrow> u32 \<Rightarrow> (u32 \<times> u32 \<times> u32 \<times> u32 \<times> u32 \<times> nat) option" where
  "utf8_parts mem p pe a =
     (if int p - int pe \<noteq> 2 \<and> int p - int pe \<noteq> 1 \<and> 0xEF < a
      then Some (0x10000, a AND 7, ucast (mem p), ucast (mem (p + 1)), ucast (mem (p + 2)), p + 3)
      else if int p - int pe \<noteq> 1 \<and> 0xDF < a
      then Some (0x800, 0, 0x80 OR (a AND 15), ucast (mem p), ucast (mem (p + 1)), p + 2)
      else if 0xBF < a then Some (0x80, 0, 0x80, 0x80 OR (a AND 31), ucast (mem p), p + 1)
      else None)"

definition uv__utf8_decode1_slow :: "memory \<Rightarrow> nat \<Rightarrow> nat \<Rightarrow> u32 \<Rightarrow> u32 \<times> nat" where
  "uv__utf8_decode1_slow mem p pe a =
     (if 0xF7 < a then (- 1, p)
      else
      (case utf8_parts mem p pe a of
         None \<Rightarrow> (- 1, p)
       | Some (lo, a, b, c, d, p') \<Rightarrow>
           if 0xC0 AND (b XOR c XOR d) \<noteq> 0x80 then (- 1, p')
           else
           (let v = push_bit 18 a OR push_bit 12 (b AND 63) OR push_bit 6 (c AND 63) OR (d AND 63)
            in if v < lo then (- 1, p') else if 0x10FFFF < v then (- 1, p')
               else if 0xD800 \<le> v \<and> v \<le> 0xDFFF then (- 1, p') else (v, p'))))"

definition uv__utf8_decode1 :: "memory \<Rightarrow> nat \<Rightarrow> nat \<Rightarrow> u32 \<times> nat" where
  "uv__utf8_decode1 mem p pe =
     (let a = ucast (mem p) in if a < 128 then (a, p + 1) else uv__utf8_decode1_slow mem (p + 1) pe a)"

lemma utf8_parts_advances: "utf8_parts mem p pe a = Some (lo, a', b, c, d, p') \<Longrightarrow> p < p'"
  by (auto simp: utf8_parts_def split: if_splits)

lemma decode1_slow_advances: "p \<le> snd (uv__utf8_decode1_slow mem p pe a)"
proof (cases "utf8_parts mem p pe a")
  case (Some r)
  then show ?thesis
    using utf8_parts_advances by (cases r) (fastforce simp: uv__utf8_decode1_slow_def Let_def)
qed (simp add: uv__utf8_decode1_slow_def)

lemma decode1_advances: "uv__utf8_decode1 mem p pe = (c, p') \<Longrightarrow> p < p'"
  using decode1_slow_advances [of "p + 1" mem pe "ucast (mem p)"]
  by (auto simp: uv__utf8_decode1_def Let_def split: if_splits)

text \<open>The values that the macro \<^verbatim>\<open>foreach_codepoint\<close> hands to its body, in order.\<close>

function foreach_codepoint :: "memory \<Rightarrow> nat \<Rightarrow> nat \<Rightarrow> u32 list" where
  "foreach_codepoint mem p pe =
     (if p \<le> pe
      then (case uv__utf8_decode1 mem p pe of (c, p') \<Rightarrow> if p' \<le> pe then c # foreach_codepoint mem p' pe else [])
      else [])"
  by pat_completeness auto
termination
  by (relation "measure (\<lambda>(_, p, pe). Suc pe - p)") (auto dest!: decode1_advances [OF sym])

declare foreach_codepoint.simps [simp del]

subsection \<open>Punycode\<close>

definition alphabet :: "u8 list" where
  "alphabet = map (\<lambda>i. of_nat (97 + i)) [0..<26] @ digits"

text \<open>\<^verbatim>\<open>if (*d < de) *(*d)++ = c\<close>, on the bytes written from \<^verbatim>\<open>ds\<close> on; \<open>de\<close> is the room behind \<^verbatim>\<open>ds\<close>.\<close>

definition put :: "nat \<Rightarrow> u8 \<Rightarrow> u8 list \<Rightarrow> u8 list" where
  "put de c out = (if length out < de then out @ [c] else out)"

text \<open>The first loop: the numbers of ASCII and of other code points.\<close>

fun count_codepoints :: "u32 list \<Rightarrow> u32 \<Rightarrow> u32 \<Rightarrow> int + u32 \<times> u32" where
  "count_codepoints [] h todo = Inr (h, todo)"
| "count_codepoints (c # cs) h todo =
     (if c < 128 then count_codepoints cs (h + 1) todo
      else if c = - 1 then Inl UV_EINVAL
      else count_codepoints cs h (todo + 1))"

fun copy_ascii :: "nat \<Rightarrow> u32 \<Rightarrow> u32 list \<Rightarrow> u32 \<Rightarrow> u8 list \<Rightarrow> u8 list" where
  "copy_ascii de h [] x out = out"
| "copy_ascii de h (c # cs) x out =
     (if 127 < c then copy_ascii de h cs x out
      else if x + 1 = h then put de (ucast c) out
      else copy_ascii de h cs (x + 1) (put de (ucast c) out))"

fun next_codepoint :: "u32 \<Rightarrow> u32 list \<Rightarrow> u32 \<Rightarrow> u32" where
  "next_codepoint n [] m = m"
| "next_codepoint n (c # cs) m = next_codepoint n cs (if n \<le> c \<and> c < m then c else m)"

definition threshold :: "u32 \<Rightarrow> u32 \<Rightarrow> u32" where
  "threshold k bias = (let t = (if bias < k then k - bias else 1) in if 26 < t then 26 else t)"

lemma threshold_range: "1 \<le> threshold k bias" "threshold k bias \<le> 26"
proof -
  have "bias < k \<Longrightarrow> 1 \<le> k - bias"
    by (metis word_less_1 linorder_not_less right_minus_eq order_less_irrefl)
  then show "1 \<le> threshold k bias" by (simp add: threshold_def Let_def)
qed (auto simp: threshold_def Let_def)

lemma unat_threshold: "1 \<le> unat (threshold k bias)" "unat (threshold k bias) \<le> 26"
  using threshold_range [of k bias] by (simp_all add: word_le_nat_alt)

text \<open>A digit leaves a quotient that is smaller than the number.\<close>

lemma unat_digit:
  assumes "threshold k bias \<le> q"
  shows "unat ((q - threshold k bias) div (36 - threshold k bias)) =
           (unat q - unat (threshold k bias)) div (36 - unat (threshold k bias))"
    and "unat (threshold k bias + (q - threshold k bias) mod (36 - threshold k bias)) =
           unat (threshold k bias) + (unat q - unat (threshold k bias)) mod (36 - unat (threshold k bias))"
proof -
  let ?t = "threshold k bias"
  have x: "unat (q - ?t) = unat q - unat ?t"
    using assms by (rule unat_sub)
  have "?t \<le> 36" using unat_threshold [of k bias] by (simp add: word_le_nat_alt)
  then have y: "unat (36 - ?t) = 36 - unat ?t"
    by (simp add: unat_sub)
  show "unat ((q - ?t) div (36 - ?t)) = (unat q - unat ?t) div (36 - unat ?t)"
    by (simp add: unat_div x y)
  have m: "unat ((q - ?t) mod (36 - ?t)) = (unat q - unat ?t) mod (36 - unat ?t)"
    by (simp add: unat_mod x y)
  have "(unat q - unat ?t) mod (36 - unat ?t) < 36 - unat ?t"
    using unat_threshold [of k bias] by simp
  then have "unat ?t + (unat q - unat ?t) mod (36 - unat ?t) < 2 ^ 32" by simp
  then show "unat (?t + (q - ?t) mod (36 - ?t)) = unat ?t + (unat q - unat ?t) mod (36 - unat ?t)"
    by (simp add: unat_word_ariths(1) m)
qed

function put_delta :: "nat \<Rightarrow> u32 \<Rightarrow> u32 \<Rightarrow> u32 \<Rightarrow> u8 list \<Rightarrow> u8 list" where
  "put_delta de bias k q out =
     (let t = threshold k bias
      in if q < t then put de (alphabet ! unat q) out
         else
         (let x = q - t; y = 36 - t
          in put_delta de bias (k + 36) (x div y) (put de (alphabet ! unat (t + x mod y)) out)))"
  by pat_completeness auto
termination
proof (relation "measure (\<lambda>(_, _, _, q, _). unat q)", simp)
  fix de bias k q out t x y
  assume t: "t = threshold k bias" "\<not> q < t" and xy: "x = q - t" "y = 36 - t"
  have "unat (x div y) = (unat q - unat t) div (36 - unat t)"
    using t unat_digit(1) [of k bias q] by (simp add: xy)
  also have "\<dots> \<le> unat q - unat t" by simp
  also have "\<dots> < unat q"
    using t unat_threshold [of k bias] by (simp add: word_le_nat_alt not_less)
  finally show "((de, bias, k + 36, x div y, put de (alphabet ! unat (t + x mod y)) out), (de, bias, k, q, out))
      \<in> measure (\<lambda>(_, _, _, q, _). unat q)" by simp
qed

declare put_delta.simps [simp del]

function scale_delta :: "u32 \<Rightarrow> u32 \<Rightarrow> u32 \<times> u32" where
  "scale_delta delta bias = (if 35 * 26 div 2 < delta then scale_delta (delta div 35) (bias + 36) else (delta, bias))"
  by pat_completeness auto
termination
  by (relation "measure (\<lambda>(delta, _). unat delta)") (simp_all add: unat_div word_less_nat_alt)

declare scale_delta.simps [simp del]

record idna_state =
  ids_h :: u32
  ids_bias :: u32
  ids_delta :: u32
  ids_todo :: u32
  ids_first :: bool
  ids_out :: "u8 list"

text \<open>The body of the inner loop for a code point that is equal to \<^verbatim>\<open>n\<close>.\<close>

definition encode_codepoint :: "nat \<Rightarrow> idna_state \<Rightarrow> idna_state" where
  "encode_codepoint de st =
     (let out = put_delta de (ids_bias st) 36 (ids_delta st) (ids_out st);
          halved = ids_delta st div 2;
          damped = (if ids_first st then halved div 350 else halved);
          h = ids_h st + 1;
          (delta, bias) = scale_delta (damped + damped div h) 0
      in \<lparr>ids_h = h, ids_bias = bias + 36 * delta div (delta + 38), ids_delta = 0, ids_todo = ids_todo st - 1,
          ids_first = False, ids_out = out\<rparr>)"

fun encode_pass :: "nat \<Rightarrow> u32 \<Rightarrow> u32 list \<Rightarrow> idna_state \<Rightarrow> (int \<times> u8 list) + idna_state" where
  "encode_pass de n [] st = Inr st"
| "encode_pass de n (c # cs) st =
     (if c < n then
        (if ids_delta st + 1 = 0 then Inl (UV_E2BIG, ids_out st)
         else encode_pass de n cs (st\<lparr>ids_delta := ids_delta st + 1\<rparr>))
      else if c \<noteq> n then encode_pass de n cs st
      else encode_pass de n cs (encode_codepoint de st))"

partial_function (option) encode_loop ::
  "memory \<Rightarrow> nat \<Rightarrow> nat \<Rightarrow> nat \<Rightarrow> u32 \<Rightarrow> idna_state \<Rightarrow> (int \<times> u8 list) option" where
  "encode_loop mem ss se de n st =
     (if 0 < ids_todo st
      then
        (let m = next_codepoint n (foreach_codepoint mem ss se) (- 1); x = m - n; y = ids_h st + 1
         in if NOT (ids_delta st) div y < x then Some (UV_E2BIG, ids_out st)
            else
            (case encode_pass de m (foreach_codepoint mem ss se) (st\<lparr>ids_delta := ids_delta st + x * y\<rparr>) of
               Inl r \<Rightarrow> Some r
             | Inr st' \<Rightarrow> encode_loop mem ss se de (m + 1) (st'\<lparr>ids_delta := ids_delta st' + 1\<rparr>)))
      else Some (0, ids_out st))"

declare encode_loop.simps [code]

definition uv__idna_toascii_label :: "memory \<Rightarrow> nat \<Rightarrow> nat \<Rightarrow> nat \<Rightarrow> u8 list \<Rightarrow> (int \<times> u8 list) option" where
  "uv__idna_toascii_label mem s se de out =
     (case count_codepoints (foreach_codepoint mem s se) 0 0 of
        Inl err \<Rightarrow> Some (err, out)
      | Inr (h, todo) \<Rightarrow>
          (let out = (if 0 < todo then put de 45 (put de 45 (put de 110 (put de 120 out))) else out);
               out = copy_ascii de h (foreach_codepoint mem s se) 0 out
           in if todo = 0 then Some (sint h, out)
              else
              (let out = (if 0 < h then put de 45 out else out)
               in encode_loop mem s se de 128
                    \<lparr>ids_h = h, ids_bias = 72, ids_delta = 0, ids_todo = todo, ids_first = True, ids_out = out\<rparr>)))"

subsection \<open>Host names\<close>

definition label_separator :: "u32 \<Rightarrow> bool" where
  "label_separator c \<longleftrightarrow> c = 46 \<or> c = 0x3002 \<or> c = 0xFF0E \<or> c = 0xFF61"

text \<open>The loop over the labels; on the way out the start of the last label and the bytes written.\<close>

function toascii_labels ::
  "memory \<Rightarrow> nat \<Rightarrow> nat \<Rightarrow> nat \<Rightarrow> nat \<Rightarrow> u8 list \<Rightarrow> ((int \<times> u8 list) + (nat \<times> u8 list)) option" where
  "toascii_labels mem s si se de out =
     (if si < se
      then
        (case uv__utf8_decode1 mem si se of
           (c, si') \<Rightarrow>
             if \<not> label_separator c then toascii_labels mem s si' se de out
             else
             (case uv__idna_toascii_label mem s si de out of
                None \<Rightarrow> None
              | Some (rc, out') \<Rightarrow>
                  if rc < 0 then Some (Inl (rc, out')) else toascii_labels mem si' si' se de (put de 46 out')))
      else Some (Inr (s, out)))"
  by pat_completeness auto
termination
  by (relation "measure (\<lambda>(_, _, si, se, _). se - si)") (auto dest!: decode1_advances [OF sym])

declare toascii_labels.simps [simp del]

definition uv__idna_toascii :: "memory \<Rightarrow> nat \<Rightarrow> nat \<Rightarrow> nat \<Rightarrow> (int \<times> u8 list) option" where
  "uv__idna_toascii mem s se de =
     (case toascii_labels mem s s se de [] of
        None \<Rightarrow> None
      | Some (Inl r) \<Rightarrow> Some r
      | Some (Inr (s', out)) \<Rightarrow>
          (case (if s' < se then uv__idna_toascii_label mem s' se de out else Some (0, out)) of
             None \<Rightarrow> None
           | Some (rc, out') \<Rightarrow>
               if rc < 0 then Some (rc, out')
               else let out'' = put de 0 out' in Some (int (length out''), out'')))"

subsection \<open>Requests\<close>

text \<open>\<^verbatim>\<open>strlen\<close> of the string at an address; without a terminator the loop does not end.\<close>

partial_function (option) c_strlen :: "memory \<Rightarrow> nat \<Rightarrow> nat \<Rightarrow> nat option" where
  "c_strlen mem p n = (if mem (p + n) = 0 then Some n else c_strlen mem p (n + 1))"

definition UV_ENOMEM :: int where
  "UV_ENOMEM = - 12"

text \<open>The array \<^verbatim>\<open>hostname_ascii\<close> after the conversion; \<open>stack\<close> is what the memory from the array on held before.\<close>

definition overwritten :: "u8 list \<Rightarrow> memory \<Rightarrow> memory" where
  "overwritten out stack = (\<lambda>i. if i < length out then out ! i else stack i)"

definition ascii_hostname :: "memory \<Rightarrow> memory \<Rightarrow> nat option \<Rightarrow> (int + memory option) option" where
  "ascii_hostname mem stack hostname =
     (case hostname of
        None \<Rightarrow> Some (Inr None)
      | Some p \<Rightarrow>
          (case c_strlen mem p 0 of
             None \<Rightarrow> None
           | Some n \<Rightarrow>
               (case uv__idna_toascii mem p (p + n) 256 of
                  None \<Rightarrow> None
                | Some (rc, out) \<Rightarrow> if rc < 0 then Some (Inl rc) else Some (Inr (Some (overwritten out stack))))))"

text \<open>\<^verbatim>\<open>s ? strlen(s) + 1 : 0\<close>, with the bytes that \<^verbatim>\<open>memcpy\<close> copies.\<close>

definition string_copy :: "memory \<Rightarrow> nat option \<Rightarrow> u8 list option" where
  "string_copy mem s =
     (case s of
        None \<Rightarrow> Some []
      | Some p \<Rightarrow> map_option (\<lambda>n. map (\<lambda>i. mem (p + i)) [0..<n + 1]) (c_strlen mem p 0))"

text \<open>The block of a request and the offsets of its parts.\<close>

record gai_request =
  gai_buf :: "u8 list"
  gai_hints :: "nat option"
  gai_service :: "nat option"
  gai_hostname :: "nat option"
  gai_retcode :: int

definition uv_getaddrinfo ::
  "(nat \<Rightarrow> bool) \<Rightarrow> memory \<Rightarrow> memory \<Rightarrow> bool \<Rightarrow> nat option \<Rightarrow> nat option \<Rightarrow> u8 list option \<Rightarrow> (int + gai_request) option" where
  "uv_getaddrinfo uv__malloc mem stack req hostname service hints =
     (if \<not> req \<or> hostname = None \<and> service = None then Some (Inl UV_EINVAL)
      else
      (case ascii_hostname mem stack hostname of
         None \<Rightarrow> None
       | Some (Inl rc) \<Rightarrow> Some (Inl rc)
       | Some (Inr host) \<Rightarrow>
           (case (case host of None \<Rightarrow> Some [] | Some m \<Rightarrow> string_copy m (Some 0)) of
              None \<Rightarrow> None
            | Some host_bytes \<Rightarrow>
                (case string_copy mem service of
                   None \<Rightarrow> None
                 | Some service_bytes \<Rightarrow>
                     (let hints_bytes = (case hints of None \<Rightarrow> [] | Some h \<Rightarrow> h)
                      in if \<not> uv__malloc (length host_bytes + length service_bytes + length hints_bytes) then Some (Inl UV_ENOMEM)
                         else Some (Inr
                           \<lparr>gai_buf = hints_bytes @ service_bytes @ host_bytes,
                            gai_hints = (if hints = None then None else Some 0),
                            gai_service = (if service = None then None else Some (length hints_bytes)),
                            gai_hostname = (if host = None then None else Some (length hints_bytes + length service_bytes)),
                            gai_retcode = 0\<rparr>))))))"

section \<open>The decoder\<close>

definition scalar_value :: "nat \<Rightarrow> bool" where
  "scalar_value n \<longleftrightarrow> n \<le> 0x10FFFF \<and> \<not> (0xD800 \<le> n \<and> n \<le> 0xDFFF)"

text \<open>The bytes at an address.\<close>

definition holds :: "memory \<Rightarrow> nat \<Rightarrow> u8 list \<Rightarrow> bool" where
  "holds mem p bs \<longleftrightarrow> (\<forall>i<length bs. mem (p + i) = bs ! i)"

lemma holds_Nil [simp]: "holds mem p []"
  by (simp add: holds_def)

lemma holds_Cons [simp]: "holds mem p (b # bs) \<longleftrightarrow> mem p = b \<and> holds mem (Suc p) bs"
  by (auto simp: holds_def less_Suc_eq_0_disj)

lemma holds_append [simp]: "holds mem p (xs @ ys) \<longleftrightarrow> holds mem p xs \<and> holds mem (p + length xs) ys"
  by (induction xs arbitrary: p) auto

lemma scalar_less: "scalar_value n \<Longrightarrow> n < 0x110000"
  by (simp add: scalar_value_def)

text \<open>The value that the decoder puts together.\<close>

lemma unat_low_bits:
  "unat (w AND 63) = unat (w::u32) mod 64" "unat (w AND 31) = unat w mod 32"
  "unat (w AND 15) = unat w mod 16" "unat (w AND 7) = unat w mod 8"
  using unat_and_mask [of w 6] unat_and_mask [of w 5] unat_and_mask [of w 4] unat_and_mask [of w 3]
  by (simp_all add: mask_eq_exp_minus_1)

lemma unat_assemble:
  fixes a b c d :: u32
  assumes "unat a < 8" "unat b < 64" "unat c < 64" "unat d < 64"
  shows "unat (push_bit 18 a OR push_bit 12 b OR push_bit 6 c OR d) = ((unat a * 64 + unat b) * 64 + unat c) * 64 + unat d"
proof -
  have 1: "unat (push_bit 6 c OR d) = unat c * 64 + unat d"
    using assms unat_shift_or [of d 6 c] by simp
  moreover have 2: "unat (push_bit 12 b OR push_bit 6 c OR d) = unat b * 4096 + unat (push_bit 6 c OR d)"
    using assms 1 unat_shift_or [of "push_bit 6 c OR d" 12 b] by simp
  moreover have "unat (push_bit 18 a OR push_bit 12 b OR push_bit 6 c OR d) =
      unat a * 262144 + unat (push_bit 12 b OR push_bit 6 c OR d)"
    using assms 1 2 unat_shift_or [of "push_bit 12 b OR push_bit 6 c OR d" 18 a] by simp
  ultimately show ?thesis by simp
qed

lemma top_two_bits: "0xC0 AND (ucast (c::u8) :: u32) = of_nat (unat c div 64 * 64)"
proof -
  have m: "(0xC0 :: u32) = push_bit 6 (mask 2)" by (simp add: mask_eq_exp_minus_1 push_bit_eq_mult)
  have "unat (ucast c AND (0xC0 :: u32)) = unat c div 64 * 64"
    using unat_and_push_mask [of "ucast c :: u32" 6 2] u8_le [of c] unfolding m by simp
  then have "ucast c AND (0xC0 :: u32) = of_nat (unat c div 64 * 64)" by (rule eq_of_nat)
  then show ?thesis by (simp add: and.commute)
qed

lemma continuation_test:
  fixes b c d :: u32
  assumes "0xC0 AND b = 0x80" "0xC0 AND c = 0x80" "0xC0 AND d = 0x80"
  shows "0xC0 AND (b XOR c XOR d) = 0x80"
proof -
  have "0xC0 AND (b XOR c XOR d) = (0xC0 AND b) XOR (0xC0 AND c) XOR (0xC0 AND d)"
    by (rule bit_word_eqI) (auto simp: bit_simps)
  then show ?thesis using assms by simp
qed

lemma and_or_and:
  "x AND (y OR (a AND z)) = (x AND y) OR (a AND (x AND z))" "(y OR (a AND z)) AND x = (y AND x) OR (a AND (z AND x))"
  for a x y z :: "'a::len word"
  by (rule bit_word_eqI; auto simp: bit_simps)+

lemma marked_byte: "0xC0 AND (0x80 OR (a AND 31)) = (0x80 :: u32)" "0xC0 AND (0x80 OR (a AND 15)) = (0x80 :: u32)"
  unfolding and_or_and by simp_all

lemma marked_low: "(0x80 OR (a AND 31)) AND 63 = (a::u32) AND 31" "(0x80 OR (a AND 15)) AND 63 = (a::u32) AND 15"
  unfolding and_or_and by simp_all

lemma decode1_slow_assemble:
  assumes parts: "utf8_parts mem p pe a = Some (lo, a', b, c, d, p')" and "\<not> 0xF7 < a" and mark: "0xC0 AND (b XOR c XOR d) = 0x80"
    and n: "n = ((unat a' * 64 + unat (b AND 63)) * 64 + unat (c AND 63)) * 64 + unat (d AND 63)"
    and "unat a' < 8" "unat lo \<le> n" "scalar_value n"
  shows "uv__utf8_decode1_slow mem p pe a = (of_nat n, p')"
proof -
  define v where "v = push_bit 18 a' OR push_bit 12 (b AND 63) OR push_bit 6 (c AND 63) OR (d AND 63)"
  have "unat v = n"
    unfolding v_def n using \<open>unat a' < 8\<close> by (rule unat_assemble) (simp_all add: unat_low_bits)
  then have "\<not> v < lo" "\<not> 0x10FFFF < v" "\<not> (0xD800 \<le> v \<and> v \<le> 0xDFFF)" "v = of_nat n"
    using assms(6,7) by (auto simp: word_less_nat_alt word_le_nat_alt scalar_value_def)
  then show ?thesis
    unfolding uv__utf8_decode1_slow_def parts option.case prod.case Let_def v_def [symmetric]
    using assms(2) mark by (simp only: if_False) simp
qed

lemmas decode1_slow_parts = decode1_slow_assemble [OF _ _ continuation_test]

text \<open>The lead byte and its continuation bytes, for each length.\<close>

lemma lead_word:
  fixes c :: u8
  shows "unat (ucast c AND (31::u32)) = unat c mod 32" "unat (ucast c AND (15::u32)) = unat c mod 16"
    "unat (ucast c AND (7::u32)) = unat c mod 8" "unat (ucast c AND (63::u32)) = unat c mod 64"
  by (simp_all add: unat_low_bits)

lemma continuation_mark: "unat (c::u8) = 128 + x \<Longrightarrow> x < 64 \<Longrightarrow> 0xC0 AND (ucast c :: u32) = 0x80"
  using div_mult_self4 [of 64 2 x] by (simp add: top_two_bits)

lemma decode1_2:
  assumes "unat (mem p) = 192 + x" "x < 32" "unat (mem (Suc p)) = 128 + y" "y < 64" "0x80 \<le> x * 64 + y" "p + 2 \<le> pe"
  shows "uv__utf8_decode1 mem p pe = (of_nat (x * 64 + y), p + 2)"
proof -
  let ?a = "ucast (mem p) :: u32"
  have a: "\<not> ?a < 128" "\<not> 0xDF < ?a" "\<not> 0xEF < ?a" "0xBF < ?a" "\<not> 0xF7 < ?a"
    using assms(1,2) by (simp_all add: word_less_nat_alt)
  then have "utf8_parts mem (p + 1) pe ?a = Some (0x80, 0, 0x80, 0x80 OR (?a AND 31), ucast (mem (Suc p)), p + 2)"
    by (simp add: utf8_parts_def)
  then have "uv__utf8_decode1_slow mem (p + 1) pe ?a = (of_nat (x * 64 + y), p + 2)"
    using a(5)
  proof (rule decode1_slow_parts [OF _ _ _ marked_byte(1) continuation_mark [OF assms(3,4)]])
    show "x * 64 + y = ((unat (0::u32) * 64 + unat ((0x80::u32) AND 63)) * 64 + unat ((0x80 OR (?a AND 31)) AND 63)) * 64 +
        unat ((ucast (mem (Suc p)) :: u32) AND 63)"
      unfolding marked_low lead_word using assms by (simp add: lead_mod)
  qed (use assms in \<open>simp_all add: scalar_value_def\<close>)
  then show ?thesis using a by (simp add: uv__utf8_decode1_def)
qed

lemma decode1_3:
  assumes "unat (mem p) = 224 + x" "x < 16" "unat (mem (p + 1)) = 128 + y" "y < 64" "unat (mem (p + 2)) = 128 + z" "z < 64"
    and "n = (x * 64 + y) * 64 + z" "0x800 \<le> n" "scalar_value n" "p + 3 \<le> pe"
  shows "uv__utf8_decode1 mem p pe = (of_nat n, p + 3)"
proof -
  let ?a = "ucast (mem p) :: u32"
  have a: "\<not> ?a < 128" "\<not> 0xEF < ?a" "0xDF < ?a" "\<not> 0xF7 < ?a"
    using assms(1,2) by (simp_all add: word_less_nat_alt)
  then have "utf8_parts mem (p + 1) pe ?a =
      Some (0x800, 0, 0x80 OR (?a AND 15), ucast (mem (p + 1)), ucast (mem (p + 2)), p + 3)"
    using assms(10) by (simp add: utf8_parts_def numeral_3_eq_3)
  then have "uv__utf8_decode1_slow mem (p + 1) pe ?a = (of_nat n, p + 3)"
    using a(4) marked_byte(2) continuation_mark [OF assms(3,4)] continuation_mark [OF assms(5,6)]
  proof (rule decode1_slow_parts)
    show "n = ((unat (0::u32) * 64 + unat ((0x80 OR (?a AND 15)) AND 63)) * 64 +
        unat ((ucast (mem (p + 1)) :: u32) AND 63)) * 64 + unat ((ucast (mem (p + 2)) :: u32) AND 63)"
      unfolding marked_low lead_word using assms(1-7) by (simp add: lead_mod)
  qed (use assms(8,9) in simp_all)
  then show ?thesis using a by (simp add: uv__utf8_decode1_def)
qed

lemma decode1_4:
  assumes "unat (mem p) = 240 + x" "x < 8" "unat (mem (p + 1)) = 128 + y" "y < 64" "unat (mem (p + 2)) = 128 + z" "z < 64"
    and "unat (mem (p + 3)) = 128 + w" "w < 64"
    and "n = ((x * 64 + y) * 64 + z) * 64 + w" "0x10000 \<le> n" "scalar_value n" "p + 4 \<le> pe"
  shows "uv__utf8_decode1 mem p pe = (of_nat n, p + 4)"
proof -
  let ?a = "ucast (mem p) :: u32"
  have a: "\<not> ?a < 128" "0xEF < ?a" "\<not> 0xF7 < ?a"
    using assms(1,2) by (simp_all add: word_less_nat_alt)
  then have "utf8_parts mem (p + 1) pe ?a =
      Some (0x10000, ?a AND 7, ucast (mem (p + 1)), ucast (mem (p + 2)), ucast (mem (p + 3)), p + 4)"
    using assms(12) by (simp add: utf8_parts_def numeral_3_eq_3)
  then have "uv__utf8_decode1_slow mem (p + 1) pe ?a = (of_nat n, p + 4)"
    using a(3) continuation_mark [OF assms(3,4)] continuation_mark [OF assms(5,6)] continuation_mark [OF assms(7,8)]
  proof (rule decode1_slow_parts)
    show "n = ((unat (?a AND 7) * 64 + unat ((ucast (mem (p + 1)) :: u32) AND 63)) * 64 +
        unat ((ucast (mem (p + 2)) :: u32) AND 63)) * 64 + unat ((ucast (mem (p + 3)) :: u32) AND 63)"
      unfolding lead_word using assms(1-9) by (simp add: lead_mod)
  qed (use assms(10,11) in \<open>simp_all add: unat_low_bits\<close>)
  then show ?thesis using a by (simp add: uv__utf8_decode1_def)
qed

text \<open>The UTF-8 form of a scalar value in front of the end is decoded to it.\<close>

lemma decode1_utf8:
  assumes "scalar_value n" "holds mem p (utf8 n)" "p + length (utf8 n) \<le> pe"
  shows "uv__utf8_decode1 mem p pe = (of_nat n, p + length (utf8 n))"
proof -
  have n: "n < 0x110000" using assms(1) by (rule scalar_less)
  have o: "unat (of_nat k :: u8) = k" if "k < 256" for k using that by (rule unat_of_nat_u8)
  consider "n < 0x80" | "0x80 \<le> n" "n < 0x800" | "0x800 \<le> n" "n < 0x10000" | "0x10000 \<le> n" by linarith
  then show ?thesis
  proof cases
    case 1
    then have "mem p = of_nat n" "length (utf8 n) = 1" using assms(2) by (simp_all add: utf8_def)
    moreover have "unat (of_nat n :: u8) = n" using 1 by (simp add: o)
    ultimately show ?thesis using 1
      by (simp add: uv__utf8_decode1_def word_less_nat_alt eq_of_nat)
  next
    case 2
    then show ?thesis
      using assms decode1_2 [of mem p "n div 64" "n mod 64" pe] o [of "192 + n div 64"] o [of "128 + n mod 64"]
      by (simp add: utf8_def div_less_iff_less_mult del: of_nat_add)
  next
    case 3
    then show ?thesis
      using assms decode1_3 [OF _ _ _ _ _ _ utf8_digits(1) [of n, symmetric], of mem p pe] o [of "224 + n div 4096"]
        o [of "128 + n div 64 mod 64"] o [of "128 + n mod 64"]
      by (simp add: utf8_def div_less_iff_less_mult del: of_nat_add)
  next
    case 4
    then show ?thesis
      using assms n decode1_4 [OF _ _ _ _ _ _ _ _ utf8_digits(2) [of n, symmetric], of mem p pe] o [of "240 + n div 262144"]
        o [of "128 + n div 4096 mod 64"] o [of "128 + n div 64 mod 64"] o [of "128 + n mod 64"]
      by (simp add: utf8_def div_less_iff_less_mult numeral_3_eq_3 del: of_nat_add)
  qed
qed

text \<open>Whatever the memory holds, the decoder returns a scalar value or the error and consumes one to four bytes.\<close>

lemma decode1_slow_value:
  "uv__utf8_decode1_slow mem p pe a = (c, p') \<Longrightarrow> (c = - 1 \<or> scalar_value (unat c)) \<and> p' \<le> p + 3"
  by (auto simp: uv__utf8_decode1_slow_def utf8_parts_def Let_def scalar_value_def word_less_nat_alt word_le_nat_alt
      split: if_splits)

lemma decode1_value:
  assumes "uv__utf8_decode1 mem p pe = (c, p')"
  shows "(c = - 1 \<or> scalar_value (unat c)) \<and> p < p' \<and> p' \<le> p + 4"
  using decode1_advances [OF assms] assms decode1_slow_value [of mem "p + 1" pe "ucast (mem p)" c p']
  by (auto simp: uv__utf8_decode1_def Let_def scalar_value_def word_less_nat_alt split: if_splits)

section \<open>The code points of a text\<close>

definition text_bytes :: "nat list \<Rightarrow> u8 list" where
  "text_bytes ns = concat (map utf8 ns)"

lemma text_bytes_simps [simp]: "text_bytes [] = []" "text_bytes (n # ns) = utf8 n @ text_bytes ns"
  "text_bytes (ms @ ns) = text_bytes ms @ text_bytes ns"
  by (simp_all add: text_bytes_def)

lemma foreach_codepoint_end [simp]: "foreach_codepoint mem p p = []"
  using decode1_advances [of mem p p] by (fastforce simp: foreach_codepoint.simps [of mem p p] split: prod.split)

lemma foreach_codepoint_text:
  assumes "list_all scalar_value ns" "holds mem p (text_bytes ns)"
  shows "foreach_codepoint mem p (p + length (text_bytes ns)) = map of_nat ns"
  using assms
proof (induction ns arbitrary: p)
  case (Cons n ns)
  then have "uv__utf8_decode1 mem p (p + length (text_bytes (n # ns))) = (of_nat n, p + length (utf8 n))"
    by (intro decode1_utf8) simp_all
  moreover have "foreach_codepoint mem (p + length (utf8 n)) (p + length (utf8 n) + length (text_bytes ns)) = map of_nat ns"
    using Cons.prems by (intro Cons.IH) simp_all
  ultimately show ?case
    by (simp add: foreach_codepoint.simps [of mem p] add.assoc)
qed simp

lemma foreach_codepoint_value: "c \<in> set (foreach_codepoint mem p pe) \<Longrightarrow> c = - 1 \<or> scalar_value (unat c)"
proof (induction mem p pe rule: foreach_codepoint.induct)
  case (1 mem p pe)
  obtain c' p' where d: "uv__utf8_decode1 mem p pe = (c', p')" by fastforce
  show ?case
  proof (cases "p \<le> pe \<and> p' \<le> pe")
    case True
    then have "c = c' \<or> c \<in> set (foreach_codepoint mem p' pe)"
      using 1(2) by (simp add: foreach_codepoint.simps [of mem p pe] d)
    then show ?thesis using True 1(1) [OF _ d [symmetric]] decode1_value [OF d] by blast
  next
    case False
    then have "foreach_codepoint mem p pe = []" by (simp add: foreach_codepoint.simps [of mem p pe] d)
    then show ?thesis using 1(2) by simp
  qed
qed

lemma foreach_codepoint_length: "length (foreach_codepoint mem p pe) \<le> pe - p"
proof (induction mem p pe rule: foreach_codepoint.induct)
  case (1 mem p pe)
  obtain c' p' where d: "uv__utf8_decode1 mem p pe = (c', p')" by fastforce
  then show ?case
    using 1 decode1_advances [OF d] by (fastforce simp: foreach_codepoint.simps [of mem p pe])
qed

section \<open>Punycode as RFC 3492 decodes it\<close>

text \<open>The decoder of section 6.2 of the RFC over the naturals, with the parameters of section 5.\<close>

definition rfc_threshold :: "nat \<Rightarrow> nat \<Rightarrow> nat" where
  "rfc_threshold k bias = (if k \<le> bias + 1 then 1 else if bias + 26 \<le> k then 26 else k - bias)"

definition digit_value :: "u8 \<Rightarrow> nat option" where
  "digit_value c =
     (let v = unat c
      in if 97 \<le> v \<and> v \<le> 122 then Some (v - 97) else if 65 \<le> v \<and> v \<le> 90 then Some (v - 65)
         else if 48 \<le> v \<and> v \<le> 57 then Some (v - 22) else None)"

fun get_delta :: "nat \<Rightarrow> nat \<Rightarrow> nat \<Rightarrow> nat \<Rightarrow> u8 list \<Rightarrow> (nat \<times> u8 list) option" where
  "get_delta bias k w i [] = None"
| "get_delta bias k w i (c # cs) =
     (case digit_value c of
        None \<Rightarrow> None
      | Some digit \<Rightarrow>
          (let t = rfc_threshold k bias
           in if digit < t then Some (i + digit * w, cs)
              else get_delta bias (k + 36) (w * (36 - t)) (i + digit * w) cs))"

function rfc_scale :: "nat \<Rightarrow> nat \<Rightarrow> nat" where
  "rfc_scale k delta = (if 455 < delta then rfc_scale (k + 36) (delta div 35) else k + 36 * delta div (delta + 38))"
  by pat_completeness auto
termination
  by (relation "measure snd") auto

declare rfc_scale.simps [simp del]

definition rfc_adapt :: "nat \<Rightarrow> nat \<Rightarrow> bool \<Rightarrow> nat" where
  "rfc_adapt delta numpoints first =
     (let delta = (if first then delta div 700 else delta div 2) in rfc_scale 0 (delta + delta div numpoints))"

lemma get_delta_shorter: "get_delta bias k w i cs = Some (j, cs') \<Longrightarrow> length cs' < length cs"
  by (induction bias k w i cs rule: get_delta.induct) (fastforce simp: Let_def split: option.splits if_splits)+

function insertions :: "nat \<Rightarrow> nat \<Rightarrow> nat \<Rightarrow> bool \<Rightarrow> nat list \<Rightarrow> u8 list \<Rightarrow> nat list option" where
  "insertions n i bias first out cs =
     (if cs = [] then Some out
      else
      (case get_delta bias 36 1 i cs of
         None \<Rightarrow> None
       | Some (j, cs') \<Rightarrow>
           (let len = length out + 1
            in insertions (n + j div len) (j mod len + 1) (rfc_adapt (j - i) len first) False
                 (take (j mod len) out @ [n + j div len] @ drop (j mod len) out) cs')))"
  by pat_completeness auto
termination
  by (relation "measure (\<lambda>(_, _, _, _, _, cs). length cs)") (auto dest!: get_delta_shorter)

declare insertions.simps [simp del]

text \<open>Everything in front of the last hyphen is copied, what follows it are the insertions.\<close>

definition punycode_decode :: "u8 list \<Rightarrow> nat list option" where
  "punycode_decode cs =
     (let extended = rev (takeWhile (\<lambda>c. c \<noteq> 45) (rev cs)); basic = rev (tl (dropWhile (\<lambda>c. c \<noteq> 45) (rev cs)))
      in insertions 128 0 72 True (map unat basic) extended)"

section \<open>Numbers of variable length\<close>

lemma put_take: "put de c (take de out) = take de (out @ [c])"
  by (cases "length out < de") (simp_all add: put_def)

lemma length_alphabet: "length alphabet = 36"
  by (simp add: alphabet_def digits_def)

lemma digits_map: "digits = map (\<lambda>i. of_nat (48 + i)) [0..<10]"
  by (simp add: digits_def upt_rec)

lemma unat_alphabet:
  assumes "d < 36"
  shows "unat (alphabet ! d) = (if d < 26 then 97 + d else 22 + d)"
proof -
  have "alphabet ! d = of_nat (if d < 26 then 97 + d else 22 + d)"
    using assms by (auto simp: alphabet_def digits_map nth_append simp flip: of_nat_add)
  then show ?thesis using assms unat_of_nat_u8 [of "if d < 26 then 97 + d else 22 + d"] by (simp split: if_splits)
qed

lemma alphabet_digit: "d < 36 \<Longrightarrow> digit_value (alphabet ! d) = Some d"
  using unat_alphabet [of d] by (simp add: digit_value_def split: if_splits)

lemma digit_value_ascii: "digit_value c \<noteq> None \<Longrightarrow> unat c < 128 \<and> c \<noteq> 45 \<and> c \<noteq> 0"
  by (auto simp: digit_value_def Let_def split: if_splits)

lemma threshold_rfc: "unat (threshold k bias) = rfc_threshold (unat k) (unat bias)"
proof (cases "bias < k")
  case True
  then have "unat (k - bias) = unat k - unat bias" by (simp add: unat_sub)
  with True show ?thesis by (auto simp: threshold_def rfc_threshold_def Let_def word_less_nat_alt)
qed (simp add: threshold_def rfc_threshold_def word_less_nat_alt)

text \<open>What \<^verbatim>\<open>put_delta\<close> appends is a number of variable length; ten digits suffice for a word.\<close>

definition encodes :: "nat \<Rightarrow> nat \<Rightarrow> nat \<Rightarrow> u8 list \<Rightarrow> bool" where
  "encodes bias k q ds \<longleftrightarrow> ds \<noteq> [] \<and> (\<forall>c\<in>set ds. digit_value c \<noteq> None) \<and>
     (\<forall>w i rest. get_delta bias k w i (ds @ rest) = Some (i + q * w, rest))"

lemma encodes_last:
  "q < rfc_threshold k bias \<Longrightarrow> encodes bias k q [alphabet ! q]"
  using alphabet_digit [of q] by (simp add: encodes_def rfc_threshold_def split: if_splits)

lemma encodes_step:
  assumes "encodes bias (k + 36) ((q - t) div (36 - t)) ds" "t = rfc_threshold k bias" "t \<le> q"
  shows "encodes bias k q (alphabet ! (t + (q - t) mod (36 - t)) # ds)"
proof -
  let ?d = "t + (q - t) mod (36 - t)"
  have t: "1 \<le> t" "t \<le> 26" using assms(2) by (auto simp: rfc_threshold_def)
  then have "(q - t) mod (36 - t) < 36 - t" by simp
  then have d: "?d < 36" by linarith
  have "(q - t) div (36 - t) * (36 - t) + (q - t) mod (36 - t) = q - t" by (rule div_mult_mod_eq)
  then have q: "?d + (q - t) div (36 - t) * (36 - t) = q" using assms(3) by linarith
  have "get_delta bias k w i ((alphabet ! ?d # ds) @ rest) = Some (i + q * w, rest)" for w i rest
  proof -
    have "i + ?d * w + (q - t) div (36 - t) * (w * (36 - t)) = i + (?d + (q - t) div (36 - t) * (36 - t)) * w"
      by (simp add: algebra_simps)
    then show ?thesis
      using assms(1,2) alphabet_digit [OF d] unfolding encodes_def q by (simp add: Let_def)
  qed
  then show ?thesis using assms(1) alphabet_digit [OF d] by (simp add: encodes_def)
qed

lemma put_delta_last:
  assumes "q < threshold k bias"
  shows "encodes (unat bias) (unat k) (unat q) [alphabet ! unat q]"
    and "put_delta de bias k q (take de out) = take de (out @ [alphabet ! unat q])"
proof -
  show "encodes (unat bias) (unat k) (unat q) [alphabet ! unat q]"
    using assms by (intro encodes_last) (simp add: word_less_nat_alt threshold_rfc)
  show "put_delta de bias k q (take de out) = take de (out @ [alphabet ! unat q])"
    using assms by (simp add: put_delta.simps [of de bias k] put_take)
qed

lemma put_delta_encodes:
  assumes "unat q < 10 ^ j" "unat k + 36 * j < 2 ^ 32"
  shows "\<exists>ds. encodes (unat bias) (unat k) (unat q) ds \<and> (\<forall>out. put_delta de bias k q (take de out) = take de (out @ ds))"
  using assms
proof (induction j arbitrary: k q)
  case 0
  then have "q < threshold k bias" using unat_threshold [of k bias] by (simp add: word_less_nat_alt)
  then show ?case using put_delta_last by blast
next
  case (Suc j)
  let ?t = "threshold k bias" and ?q = "(q - threshold k bias) div (36 - threshold k bias)"
  show ?case
  proof (cases "q < ?t")
    case False
    then have q: "unat ?q = (unat q - unat ?t) div (36 - unat ?t)"
      "unat (?t + (q - ?t) mod (36 - ?t)) = unat ?t + (unat q - unat ?t) mod (36 - unat ?t)"
      using unat_digit [of k bias q] by simp_all
    have k: "unat (k + 36) = unat k + 36" using Suc.prems(2) by (simp add: unat_word_ariths(1))
    have "(unat q - unat ?t) div (36 - unat ?t) \<le> unat q div 10"
      using unat_threshold [of k bias] by (intro order_trans [OF div_le_mono2 [of 10] div_le_mono]) simp_all
    then have "unat ?q < 10 ^ j" using Suc.prems(1) q(1) by simp
    then obtain ds where ds: "encodes (unat bias) (unat k + 36) (unat ?q) ds"
      "\<And>out. put_delta de bias (k + 36) ?q (take de out) = take de (out @ ds)"
      using Suc.IH [of ?q "k + 36"] Suc.prems(2) k by auto
    let ?c = "alphabet ! (unat ?t + (unat q - unat ?t) mod (36 - unat ?t))"
    have "encodes (unat bias) (unat k) (unat q) (?c # ds)"
      using ds(1) False unfolding q by (intro encodes_step) (simp_all add: threshold_rfc word_less_nat_alt)
    moreover have "put_delta de bias k q (take de out) = take de (out @ ?c # ds)" for out
      using False ds(2) [of "out @ [?c]"] by (simp add: put_delta.simps [of de bias k q] put_take q Let_def)
    ultimately show ?thesis by blast
  qed (use put_delta_last in blast)
qed

lemma put_delta_word:
  "\<exists>ds. encodes (unat bias) 36 (unat q) ds \<and> (\<forall>out. put_delta de bias 36 q (take de out) = take de (out @ ds))"
proof -
  have "unat q < 2 ^ LENGTH(32)" by (rule unsigned_less)
  then have "unat q < 10 ^ 10" by simp
  then show ?thesis using put_delta_encodes [of q 10 36] by simp
qed

section \<open>The bias\<close>

lemma scale_delta_rfc:
  assumes "unat delta < 10 ^ j" "unat bias + 36 * j + 36 < 2 ^ 32"
  shows "(case scale_delta delta bias of (d, b) \<Rightarrow> unat (b + 36 * d div (d + 38))) = rfc_scale (unat bias) (unat delta)"
  using assms
proof (induction j arbitrary: delta bias)
  case 0
  then have "delta = 0" by (simp add: unat_eq_0)
  then show ?case by (simp add: scale_delta.simps [of 0] rfc_scale.simps [of _ 0])
next
  case (Suc j)
  show ?case
  proof (cases "455 < delta")
    case True
    have "unat (bias + 36) = unat bias + 36" using Suc.prems(2) by (simp add: unat_word_ariths(1))
    moreover have "unat (delta div 35) < 10 ^ j" using Suc.prems(1) by (simp add: unat_div)
    ultimately show ?thesis
      using Suc.IH [of "delta div 35" "bias + 36"] Suc.prems(2) True
      by (simp add: scale_delta.simps [of delta] rfc_scale.simps [of _ "unat delta"] word_less_nat_alt unat_div)
  next
    case False
    then have d: "unat delta \<le> 455" by (simp add: word_less_nat_alt)
    then have "unat (36 * delta) = 36 * unat delta" "unat (delta + 38) = unat delta + 38"
      by (simp_all add: unat_word_ariths(1,2))
    moreover have "36 * unat delta div (unat delta + 38) < 37"
      by (rule less_mult_imp_div_less) simp
    ultimately have "unat (bias + 36 * delta div (delta + 38)) = unat bias + 36 * unat delta div (unat delta + 38)"
      using Suc.prems(2) by (simp add: unat_word_ariths(1) unat_div)
    then show ?thesis using d
      by (simp add: scale_delta.simps [of delta] rfc_scale.simps [of _ "unat delta"] word_less_nat_alt)
  qed
qed

lemma encode_codepoint_bias:
  assumes "unat (ids_h st) + 1 < 2 ^ 32"
  shows "unat (ids_bias (encode_codepoint de st)) = rfc_adapt (unat (ids_delta st)) (unat (ids_h st) + 1) (ids_first st)"
proof -
  define damped where "damped = (if ids_first st then ids_delta st div 2 div 350 else ids_delta st div 2)"
  let ?h = "ids_h st + 1"
  have h: "unat ?h = unat (ids_h st) + 1" using assms by (simp add: unat_word_ariths(1))
  have d: "unat damped = (if ids_first st then unat (ids_delta st) div 700 else unat (ids_delta st) div 2)"
    by (simp add: damped_def unat_div div_mult2_eq [symmetric])
  have "unat (ids_delta st) < 2 ^ LENGTH(32)" by (rule unsigned_less)
  then have "unat damped < 2147483648" by (auto simp: d)
  moreover have "unat damped div unat ?h \<le> unat damped" by (rule div_le_dividend)
  ultimately have "unat damped + unat (damped div ?h) < 4294967296" by (simp only: unat_div)
  then have s: "unat (damped + damped div ?h) = unat damped + unat damped div unat ?h"
    by (simp only: unat_word_ariths(1) unat_div) simp
  have "unat (damped + damped div ?h) < 2 ^ LENGTH(32)" by (rule unsigned_less)
  then have "(case scale_delta (damped + damped div ?h) 0 of (d, b) \<Rightarrow> unat (b + 36 * d div (d + 38))) =
      rfc_scale 0 (unat (damped + damped div ?h))"
    using scale_delta_rfc [of "damped + damped div ?h" 10 0] by simp
  moreover have "ids_bias (encode_codepoint de st) =
      (case scale_delta (damped + damped div ?h) 0 of (d, b) \<Rightarrow> b + 36 * d div (d + 38))"
    by (simp add: encode_codepoint_def Let_def damped_def split: prod.split)
  ultimately show ?thesis by (simp add: s d h rfc_adapt_def Let_def split: prod.splits)
qed

section \<open>The encoder and the decoder in step\<close>

text \<open>The state of the decoder between two insertions; the bias and the mark of the first insertion are those
  of the encoder.\<close>

record decoder =
  dec_n :: nat
  dec_i :: nat
  dec_out :: "nat list"

definition decode_from :: "idna_state \<Rightarrow> decoder \<Rightarrow> u8 list \<Rightarrow> nat list option" where
  "decode_from st D cs = insertions (dec_n D) (dec_i D) (unat (ids_bias st)) (ids_first st) (dec_out D) cs"

text \<open>The encoder writes digits that take the decoder from one state to the next.\<close>

definition in_step :: "nat \<Rightarrow> idna_state \<Rightarrow> decoder \<Rightarrow> idna_state \<Rightarrow> decoder \<Rightarrow> bool" where
  "in_step de st D st' D' \<longleftrightarrow> (\<exists>ds. (\<forall>c\<in>set ds. digit_value c \<noteq> None) \<and>
     (\<forall>out. ids_out st = take de out \<longrightarrow> ids_out st' = take de (out @ ds)) \<and>
     (\<forall>rest. decode_from st D (ds @ rest) = decode_from st' D' rest))"

lemma in_step_refl:
  "\<lbrakk>ids_out st' = ids_out st; ids_bias st' = ids_bias st; ids_first st' = ids_first st\<rbrakk> \<Longrightarrow> in_step de st D st' D"
  unfolding in_step_def decode_from_def by (rule exI [of _ "[]"]) simp

lemma in_step_trans [trans]:
  assumes "in_step de st D st' D'" "in_step de st' D' st'' D''"
  shows "in_step de st D st'' D''"
proof -
  obtain ds where ds: "\<forall>c\<in>set ds. digit_value c \<noteq> None"
    "\<And>out. ids_out st = take de out \<Longrightarrow> ids_out st' = take de (out @ ds)"
    "\<And>rest. decode_from st D (ds @ rest) = decode_from st' D' rest"
    using assms(1) unfolding in_step_def by blast
  obtain es where es: "\<forall>c\<in>set es. digit_value c \<noteq> None"
    "\<And>out. ids_out st' = take de out \<Longrightarrow> ids_out st'' = take de (out @ es)"
    "\<And>rest. decode_from st' D' (es @ rest) = decode_from st'' D'' rest"
    using assms(2) unfolding in_step_def by blast
  show ?thesis
    unfolding in_step_def
  proof (intro exI [of _ "ds @ es"] conjI allI impI)
    show "\<forall>c\<in>set (ds @ es). digit_value c \<noteq> None" using ds(1) es(1) by auto
    show "ids_out st'' = take de (out @ ds @ es)" if "ids_out st = take de out" for out
      using es(2) [OF ds(2) [OF that]] by simp
    show "decode_from st D ((ds @ es) @ rest) = decode_from st'' D'' rest" for rest
      using ds(3) [of "es @ rest"] es(3) [of rest] by simp
  qed
qed

text \<open>
  In the pass for the code point \<open>n\<close>, with \<open>pre\<close> behind and \<open>post\<close> ahead, the decoder has inserted the smaller
  code points and the occurrences of \<open>n\<close> in \<open>pre\<close>, and \<^verbatim>\<open>delta\<close> is the distance from its state to the next insertion.
\<close>

definition tracks :: "nat \<Rightarrow> nat list \<Rightarrow> nat list \<Rightarrow> idna_state \<Rightarrow> decoder \<Rightarrow> bool" where
  "tracks n pre post st D \<longleftrightarrow>
     dec_out D = filter (\<lambda>c. c \<le> n) pre @ filter (\<lambda>c. c < n) post \<and>
     unat (ids_h st) = length (dec_out D) \<and> dec_n D \<le> n \<and>
     dec_n D * (length (dec_out D) + 1) + dec_i D + unat (ids_delta st) =
       n * (length (dec_out D) + 1) + length (filter (\<lambda>c. c \<le> n) pre)"

lemma tracksD:
  assumes "tracks n pre post st D"
  shows "dec_out D = filter (\<lambda>c. c \<le> n) pre @ filter (\<lambda>c. c < n) post"
    and "unat (ids_h st) = length (dec_out D)" and "dec_n D \<le> n"
    and "dec_n D * (length (dec_out D) + 1) + dec_i D + unat (ids_delta st) =
      n * (length (dec_out D) + 1) + length (filter (\<lambda>c. c \<le> n) pre)"
  using assms unfolding tracks_def by blast+

lemma tracks_length: "tracks n pre post st D \<Longrightarrow> length (dec_out D) \<le> length pre + length post"
  unfolding tracks_def by (metis add_mono length_append length_filter_le)

text \<open>The longest label for which no distance overflows a word.\<close>

definition label_limit :: nat where
  "label_limit = 3800"

lemma tracks_delta:
  assumes "tracks n pre post st D" "n < 0x110000" "length pre + length post \<le> label_limit"
  shows "unat (ids_delta st) + 1 < 2 ^ 32"
proof -
  have "unat (ids_delta st) \<le> n * (length (dec_out D) + 1) + length (filter (\<lambda>c. c \<le> n) pre)"
    using tracksD(4) [OF assms(1)] by linarith
  also have "\<dots> \<le> 0x110000 * (label_limit + 1) + label_limit"
  proof (intro add_mono mult_mono)
    show "length (filter (\<lambda>c. c \<le> n) pre) \<le> label_limit"
      using assms(3) length_filter_le [of "\<lambda>c. c \<le> n" pre] by linarith
  qed (use assms(2,3) tracks_length [OF assms(1)] in simp_all)
  finally show ?thesis by (simp add: label_limit_def)
qed

lemma encode_codepoint_simps:
  "ids_h (encode_codepoint de st) = ids_h st + 1" "ids_delta (encode_codepoint de st) = 0"
  "ids_todo (encode_codepoint de st) = ids_todo st - 1" "ids_first (encode_codepoint de st) = False"
  "ids_out (encode_codepoint de st) = put_delta de (ids_bias st) 36 (ids_delta st) (ids_out st)"
  by (simp_all add: encode_codepoint_def Let_def split: prod.split)

lemma decode_step:
  assumes "encodes bias 36 q ds" "i + q = m * (length out + 1) + j" "j \<le> length out"
  shows "insertions n i bias first out (ds @ rest) =
    insertions (n + m) (j + 1) (rfc_adapt q (length out + 1) first) False (take j out @ [n + m] @ drop j out) rest"
proof -
  have "j < length out + 1" using assms(3) by simp
  then have "(i + q) div (length out + 1) = m" "(i + q) mod (length out + 1) = j"
    unfolding assms(2) by (simp_all only: div_mult_self3 mod_mult_self3 mod_less div_less)
  then show ?thesis using assms(1) by (simp add: insertions.simps [of n i bias] encodes_def Let_def)
qed

lemma encode_codepoint_in_step:
  assumes tr: "tracks n pre (n # post) st D" and len: "length pre + length (n # post) \<le> label_limit"
  shows "\<exists>D'. tracks n (pre @ [n]) post (encode_codepoint de st) D' \<and> in_step de st D (encode_codepoint de st) D'"
proof -
  let ?st = "encode_codepoint de st" and ?out = "dec_out D" and ?j = "length (filter (\<lambda>c. c \<le> n) pre)"
  let ?D = "\<lparr>dec_n = n, dec_i = ?j + 1, dec_out = take ?j ?out @ [n] @ drop ?j ?out\<rparr>"
  have out: "?out = filter (\<lambda>c. c \<le> n) pre @ filter (\<lambda>c. c < n) post" and h: "unat (ids_h st) = length ?out"
    and n: "dec_n D \<le> n" and q: "dec_n D * (length ?out + 1) + dec_i D + unat (ids_delta st) = n * (length ?out + 1) + ?j"
    using tracksD [OF tr] by simp_all
  have "length ?out < label_limit" using len by (simp add: out) (meson add_le_mono le_less_trans length_filter_le less_eq_Suc_le)
  then have h1: "unat (ids_h ?st) = length ?out + 1" "unat (ids_h st) + 1 < 2 ^ 32"
    using h by (simp_all add: encode_codepoint_simps unat_word_ariths(1) label_limit_def)
  obtain ds where ds: "encodes (unat (ids_bias st)) 36 (unat (ids_delta st)) ds"
    "\<And>out. put_delta de (ids_bias st) 36 (ids_delta st) (take de out) = take de (out @ ds)"
    using put_delta_word by blast
  have "dec_i D + unat (ids_delta st) = (n - dec_n D) * (length ?out + 1) + ?j"
    using q mult_le_mono1 [OF n, of "length ?out + 1"] diff_mult_distrib [of n "dec_n D" "length ?out + 1"] by linarith
  from decode_step [OF ds(1) this, of "dec_n D" "ids_first st"]
  have "decode_from st D (ds @ rest) = decode_from ?st ?D rest" for rest
    using n h encode_codepoint_bias [OF h1(2), of de] by (simp add: out decode_from_def encode_codepoint_simps)
  then have "in_step de st D ?st ?D"
    unfolding in_step_def using ds by (intro exI [of _ ds]) (auto simp: encodes_def encode_codepoint_simps)
  moreover have "tracks n (pre @ [n]) post ?st ?D"
    using h1(1) by (simp add: tracks_def out encode_codepoint_simps)
  ultimately show ?thesis by blast
qed

subsection \<open>A pass\<close>

lemma of_nat_u32_less:
  "\<lbrakk>a < 2 ^ 32; b < 2 ^ 32\<rbrakk> \<Longrightarrow> (of_nat a :: u32) < of_nat b \<longleftrightarrow> a < b"
  "\<lbrakk>a < 2 ^ 32; b < 2 ^ 32\<rbrakk> \<Longrightarrow> (of_nat a :: u32) \<le> of_nat b \<longleftrightarrow> a \<le> b"
  "\<lbrakk>a < 2 ^ 32; b < 2 ^ 32\<rbrakk> \<Longrightarrow> (of_nat a :: u32) = of_nat b \<longleftrightarrow> a = b"
  by (simp_all add: word_less_nat_alt word_le_nat_alt word_unat_eq_iff unat_of_nat_u32)

lemma tracks_smaller:
  assumes "tracks n pre (c # post) st D" "c < n" "unat (ids_delta st) + 1 < 2 ^ 32"
  shows "tracks n (pre @ [c]) post (st\<lparr>ids_delta := ids_delta st + 1\<rparr>) D"
  using tracksD [OF assms(1)] assms(2,3) by (simp add: tracks_def unat_word_ariths(1))

lemma tracks_larger:
  assumes "tracks n pre (c # post) st D" "n < c"
  shows "tracks n (pre @ [c]) post st D"
proof -
  have f: "filter (\<lambda>x. x \<le> n) (pre @ [c]) = filter (\<lambda>x. x \<le> n) pre" "filter (\<lambda>x. x < n) (c # post) = filter (\<lambda>x. x < n) post"
    using assms(2) by simp_all
  show ?thesis unfolding tracks_def f(1) using assms(1) unfolding tracks_def f(2) .
qed

lemma encode_pass_in_step:
  assumes "tracks n pre post st D" "n < 0x110000" "length pre + length post \<le> label_limit" "list_all (\<lambda>c. c < 0x110000) post"
  shows "\<exists>st' D'. encode_pass de (of_nat n) (map of_nat post) st = Inr st' \<and> tracks n (pre @ post) [] st' D' \<and>
    in_step de st D st' D' \<and> ids_todo st' = ids_todo st - of_nat (count_list post n)"
  using assms
proof (induction post arbitrary: pre st D)
  case Nil
  then show ?case using in_step_refl [of st st] by fastforce
next
  case (Cons c post)
  note word = of_nat_u32_less [of c n]
  have IH: "\<exists>st'' D''. encode_pass de (of_nat n) (map of_nat post) st' = Inr st'' \<and> tracks n (pre @ c # post) [] st'' D'' \<and>
      in_step de st' D' st'' D'' \<and> ids_todo st'' = ids_todo st' - of_nat (count_list post n)"
    if "tracks n (pre @ [c]) post st' D'" for st' D'
    using Cons.IH [OF that] Cons.prems(2-4) by simp
  have delta: "unat (ids_delta st) + 1 < 2 ^ 32" using Cons.prems(1-3) by (rule tracks_delta)
  consider "c < n" | "c = n" | "n < c" by linarith
  then show ?case
  proof cases
    case 1
    have "ids_delta st + 1 \<noteq> 0" using delta by (simp add: word_unat_eq_iff unat_word_ariths(1))
    then have pass: "encode_pass de (of_nat n) (map of_nat (c # post)) st =
        encode_pass de (of_nat n) (map of_nat post) (st\<lparr>ids_delta := ids_delta st + 1\<rparr>)"
      using 1 word(1) Cons.prems(2) by simp
    have "in_step de st D (st\<lparr>ids_delta := ids_delta st + 1\<rparr>) D" by (rule in_step_refl) simp_all
    from in_step_trans [OF this] IH [OF tracks_smaller [OF Cons.prems(1) 1 delta]] show ?thesis
      unfolding pass using 1 by auto
  next
    case 2
    then obtain D' where D': "tracks n (pre @ [c]) post (encode_codepoint de st) D'" "in_step de st D (encode_codepoint de st) D'"
      using encode_codepoint_in_step [of n pre post st D de] Cons.prems(1,3) by auto
    from IH [OF D'(1)] show ?thesis
      using 2 in_step_trans [OF D'(2)] by (fastforce simp: encode_codepoint_simps)
  next
    case 3
    then show ?thesis using IH [OF tracks_larger [OF Cons.prems(1) 3]] word Cons.prems(2,4) by auto
  qed
qed

subsection \<open>All passes\<close>

lemma next_codepoint_least:
  "next_codepoint n cs m \<le> m"
  "next_codepoint n cs m = m \<or> next_codepoint n cs m \<in> set cs \<and> n \<le> next_codepoint n cs m"
proof -
  show le: "next_codepoint n cs m \<le> m"
    by (induction n cs m rule: next_codepoint.induct) (auto split: if_splits intro: order_trans)
  show "next_codepoint n cs m = m \<or> next_codepoint n cs m \<in> set cs \<and> n \<le> next_codepoint n cs m"
    by (induction n cs m rule: next_codepoint.induct) (auto split: if_splits)
qed

lemma next_codepoint_le: "c \<in> set cs \<Longrightarrow> n \<le> c \<Longrightarrow> next_codepoint n cs m \<le> c"
proof (induction cs arbitrary: m)
  case (Cons b cs)
  have "next_codepoint n cs (if n \<le> b \<and> b < m then b else m) \<le> (if n \<le> b \<and> b < m then b else m)"
    by (rule next_codepoint_least)
  with Cons show ?case by (auto split: if_splits)
qed simp

lemma next_codepoint_Min:
  assumes "list_all (\<lambda>c. c < 0x110000) cs" "n < 0x110000" "filter (\<lambda>c. n \<le> c) cs \<noteq> []"
  obtains m where "next_codepoint (of_nat n) (map of_nat cs) (- 1) = of_nat m" "m \<in> set cs" "n \<le> m"
    "\<forall>c\<in>set cs. c < m \<longleftrightarrow> c < n"
proof -
  let ?r = "next_codepoint (of_nat n) (map of_nat cs) (- 1 :: u32)"
  note least = next_codepoint_least(2) [of "of_nat n" "map of_nat cs" "- 1"]
  note le = next_codepoint_le [of _ "map of_nat cs" "of_nat n" "- 1"]
  have small: "c < 0x110000" if "c \<in> set cs" for c using that assms(1) by (simp add: list_all_iff)
  obtain c where c: "c \<in> set cs" "n \<le> c" using assms(3) by (metis filter_False)
  then have "?r \<le> of_nat c" using le small [OF c(1)] assms(2) of_nat_u32_less(2) [of n c] by auto
  moreover have "(of_nat c :: u32) < - 1" using small [OF c(1)] by (simp add: word_less_nat_alt unat_of_nat_u32 unsigned_minus_1_eq_mask mask_eq_exp_minus_1)
  ultimately have "?r \<noteq> - 1" by auto
  then obtain m where m: "?r = of_nat m" "m \<in> set cs" "(of_nat n :: u32) \<le> of_nat m" using least by auto
  have "n \<le> m" using m small assms(2) of_nat_u32_less(2) [of n m] by fastforce
  moreover have "c < m \<longleftrightarrow> c < n" if "c \<in> set cs" for c
  proof -
    have "n \<le> c \<Longrightarrow> m \<le> c"
      using le [of "of_nat c"] that m(1) small [OF that] small [OF m(2)] assms(2) of_nat_u32_less(2) [of n c] of_nat_u32_less(2) [of m c] by auto
    then show ?thesis using \<open>n \<le> m\<close> by linarith
  qed
  ultimately show ?thesis using that m(1,2) by blast
qed

lemma unat_not_word: "unat (NOT (w :: u32)) = 2 ^ 32 - 1 - unat w"
proof -
  have "unat ((- 1 :: u32) - w) = unat (- 1 :: u32) - unat w" by (rule unat_sub) simp
  moreover have "NOT w = - 1 - w" by (simp add: not_eq_complement)
  ultimately show ?thesis by (simp add: unsigned_minus_1_eq_mask mask_eq_exp_minus_1)
qed

lemma tracks_next:
  assumes "tracks n [] cs st D" "n \<le> m" "m < 0x110000" "\<forall>c\<in>set cs. c < m \<longleftrightarrow> c < n" "length cs \<le> label_limit"
  shows "tracks m [] cs (st\<lparr>ids_delta := ids_delta st + (of_nat m - of_nat n) * (ids_h st + 1)\<rparr>) D"
    and "\<not> NOT (ids_delta st) div (ids_h st + 1) < of_nat m - of_nat n"
proof -
  note t = tracksD [OF assms(1)]
  let ?L = "length (dec_out D) + 1" and ?delta = "unat (ids_delta st)"
  have "m * ?L \<le> 0x110000 * (label_limit + 1)"
    using assms(3,5) tracks_length [OF assms(1)] by (intro mult_mono) simp_all
  moreover have "(m - n) * ?L = m * ?L - n * ?L" by (rule diff_mult_distrib)
  moreover have "n * ?L \<le> m * ?L" using assms(2) by (rule mult_le_mono1)
  ultimately have sum: "dec_n D * ?L + dec_i D + (?delta + (m - n) * ?L) = m * ?L" "?delta + (m - n) * ?L < 4294967296"
    using t(4) by (simp_all add: label_limit_def)
  have x: "unat (of_nat m - of_nat n :: u32) = m - n"
    using assms(2,3) by (simp add: unat_of_nat_u32 flip: of_nat_diff)
  have y: "unat (ids_h st + 1) = ?L"
    using t(2) assms(5) tracks_length [OF assms(1)] by (simp add: unat_word_ariths(1) label_limit_def)
  have "unat ((of_nat m - of_nat n) * (ids_h st + 1)) = (m - n) * ?L"
    using sum(2) by (simp only: unat_word_ariths(2) x y) simp
  then have "unat (ids_delta st + (of_nat m - of_nat n) * (ids_h st + 1)) = ?delta + (m - n) * ?L"
    using sum(2) by (simp only: unat_word_ariths(1)) simp
  moreover have "filter (\<lambda>c. c < n) cs = filter (\<lambda>c. c < m) cs" using assms(4) by (intro filter_cong) auto
  ultimately show "tracks m [] cs (st\<lparr>ids_delta := ids_delta st + (of_nat m - of_nat n) * (ids_h st + 1)\<rparr>) D"
    using t(1-3) sum(1) assms(2) by (simp add: tracks_def)
  have "(m - n) * ?L \<le> 2 ^ 32 - 1 - ?delta" using sum(2) by simp
  then have "m - n \<le> (2 ^ 32 - 1 - ?delta) div ?L" by (simp add: less_eq_div_iff_mult_less_eq)
  then show "\<not> NOT (ids_delta st) div (ids_h st + 1) < of_nat m - of_nat n"
    by (simp only: word_less_nat_alt unat_div unat_not_word x y not_less)
qed

lemma tracks_done:
  assumes "tracks n cs [] st D" "unat (ids_delta st) + 1 < 2 ^ 32"
  shows "tracks (n + 1) [] cs (st\<lparr>ids_delta := ids_delta st + 1\<rparr>) D"
  using tracksD [OF assms(1)] assms(2) by (simp add: tracks_def unat_word_ariths(1) less_Suc_eq_le)

lemma length_filter_from:
  fixes m n :: "'a::linorder"
  shows "\<forall>c\<in>set cs. c < m \<longleftrightarrow> c < n \<Longrightarrow>
    length (filter (\<lambda>c. n \<le> c) cs) = length (filter (\<lambda>c. m < c) cs) + count_list cs m"
  by (induction cs) (auto simp: not_less)

lemma encode_loop_in_step:
  assumes "foreach_codepoint mem ss se = map of_nat cs" "list_all (\<lambda>c. c < 0x110000) cs" "length cs \<le> label_limit"
    and "tracks n [] cs st D" "n \<le> 0x110000" "ids_todo st = of_nat (length (filter (\<lambda>c. n \<le> c) cs))"
  shows "\<exists>st' D'. encode_loop mem ss se de (of_nat n) st = Some (0, ids_out st') \<and> in_step de st D st' D' \<and> dec_out D' = cs"
  using assms(4-6)
proof (induction "length (filter (\<lambda>c. n \<le> c) cs)" arbitrary: n st D rule: less_induct)
  case less
  have "length (filter (\<lambda>c. n \<le> c) cs) \<le> label_limit" by (rule order_trans [OF length_filter_le assms(3)])
  then have len: "length (filter (\<lambda>c. n \<le> c) cs) < 2 ^ 32" by (simp add: label_limit_def)
  show ?case
  proof (cases "filter (\<lambda>c. n \<le> c) cs = []")
    case True
    then have "filter (\<lambda>c. c < n) cs = cs" by (simp add: filter_empty_conv not_le)
    then have "dec_out D = cs" using tracksD(1) [OF less.prems(1)] by simp
    then show ?thesis
      using True less.prems(3) in_step_refl [of st st de D] by (auto simp: encode_loop.simps [of mem ss se de _ st])
  next
    case False
    then have todo: "0 < ids_todo st"
      using less.prems(3) len by (simp add: word_less_nat_alt unat_of_nat_u32)
    have n: "n < 0x110000" using False assms(2) by (auto simp: filter_empty_conv list_all_iff)
    obtain m where m: "next_codepoint (of_nat n) (map of_nat cs) (- 1) = of_nat m" "m \<in> set cs" "n \<le> m"
      "\<forall>c\<in>set cs. c < m \<longleftrightarrow> c < n"
      using next_codepoint_Min [OF assms(2) n False] by blast
    have m': "m < 0x110000" using m(2) assms(2) by (simp add: list_all_iff)
    let ?st = "st\<lparr>ids_delta := ids_delta st + (of_nat m - of_nat n) * (ids_h st + 1)\<rparr>"
    note next_ok = tracks_next [OF less.prems(1) m(3) m' m(4) assms(3)]
    obtain st' D' where pass: "encode_pass de (of_nat m) (map of_nat cs) ?st = Inr st'" "tracks m cs [] st' D'"
      "in_step de ?st D st' D'" "ids_todo st' = ids_todo st - of_nat (count_list cs m)"
      using encode_pass_in_step [OF next_ok(1) m' _ assms(2), of de] assms(3) by auto
    let ?st' = "st'\<lparr>ids_delta := ids_delta st' + 1\<rparr>"
    have "in_step de st D ?st D" "in_step de st' D' ?st' D'" by (rule in_step_refl; simp)+
    with pass(3) have step: "in_step de st D ?st' D'" using in_step_trans by blast
    have tr: "tracks (m + 1) [] cs ?st' D'"
      using pass(2) tracks_delta [OF pass(2) m'] assms(3) by (intro tracks_done) simp_all
    have split: "length (filter (\<lambda>c. n \<le> c) cs) = length (filter (\<lambda>c. m + 1 \<le> c) cs) + count_list cs m"
      using length_filter_from [OF m(4)] by (simp add: Suc_le_eq)
    have "length (filter (\<lambda>c. m + 1 \<le> c) cs) < length (filter (\<lambda>c. n \<le> c) cs)"
      using m(2) count_list_0_iff [of cs m] split by fastforce
    moreover have "ids_todo ?st' = of_nat (length (filter (\<lambda>c. m + 1 \<le> c) cs))"
      using pass(4) less.prems(3) split by simp
    ultimately obtain st'' D'' where rec: "encode_loop mem ss se de (of_nat (m + 1)) ?st' = Some (0, ids_out st'')"
      "in_step de ?st' D' st'' D''" "dec_out D'' = cs"
      using less.hyps [OF _ tr] m' by fastforce
    have "encode_loop mem ss se de (of_nat n) st = encode_loop mem ss se de (of_nat (m + 1)) ?st'"
      using todo next_ok(2) pass(1) m(1) by (subst encode_loop.simps) (simp add: assms(1) Let_def add.commute)
    then show ?thesis using rec in_step_trans [OF step] by auto
  qed
qed

section \<open>Labels\<close>

lemma count_codepoints_text:
  assumes "list_all (\<lambda>c. c < 0x110000) cs"
  shows "count_codepoints (map of_nat cs) h todo =
    Inr (h + of_nat (length (filter (\<lambda>c. c < 128) cs)), todo + of_nat (length (filter (\<lambda>c. 128 \<le> c) cs)))"
  using assms
proof (induction cs arbitrary: h todo)
  case (Cons c cs)
  then have "(of_nat c :: u32) \<noteq> - 1" "(of_nat c :: u32) < 128 \<longleftrightarrow> c < 128"
    by (auto simp: word_less_nat_alt word_unat_eq_iff unat_of_nat_u32 unsigned_minus_1_eq_mask mask_eq_exp_minus_1)
  with Cons show ?case by simp
qed simp

lemma copy_ascii_text:
  assumes "list_all (\<lambda>c. c < 0x110000) cs" "x + length cs < 2 ^ 32"
  shows "copy_ascii de (of_nat (x + length (filter (\<lambda>c. c < 128) cs))) (map of_nat cs) (of_nat x) (take de out) =
    take de (out @ map of_nat (filter (\<lambda>c. c < 128) cs))"
  using assms
proof (induction cs arbitrary: x out)
  case (Cons c cs)
  let ?k = "length (filter (\<lambda>c. c < 128) cs)"
  have c: "127 < (of_nat c :: u32) \<longleftrightarrow> \<not> c < 128" using Cons.prems(1) by (auto simp: word_less_nat_alt unat_of_nat_u32)
  show ?case
  proof (cases "c < 128")
    case True
    have "x + Suc ?k \<le> x + length (c # cs)" by simp
    also note Cons.prems(2)
    finally have last: "(of_nat x :: u32) + 1 = of_nat (x + length (filter (\<lambda>c. c < 128) (c # cs))) \<longleftrightarrow> ?k = 0"
      using of_nat_u32_less(3) [of "x + 1" "x + Suc ?k"] True by (simp add: add.commute)
    have "(ucast (of_nat c :: u32) :: u8) = of_nat c" using True by (simp add: unsigned_of_nat take_bit_nat_eq_self)
    moreover have "copy_ascii de (of_nat (Suc x + ?k)) (map of_nat cs) (of_nat (Suc x)) (take de (out @ [of_nat c])) =
        take de (out @ map of_nat (filter (\<lambda>c. c < 128) (c # cs)))"
      using Cons.IH [of "Suc x" "out @ [of_nat c]"] Cons.prems True by simp
    moreover have "?k = 0 \<Longrightarrow> filter (\<lambda>c. c < 128) cs = []" by simp
    ultimately show ?thesis using True c last by (simp add: put_take add.commute cong: if_cong)
  next
    case False
    then show ?thesis using Cons c by simp
  qed
qed simp

text \<open>The ASCII form of a label: a copy, or the prefix and the Punycode of the label.\<close>

definition ascii_form :: "nat list \<Rightarrow> u8 list \<Rightarrow> bool" where
  "ascii_form cs label \<longleftrightarrow>
     (if list_all (\<lambda>c. c < 128) cs then label = map of_nat cs
      else \<exists>code. label = [120, 110, 45, 45] @ code \<and> punycode_decode code = Some cs \<and>
        (\<forall>c\<in>set code. unat c < 128 \<and> (digit_value c \<noteq> None \<or> c = 45 \<or> unat c \<in> set cs)))"

lemma punycode_decode_split:
  assumes "45 \<notin> set ds"
  shows "punycode_decode ds = insertions 128 0 72 True [] ds"
    and "punycode_decode (basic @ 45 # ds) = insertions 128 0 72 True (map unat basic) ds"
proof -
  have 1: "takeWhile (\<lambda>c. c \<noteq> 45) (rev ds) = rev ds" "dropWhile (\<lambda>c. c \<noteq> 45) (rev ds) = []"
    using assms by (auto simp: takeWhile_eq_all_conv dropWhile_eq_Nil_conv)
  have 2: "takeWhile (\<lambda>c. c \<noteq> 45) (rev ds @ 45 # rev basic) = rev ds"
    "dropWhile (\<lambda>c. c \<noteq> 45) (rev ds @ 45 # rev basic) = 45 # rev basic"
    using assms by (auto simp: takeWhile_append dropWhile_append)
  show "punycode_decode ds = insertions 128 0 72 True [] ds"
    "punycode_decode (basic @ 45 # ds) = insertions 128 0 72 True (map unat basic) ds"
    by (simp_all add: punycode_decode_def 1 2)
qed

lemma unat_of_ascii: "list_all (\<lambda>c. c < 128) cs \<Longrightarrow> map (unat \<circ> (of_nat :: nat \<Rightarrow> u8)) cs = cs"
  by (induction cs) (simp_all add: unat_of_nat_u8)

text \<open>The conversion of a label that is well-formed UTF-8.\<close>

lemma scalars_less: "list_all scalar_value cs \<Longrightarrow> list_all (\<lambda>c. c < 0x110000) cs"
  by (auto simp: list_all_iff dest: scalar_less)

lemma encoded_part:
  assumes cs: "list_all scalar_value cs" "length cs \<le> label_limit" and mem: "foreach_codepoint mem s se = map of_nat cs"
    and st: "st = \<lparr>ids_h = of_nat (length (filter (\<lambda>c. c < 128) cs)), ids_bias = 72, ids_delta = 0,
      ids_todo = of_nat (length (filter (\<lambda>c. 128 \<le> c) cs)), ids_first = True, ids_out = take de out\<rparr>"
  shows "\<exists>ds. encode_loop mem s se de 128 st = Some (0, take de (out @ ds)) \<and> (\<forall>c\<in>set ds. digit_value c \<noteq> None) \<and>
    insertions 128 0 72 True (filter (\<lambda>c. c < 128) cs) ds = Some cs"
proof -
  let ?D = "\<lparr>dec_n = 128, dec_i = 0, dec_out = filter (\<lambda>c. c < 128) cs\<rparr>"
  have "length (filter (\<lambda>c. c < 128) cs) \<le> label_limit" by (rule order_trans [OF length_filter_le cs(2)])
  then have tr: "tracks 128 [] cs st ?D" by (simp add: tracks_def st unat_of_nat_u32 label_limit_def)
  have "ids_todo st = of_nat (length (filter (\<lambda>c. 128 \<le> c) cs))" by (simp add: st)
  then obtain st' D' where loop: "encode_loop mem s se de 128 st = Some (0, ids_out st')" "in_step de st ?D st' D'" "dec_out D' = cs"
    using encode_loop_in_step [OF mem scalars_less [OF cs(1)] cs(2) tr, of de] by auto
  then obtain ds where ds: "\<forall>c\<in>set ds. digit_value c \<noteq> None" "ids_out st' = take de (out @ ds)"
    "\<And>rest. decode_from st ?D (ds @ rest) = decode_from st' D' rest"
    unfolding in_step_def st by auto
  have "decode_from st ?D ds = Some cs" using ds(3) [of "[]"] loop(3) by (simp add: decode_from_def insertions.simps)
  then show ?thesis using loop(1) ds(1,2) by (auto simp: decode_from_def st)
qed

lemma label_encoded:
  assumes cs: "list_all scalar_value cs" "length cs \<le> label_limit" "\<not> list_all (\<lambda>c. c < 128) cs"
    and mem: "foreach_codepoint mem s se = map of_nat cs"
  shows "\<exists>label. uv__idna_toascii_label mem s se de (take de out) = Some (0, take de (out @ label)) \<and> ascii_form cs label"
proof -
  let ?ascii = "filter (\<lambda>c. c < 128) cs" and ?rest = "filter (\<lambda>c. 128 \<le> c) cs"
  note small = scalars_less [OF cs(1)]
  have "length ?rest \<le> label_limit" "length ?ascii \<le> label_limit" by (rule order_trans [OF length_filter_le cs(2)])+
  moreover have "?rest \<noteq> []" using cs(3) by (auto simp: filter_empty_conv list_all_iff not_less)
  ultimately have nz: "(of_nat (length ?rest) :: u32) \<noteq> 0" "(of_nat (length ?ascii) :: u32) = 0 \<longleftrightarrow> ?ascii = []"
    using of_nat_u32_less(3) [of "length ?rest" 0] of_nat_u32_less(3) [of "length ?ascii" 0] by (simp_all add: label_limit_def)
  let ?out = "out @ [120, 110, 45, 45] @ map of_nat ?ascii @ (if ?ascii = [] then [] else [45])"
  obtain ds where ds: "encode_loop mem s se de 128 \<lparr>ids_h = of_nat (length ?ascii), ids_bias = 72, ids_delta = 0,
      ids_todo = of_nat (length ?rest), ids_first = True, ids_out = take de ?out\<rparr> = Some (0, take de (?out @ ds))"
    "\<forall>c\<in>set ds. digit_value c \<noteq> None" "insertions 128 0 72 True ?ascii ds = Some cs"
    using encoded_part [OF cs(1,2) mem refl] by blast
  let ?code = "map of_nat ?ascii @ (if ?ascii = [] then [] else [45]) @ ds"
  have prefix: "put de 45 (put de 45 (put de 110 (put de 120 (take de out)))) = take de (out @ [120, 110, 45, 45])"
    by (simp only: put_take append_assoc append.simps)
  have "copy_ascii de (of_nat (length ?ascii)) (map of_nat cs) 0 (take de (out @ [120, 110, 45, 45])) =
      take de ((out @ [120, 110, 45, 45]) @ map of_nat ?ascii)"
    using copy_ascii_text [OF small, of 0 de "out @ [120, 110, 45, 45]"] cs(2) by (simp add: label_limit_def del: take_append)
  moreover have "(if 0 < (of_nat (length ?ascii) :: u32) then put de 45 (take de ((out @ [120, 110, 45, 45]) @ map of_nat ?ascii))
      else take de ((out @ [120, 110, 45, 45]) @ map of_nat ?ascii)) = take de ?out"
    using nz(2) by (simp add: put_take word_neq_0_conv [symmetric] del: take_append)
  ultimately have "uv__idna_toascii_label mem s se de (take de out) = Some (0, take de (out @ [120, 110, 45, 45] @ ?code))"
    using nz(1) ds(1) unfolding uv__idna_toascii_label_def mem count_codepoints_text [OF small] Let_def
    by (cases "?ascii = []") (simp_all add: prefix nz(2) put_take word_neq_0_conv [symmetric] del: take_append)
  moreover have "45 \<notin> set ds" using ds(2) digit_value_ascii by blast
  then have "punycode_decode ?code = Some cs"
    using ds(3) punycode_decode_split [of ds] unat_of_ascii [of ?ascii] by (auto simp: list_all_iff)
  moreover have "\<forall>c\<in>set ?code. unat c < 128 \<and> (digit_value c \<noteq> None \<or> c = 45 \<or> unat c \<in> set cs)"
    using ds(2) digit_value_ascii by (auto simp: unat_of_nat_u8)
  ultimately show ?thesis using cs(3) by (auto simp: ascii_form_def)
qed

lemma label_copied:
  assumes cs: "length cs \<le> label_limit" "list_all (\<lambda>c. c < 128) cs" and mem: "foreach_codepoint mem s se = map of_nat cs"
  shows "uv__idna_toascii_label mem s se de (take de out) = Some (int (length cs), take de (out @ map of_nat cs))"
proof -
  have small: "list_all (\<lambda>c. c < 0x110000) cs" using cs(2) by (auto simp: list_all_iff)
  have f: "filter (\<lambda>c. c < 128) cs = cs" "filter (\<lambda>c. 128 \<le> c) cs = []" using cs(2) by (auto simp: list_all_iff filter_empty_conv)
  have "sint (of_nat (length cs) :: u32) = int (length cs)"
    using cs(1) by (simp add: label_limit_def signed_of_nat signed_take_bit_int_eq_self)
  then show ?thesis
    using count_codepoints_text [OF small, of 0 0] copy_ascii_text [OF small, of 0 de out] cs(1)
    by (simp add: uv__idna_toascii_label_def mem f label_limit_def)
qed

section \<open>Termination and bounds for every input\<close>

lemma put_bound: "length out \<le> de \<Longrightarrow> length (put de c out) \<le> de"
  by (simp add: put_def)

lemma copy_ascii_bound: "length out \<le> de \<Longrightarrow> length (copy_ascii de h cs x out) \<le> de"
  by (induction de h cs x out rule: copy_ascii.induct) (simp_all add: put_bound)

lemma put_delta_bound:
  assumes "length out \<le> de"
  shows "length (put_delta de bias 36 q out) \<le> de"
proof -
  obtain ds where "put_delta de bias 36 q (take de out) = take de (out @ ds)" using put_delta_word by blast
  then show ?thesis using assms by simp
qed

lemma encode_pass_bound:
  assumes "length (ids_out st) \<le> de"
  shows "case encode_pass de n ws st of
      Inl (rc, out) \<Rightarrow> rc = UV_E2BIG \<and> length out \<le> de
    | Inr st' \<Rightarrow> length (ids_out st') \<le> de \<and> ids_todo st' = ids_todo st - of_nat (count_list ws n)"
  using assms
proof (induction ws arbitrary: st)
  case (Cons c ws)
  have "length (ids_out (encode_codepoint de st)) \<le> de"
    using Cons.prems by (simp add: encode_codepoint_simps put_delta_bound)
  with Cons.IH [of "encode_codepoint de st"] Cons.IH [of "st\<lparr>ids_delta := ids_delta st + 1\<rparr>"] Cons.IH [of st] Cons.prems
  show ?case by (auto simp: encode_codepoint_simps split: sum.splits)
qed simp

lemma encode_loop_returns:
  assumes "foreach_codepoint mem ss se = ws" "- 1 \<notin> set ws" "length ws < 2 ^ 32"
    and "length (ids_out st) \<le> de" "ids_todo st = of_nat (length (filter (\<lambda>c. n \<le> c) ws))"
  shows "\<exists>rc out. encode_loop mem ss se de n st = Some (rc, out) \<and> (rc = 0 \<or> rc = UV_E2BIG) \<and> length out \<le> de"
  using assms(4,5)
proof (induction "length (filter (\<lambda>c. n \<le> c) ws)" arbitrary: n st rule: less_induct)
  case less
  show ?case
  proof (cases "filter (\<lambda>c. n \<le> c) ws = []")
    case True
    then show ?thesis using less.prems by (simp add: encode_loop.simps [of mem ss se de n st])
  next
    case False
    have "length (filter (\<lambda>c. n \<le> c) ws) < 2 ^ 32" by (rule order_le_less_trans [OF length_filter_le assms(3)])
    then have todo: "0 < ids_todo st"
      using False less.prems(2) by (simp add: word_less_nat_alt unat_of_nat_u32)
    define m where "m = next_codepoint n ws (- 1)"
    obtain c where c: "c \<in> set ws" "n \<le> c" using False by (metis filter_False)
    then have "m \<noteq> - 1"
      using next_codepoint_le [OF c, of "- 1"] assms(2) by (metis m_def word_order.extremum_unique)
    then have m: "m \<in> set ws" "n \<le> m" "\<forall>c\<in>set ws. c < m \<longleftrightarrow> c < n"
      using next_codepoint_least(2) [of n ws "- 1"] next_codepoint_le [of _ ws n "- 1"]
      unfolding m_def by (auto simp: not_less) (meson leD leI order_less_le_trans)
    have "1 + m \<noteq> 0" using \<open>m \<noteq> - 1\<close> by (metis add.inverse_inverse add_eq_0_iff add.commute)
    then have above: "m + 1 \<le> c \<longleftrightarrow> m < c" for c
      by (simp add: word_le_nat_alt word_less_nat_alt unatSuc add.commute Suc_le_eq)
    let ?st = "st\<lparr>ids_delta := ids_delta st + (m - n) * (ids_h st + 1)\<rparr>"
    have loop: "encode_loop mem ss se de n st =
        (if NOT (ids_delta st) div (ids_h st + 1) < m - n then Some (UV_E2BIG, ids_out st)
         else case encode_pass de m ws ?st of Inl r \<Rightarrow> Some r
           | Inr st' \<Rightarrow> encode_loop mem ss se de (m + 1) (st'\<lparr>ids_delta := ids_delta st' + 1\<rparr>))"
      using todo by (subst encode_loop.simps) (simp add: assms(1) Let_def flip: m_def)
    have pass: "case encode_pass de m ws ?st of Inl (rc, out) \<Rightarrow> rc = UV_E2BIG \<and> length out \<le> de
        | Inr st' \<Rightarrow> length (ids_out st') \<le> de \<and> ids_todo st' = ids_todo ?st - of_nat (count_list ws m)"
      using less.prems(1) by (intro encode_pass_bound) simp
    have split: "length (filter (\<lambda>c. n \<le> c) ws) = length (filter (\<lambda>c. m + 1 \<le> c) ws) + count_list ws m"
      unfolding above by (rule length_filter_from) (rule m)
    have "0 < count_list ws m" using m(1) by (simp add: count_list_0_iff neq0_conv [symmetric])
    then have "\<exists>rc out. encode_loop mem ss se de (m + 1) (st'\<lparr>ids_delta := ids_delta st' + 1\<rparr>) = Some (rc, out) \<and>
        (rc = 0 \<or> rc = UV_E2BIG) \<and> length out \<le> de"
      if "encode_pass de m ws ?st = Inr st'" for st'
      using less.hyps [of "m + 1" "st'\<lparr>ids_delta := ids_delta st' + 1\<rparr>"] pass that split less.prems by simp
    then show ?thesis
      using pass less.prems(1) unfolding loop by (auto split: sum.splits)
  qed
qed

lemma count_codepoints_word:
  "count_codepoints ws h todo =
     (if - 1 \<in> set ws then Inl UV_EINVAL
      else Inr (h + of_nat (length (filter (\<lambda>c. c < 128) ws)), todo + of_nat (length (filter (\<lambda>c. 128 \<le> c) ws))))"
  by (induction ws h todo rule: count_codepoints.induct) (auto simp: not_less)

definition label_result :: "nat \<Rightarrow> (int \<times> u8 list) option \<Rightarrow> bool" where
  "label_result de r \<longleftrightarrow>
     (\<exists>rc out. r = Some (rc, out) \<and> (0 \<le> rc \<or> rc = UV_EINVAL \<or> rc = UV_E2BIG) \<and> length out \<le> de)"

lemma label_returns:
  assumes "length out \<le> de" "se - s < 2 ^ 31"
  shows "label_result de (uv__idna_toascii_label mem s se de out)"
proof -
  define ws where "ws = foreach_codepoint mem s se"
  have len: "length ws < 2 ^ 31" using foreach_codepoint_length [of mem s se] assms(2) by (simp add: ws_def)
  show ?thesis
  proof (cases "- 1 \<in> set ws")
    case True
    then show ?thesis
      using assms(1) by (simp add: uv__idna_toascii_label_def count_codepoints_word label_result_def flip: ws_def)
  next
    case False
    let ?h = "of_nat (length (filter (\<lambda>c. c < 128) ws)) :: u32" and ?todo = "of_nat (length (filter (\<lambda>c. 128 \<le> c) ws)) :: u32"
    define o1 where "o1 = (if 0 < ?todo then put de 45 (put de 45 (put de 110 (put de 120 out))) else out)"
    define o2 where "o2 = copy_ascii de ?h ws 0 o1"
    have o2: "length o2 \<le> de" using assms(1) by (simp add: o1_def o2_def copy_ascii_bound put_bound)
    let ?st = "\<lparr>ids_h = ?h, ids_bias = 72, ids_delta = 0, ids_todo = ?todo, ids_first = True,
      ids_out = if 0 < ?h then put de 45 o2 else o2\<rparr>"
    have "length (filter (\<lambda>c. c < 128) ws) < 2 ^ 31" by (rule order_le_less_trans [OF length_filter_le len])
    then have "0 \<le> sint ?h" by (simp add: signed_of_nat signed_take_bit_int_eq_self)
    moreover have "\<exists>rc out. encode_loop mem s se de 128 ?st = Some (rc, out) \<and> (rc = 0 \<or> rc = UV_E2BIG) \<and> length out \<le> de"
      using len False o2 by (intro encode_loop_returns) (simp_all add: ws_def [symmetric] put_bound)
    moreover have "uv__idna_toascii_label mem s se de out =
        (if ?todo = 0 then Some (sint ?h, o2) else encode_loop mem s se de 128 ?st)"
      using False unfolding uv__idna_toascii_label_def ws_def [symmetric] count_codepoints_word o2_def o1_def Let_def by simp
    ultimately show ?thesis using o2 by (auto simp: label_result_def)
  qed
qed

lemma toascii_labels_returns:
  assumes "length out \<le> de" "s \<le> si" "se - s < 2 ^ 31"
  shows "case toascii_labels mem s si se de out of
      None \<Rightarrow> False
    | Some (Inl (rc, out')) \<Rightarrow> (rc = UV_EINVAL \<or> rc = UV_E2BIG) \<and> length out' \<le> de
    | Some (Inr (s', out')) \<Rightarrow> s \<le> s' \<and> length out' \<le> de"
  using assms
proof (induction mem s si se de out rule: toascii_labels.induct)
  case (1 mem s si se de out)
  show ?case
  proof (cases "si < se")
    case True
    obtain c si' where d: "uv__utf8_decode1 mem si se = (c, si')" by fastforce
    have "si < si'" by (rule decode1_advances [OF d])
    have "label_result de (uv__idna_toascii_label mem s si de out)"
      using 1(3,5) True by (intro label_returns) simp_all
    then obtain rc out' where l: "uv__idna_toascii_label mem s si de out = Some (rc, out')"
      "0 \<le> rc \<or> rc = UV_EINVAL \<or> rc = UV_E2BIG" "length out' \<le> de"
      unfolding label_result_def by blast
    show ?thesis
    proof (cases "label_separator c \<and> 0 \<le> rc")
      case sep: True
      have "se - si' < 2 ^ 31" "s \<le> si'" using \<open>si < si'\<close> 1(4,5) by simp_all
      then show ?thesis
        using 1(2) [OF True d [symmetric] _ l(1) refl] l(2) d sep True put_bound [OF l(3), of 46]
        by (simp add: toascii_labels.simps [of mem s] l(1) split: option.splits sum.splits) auto
    next
      case False
      then show ?thesis
        using 1(1) [OF True d [symmetric]] 1(3-) \<open>si < si'\<close> l d True
        by (auto simp: toascii_labels.simps [of mem s si])
    qed
  next
    case False
    then show ?thesis using 1 by (simp add: toascii_labels.simps)
  qed
qed

lemma toascii_returns:
  assumes "se - s < 2 ^ 31"
  shows "\<exists>rc out. uv__idna_toascii mem s se de = Some (rc, out) \<and> length out \<le> de \<and>
    (rc = int (length out) \<or> rc = UV_EINVAL \<or> rc = UV_E2BIG)"
proof -
  note labels = toascii_labels_returns [of "[]" de s s se mem]
  show ?thesis
  proof (cases "toascii_labels mem s s se de []")
    case None
    then show ?thesis using labels assms by simp
  next
    case (Some r)
    show ?thesis
    proof (cases r)
      case (Inl e)
      then show ?thesis using labels assms Some by (cases e) (auto simp: uv__idna_toascii_def)
    next
      case (Inr t)
      obtain s' out where t: "t = (s', out)" by fastforce
      then have "s \<le> s'" "length out \<le> de" using labels assms Some Inr by simp_all
      then have "label_result de (if s' < se then uv__idna_toascii_label mem s' se de out else Some (0, out))"
        using label_returns [of out de se s' mem] assms by (auto simp: label_result_def)
      then show ?thesis
        using Some Inr t put_bound
        by (auto simp: uv__idna_toascii_def label_result_def Let_def)
    qed
  qed
qed

section \<open>Host names\<close>

definition separators :: "nat list" where
  "separators = [46, 0x3002, 0xFF0E, 0xFF61]"

definition host_label :: "nat list \<Rightarrow> bool" where
  "host_label cs \<longleftrightarrow> list_all (\<lambda>c. scalar_value c \<and> c \<notin> set separators) cs \<and> length cs \<le> label_limit"

text \<open>A name: labels with the separators behind them, and a last label.\<close>

definition host_name :: "(nat list \<times> nat) list \<Rightarrow> nat list \<Rightarrow> nat list" where
  "host_name front rear = concat (map (\<lambda>(label, sep). label @ [sep]) front) @ rear"

lemma label_separator_of_nat: "c < 0x110000 \<Longrightarrow> label_separator (of_nat c) \<longleftrightarrow> c \<in> set separators"
  by (auto simp: label_separator_def separators_def word_unat_eq_iff unat_of_nat_u32)

lemma separator_scalar: "c \<in> set separators \<Longrightarrow> scalar_value c"
  by (auto simp: separators_def scalar_value_def)

lemma utf8_nonempty: "0 < length (utf8 n)"
  by (simp add: utf8_def)

lemma toascii_labels_skip:
  assumes "list_all (\<lambda>c. scalar_value c \<and> c \<notin> set separators) cs" "holds mem si (text_bytes cs)" "si + length (text_bytes cs) \<le> se"
  shows "toascii_labels mem s si se de out = toascii_labels mem s (si + length (text_bytes cs)) se de out"
  using assms
proof (induction cs arbitrary: si)
  case (Cons c cs)
  then have "uv__utf8_decode1 mem si se = (of_nat c, si + length (utf8 c))" by (intro decode1_utf8) simp_all
  moreover have "\<not> label_separator (of_nat c)" using Cons.prems(1) by (simp add: label_separator_of_nat scalar_less)
  moreover have "si < se" using Cons.prems(3) utf8_nonempty [of c] by (simp del: length_greater_0_conv)
  ultimately show ?case
    using Cons.IH [of "si + length (utf8 c)"] Cons.prems by (simp add: toascii_labels.simps [of mem s si] add.assoc)
qed simp

lemma label_text:
  assumes "host_label cs" "holds mem s (text_bytes cs)" "se = s + length (text_bytes cs)"
  shows "\<exists>rc label. uv__idna_toascii_label mem s se de (take de out) = Some (rc, take de (out @ label)) \<and> 0 \<le> rc \<and> ascii_form cs label"
proof -
  have cs: "list_all scalar_value cs" "length cs \<le> label_limit" using assms(1) by (auto simp: host_label_def list_all_iff)
  have mem: "foreach_codepoint mem s se = map of_nat cs"
    using foreach_codepoint_text [OF cs(1) assms(2)] assms(3) by simp
  show ?thesis
  proof (cases "list_all (\<lambda>c. c < 128) cs")
    case True
    then show ?thesis using label_copied [OF cs(2) True mem, of de out] by (auto simp: ascii_form_def)
  next
    case False
    then show ?thesis using label_encoded [OF cs False mem, of de out] by fastforce
  qed
qed

lemma toascii_labels_text:
  assumes "\<forall>(label, sep)\<in>set front. host_label label \<and> sep \<in> set separators" "host_label rear"
    and "holds mem s (text_bytes (host_name front rear))" "se = s + length (text_bytes (host_name front rear))"
  shows "\<exists>forms s'. list_all2 ascii_form (map fst front) forms \<and> holds mem s' (text_bytes rear) \<and> se = s' + length (text_bytes rear) \<and>
    toascii_labels mem s s se de (take de out) = Some (Inr (s', take de (out @ concat (map (\<lambda>f. f @ [46]) forms))))"
  using assms
proof (induction front arbitrary: s out)
  case Nil
  then have "toascii_labels mem s s se de (take de out) = toascii_labels mem s se se de (take de out)"
    using toascii_labels_skip [of rear mem s se] by (auto simp: host_name_def host_label_def)
  with Nil show ?case by (auto simp: host_name_def toascii_labels.simps)
next
  case (Cons lf front)
  obtain label sep where lf: "lf = (label, sep)" by fastforce
  let ?e = "s + length (text_bytes label)" and ?n = "s + length (text_bytes label) + length (utf8 sep)"
  have ok: "host_label label" "sep \<in> set separators" using Cons.prems(1) lf by auto
  have mem: "holds mem s (text_bytes label)" "holds mem ?e (utf8 sep)" "holds mem ?n (text_bytes (host_name front rear))"
    and se: "se = ?n + length (text_bytes (host_name front rear))"
    using Cons.prems(3,4) lf by (simp_all add: host_name_def add.assoc)
  obtain rc form where form: "uv__idna_toascii_label mem s ?e de (take de out) = Some (rc, take de (out @ form))" "0 \<le> rc"
    "ascii_form label form"
    using label_text [OF ok(1) mem(1) refl] by blast
  have "uv__utf8_decode1 mem ?e se = (of_nat sep, ?n)"
    using separator_scalar [OF ok(2)] mem(2) se by (intro decode1_utf8) simp_all
  moreover have "label_separator (of_nat sep)"
    using label_separator_of_nat [OF scalar_less [OF separator_scalar [OF ok(2)]]] ok(2) by simp
  moreover have "?e < se" using utf8_nonempty [of sep] se by simp
  ultimately have step: "toascii_labels mem s s se de (take de out) = toascii_labels mem ?n ?n se de (take de (out @ form @ [46]))"
    using toascii_labels_skip [of label mem s se s de "take de out"] ok(1) mem(1) form(1,2)
    by (simp add: host_label_def toascii_labels.simps [of mem s ?e] put_take del: take_append)
  obtain forms s' where "list_all2 ascii_form (map fst front) forms" "holds mem s' (text_bytes rear)" "se = s' + length (text_bytes rear)"
    "toascii_labels mem ?n ?n se de (take de (out @ form @ [46])) =
      Some (Inr (s', take de ((out @ form @ [46]) @ concat (map (\<lambda>f. f @ [46]) forms))))"
    using Cons.IH [of ?n "out @ form @ [46]"] Cons.prems(1,2) mem(3) se by auto
  with step form(3) show ?case
    by (intro exI [of _ "form # forms"] exI [of _ s']) (simp add: lf del: take_append)
qed

text \<open>The conversion of a name whose labels are well-formed.\<close>

lemma toascii_text:
  assumes "\<forall>(label, sep)\<in>set front. host_label label \<and> sep \<in> set separators" "host_label rear"
    and "holds mem s (text_bytes (host_name front rear))" "se = s + length (text_bytes (host_name front rear))"
  shows "\<exists>forms form out. list_all2 ascii_form (map fst front) forms \<and> ascii_form rear form \<and>
    out = take de (concat (map (\<lambda>f. f @ [46]) forms) @ form @ [0]) \<and>
    uv__idna_toascii mem s se de = Some (int (length out), out)"
proof -
  obtain forms s' where labels: "list_all2 ascii_form (map fst front) forms" "holds mem s' (text_bytes rear)"
      "se = s' + length (text_bytes rear)"
      "toascii_labels mem s s se de (take de []) = Some (Inr (s', take de ([] @ concat (map (\<lambda>f. f @ [46]) forms))))"
    using toascii_labels_text [OF assms] by blast
  obtain rc form where form: "uv__idna_toascii_label mem s' se de (take de (concat (map (\<lambda>f. f @ [46]) forms))) =
      Some (rc, take de (concat (map (\<lambda>f. f @ [46]) forms) @ form))" "0 \<le> rc" "ascii_form rear form"
    using label_text [OF assms(2) labels(2,3)] by blast
  have "form = []" if "\<not> s' < se"
    using that labels(3) form(3) utf8_nonempty by (cases rear) (auto simp: ascii_form_def)
  with labels(4) form have "uv__idna_toascii mem s se de = (let out = put de 0 (take de (concat (map (\<lambda>f. f @ [46]) forms) @ form))
      in Some (int (length out), out))"
    by (auto simp: uv__idna_toascii_def Let_def simp del: take_append)
  then show ?thesis using labels(1) form(3) by (auto simp: put_take Let_def simp del: take_append)
qed

section \<open>The host name of a request\<close>

lemma c_strlen_string:
  assumes "holds mem p (xs @ [0])" "0 \<notin> set xs"
  shows "c_strlen mem p 0 = Some (length xs)"
proof -
  have "c_strlen mem p n = Some (length xs)" if "n \<le> length xs" for n
    using that
  proof (induction "length xs - n" arbitrary: n)
    case 0
    then show ?case using assms(1) by (simp add: c_strlen.simps [of mem p n])
  next
    case (Suc k)
    then have "n < length xs" by simp
    moreover from this have "mem (p + n) = xs ! n" using assms(1) by (simp add: holds_def nth_append)
    ultimately have "mem (p + n) \<noteq> 0" using assms(2) by (metis nth_mem)
    then show ?case using Suc.hyps(1) [of "n + 1"] Suc.hyps(2) \<open>n < length xs\<close> by (simp add: c_strlen.simps [of mem p n])
  qed
  then show ?thesis by simp
qed

lemma string_copy_string:
  assumes "holds mem p (xs @ [0])" "0 \<notin> set xs"
  shows "string_copy mem (Some p) = Some (xs @ [0])"
proof -
  have "map (\<lambda>i. mem (p + i)) [0..<length (xs @ [0])] = xs @ [0]"
    using assms(1) by (intro nth_equalityI) (simp_all only: holds_def length_map length_upt nth_map nth_upt, simp)
  then show ?thesis using c_strlen_string [OF assms] by (simp add: string_copy_def)
qed

lemma holds_overwritten: "holds (overwritten out stack) 0 out" "length out \<le> k \<Longrightarrow> holds (overwritten out stack) k xs \<longleftrightarrow> holds stack k xs"
  by (auto simp: holds_def overwritten_def)

lemma ascii_form_no_zero: "\<lbrakk>ascii_form cs label; 0 \<notin> set cs\<rbrakk> \<Longrightarrow> 0 \<notin> set label"
  by (auto simp: ascii_form_def list_all_iff word_unat_eq_iff unat_of_nat_u8 digit_value_def split: if_splits
      dest: bspec [where x = "0 :: u8"])

lemma utf8_no_zero: "n \<noteq> 0 \<Longrightarrow> n < 0x110000 \<Longrightarrow> 0 \<notin> set (utf8 n)"
proof -
  assume "n \<noteq> 0" "n < 0x110000"
  then have "240 + n div 262144 < 256" by (simp add: div_less_iff_less_mult)
  moreover have "n < 0x800 \<Longrightarrow> 192 + n div 64 < 256" "n < 0x10000 \<Longrightarrow> 224 + n div 4096 < 256"
    by (simp_all add: div_less_iff_less_mult)
  ultimately show ?thesis using \<open>n \<noteq> 0\<close>
    by (auto simp: utf8_def word_unat_eq_iff unat_of_nat_u8 simp del: of_nat_add)
qed

lemma ascii_hostname_short:
  assumes "holds mem p (xs @ [0])" "0 \<notin> set xs" "uv__idna_toascii mem p (p + length xs) 256 = Some (int (length out), out)"
  shows "ascii_hostname mem stack (Some p) = Some (Inr (Some (overwritten out stack)))"
  using c_strlen_string [OF assms(1,2)] assms(3) by (simp add: ascii_hostname_def)

definition joined :: "u8 list list \<Rightarrow> u8 list \<Rightarrow> u8 list" where
  "joined forms form = concat (map (\<lambda>f. f @ [46]) forms) @ form"

lemma text_bytes_no_zero: "\<lbrakk>list_all scalar_value cs; 0 \<notin> set cs\<rbrakk> \<Longrightarrow> 0 \<notin> set (text_bytes cs)"
  by (induction cs) (use utf8_no_zero scalar_less in auto)

lemma host_name_scalars:
  "\<lbrakk>\<forall>(label, sep)\<in>set front. host_label label \<and> sep \<in> set separators; host_label rear\<rbrakk> \<Longrightarrow> list_all scalar_value (host_name front rear)"
  by (auto simp: host_name_def host_label_def list_all_iff dest: separator_scalar)

lemma joined_no_zero:
  assumes "list_all2 ascii_form labels forms" "ascii_form rear form" "\<forall>l\<in>set labels. 0 \<notin> set l" "0 \<notin> set rear"
  shows "0 \<notin> set (joined forms form)"
  using assms by (induction labels forms rule: list_all2_induct) (auto simp: joined_def ascii_form_no_zero)

lemma request_of_copies:
  assumes "ascii_hostname mem stack (Some p) = Some (Inr (Some m))" "string_copy m (Some 0) = Some host"
    "string_copy mem service = Some sv" "uv__malloc (length host + length sv + length (case hints of None \<Rightarrow> [] | Some h \<Rightarrow> h))"
  shows "uv_getaddrinfo uv__malloc mem stack True (Some p) service hints =
    Some (Inr \<lparr>gai_buf = (case hints of None \<Rightarrow> [] | Some h \<Rightarrow> h) @ sv @ host, gai_hints = (if hints = None then None else Some 0),
      gai_service = (if service = None then None else Some (length (case hints of None \<Rightarrow> [] | Some h \<Rightarrow> h))),
      gai_hostname = Some (length (case hints of None \<Rightarrow> [] | Some h \<Rightarrow> h) + length sv), gai_retcode = 0\<rparr>)"
  using assms by (simp add: uv_getaddrinfo_def Let_def)

lemma truncated_copy:
  assumes "holds mem p (xs @ [0])" "0 \<notin> set xs" "out = take 256 (full @ [0])" "0 \<notin> set full"
    and "uv__idna_toascii mem p (p + length xs) 256 = Some (int (length out), out)"
    and "256 \<le> length full \<Longrightarrow> holds stack 256 (behind @ [0]) \<and> 0 \<notin> set behind"
  shows "\<exists>m. ascii_hostname mem stack (Some p) = Some (Inr (Some m)) \<and>
    string_copy m (Some 0) = Some (if length full < 256 then full @ [0] else take 256 full @ behind @ [0])"
proof (intro exI conjI)
  let ?m = "overwritten out stack"
  show "ascii_hostname mem stack (Some p) = Some (Inr (Some ?m))"
    using assms(1,2,5) by (rule ascii_hostname_short)
  show "string_copy ?m (Some 0) = Some (if length full < 256 then full @ [0] else take 256 full @ behind @ [0])"
  proof (cases "length full < 256")
    case True
    then have "holds ?m 0 (full @ [0])" using holds_overwritten(1) [of out stack] assms(3) by (simp del: take_append)
    then show ?thesis using True assms(4) string_copy_string by simp
  next
    case False
    then have out: "out = take 256 full" "length out = 256" using assms(3) by simp_all
    moreover have "holds ?m 0 (out @ behind @ [0])"
      using holds_overwritten(1) [of out stack] holds_overwritten(2) [of out 256 stack "behind @ [0]"] assms(6) False out(2)
      by (simp only: holds_append [of ?m 0 out]) simp
    moreover have "0 \<notin> set (out @ behind)" using assms(4,6) False out(1) by (auto dest: in_set_takeD)
    ultimately show ?thesis using False string_copy_string [of ?m 0 "out @ behind"] by simp
  qed
qed

section \<open>Truncated and malformed sequences\<close>

lemma word_xor_eq_left: "a XOR b = a \<longleftrightarrow> b = (0 :: 'a::len word)"
  by (auto simp: bit_eq_iff bit_simps)

lemma xor_mark:
  fixes a c d :: u32
  shows "0xC0 AND ((0x80 OR (a AND 15)) XOR c XOR d) = 0x80 \<longleftrightarrow> 0xC0 AND c = 0xC0 AND d"
proof -
  have "0xC0 AND ((0x80 OR (a AND 15)) XOR c XOR d) = (0xC0 AND (0x80 OR (a AND 15))) XOR (0xC0 AND c) XOR (0xC0 AND d)"
    by (rule bit_word_eqI) (auto simp: bit_simps)
  also have "\<dots> = 0x80 XOR ((0xC0 AND c) XOR (0xC0 AND d))" by (simp only: marked_byte)
  finally show ?thesis by (simp only: word_xor_eq_left word_xor_eq_0_iff)
qed

lemma three_byte_parts:
  assumes "unat (mem p) = 224 + x" "x < 16" "p \<noteq> pe"
  shows "uv__utf8_decode1 mem p pe = uv__utf8_decode1_slow mem (p + 1) pe (ucast (mem p))"
    and "utf8_parts mem (p + 1) pe (ucast (mem p)) =
      Some (0x800, 0, 0x80 OR (ucast (mem p) AND 15), ucast (mem (p + 1)), ucast (mem (p + 2)), p + 3)"
    and "\<not> 0xF7 < (ucast (mem p) :: u32)"
  using assms by (simp_all add: uv__utf8_decode1_def utf8_parts_def word_less_nat_alt numeral_3_eq_3)

lemma three_byte_scalar: "\<lbrakk>y < 64; z < 64; x < 16; x \<noteq> 13\<rbrakk> \<Longrightarrow> scalar_value ((x * 64 + y) * 64 + z)"
  by (cases "x < 13") (auto simp: scalar_value_def)

lemma decode1_mixed:
  assumes "unat (mem p) = 224 + x" "0 < x" "x < 16" "x \<noteq> 13" "p \<noteq> pe"
  shows "uv__utf8_decode1 mem p pe =
    (if unat (mem (p + 1)) div 64 = unat (mem (p + 2)) div 64
     then of_nat ((x * 64 + unat (mem (p + 1)) mod 64) * 64 + unat (mem (p + 2)) mod 64) else - 1, p + 3)"
proof -
  let ?c = "mem (p + 1)" and ?d = "mem (p + 2)"
  note parts = three_byte_parts [of mem p x pe, OF assms(1,3,5)]
  have "(of_nat (unat ?c div 64 * 64) :: u32) = of_nat (unat ?d div 64 * 64) \<longleftrightarrow> unat ?c div 64 = unat ?d div 64"
    using u8_le [of ?c] u8_le [of ?d] of_nat_u32_less(3) [of "unat ?c div 64 * 64" "unat ?d div 64 * 64"] by simp
  then have mark: "0xC0 AND ((0x80 OR (ucast (mem p) AND 15)) XOR ucast ?c XOR (ucast ?d :: u32)) = 0x80 \<longleftrightarrow>
      unat ?c div 64 = unat ?d div 64"
    unfolding xor_mark top_two_bits .
  show ?thesis
  proof (cases "unat ?c div 64 = unat ?d div 64")
    case True
    let ?n = "(x * 64 + unat ?c mod 64) * 64 + unat ?d mod 64"
    have "uv__utf8_decode1_slow mem (p + 1) pe (ucast (mem p)) = (of_nat ?n, p + 3)"
      using parts(2,3) mark [THEN iffD2, OF True]
    proof (rule decode1_slow_assemble)
      show "?n = ((unat (0::u32) * 64 + unat ((0x80 OR (ucast (mem p) AND 15)) AND (63::u32))) * 64 +
          unat ((ucast ?c :: u32) AND 63)) * 64 + unat ((ucast ?d :: u32) AND 63)"
        unfolding marked_low lead_word using assms(1,3) by (simp add: lead_mod)
      show "scalar_value ?n" using assms(3,4) by (intro three_byte_scalar) simp_all
    qed (use assms(2) in simp_all)
    with True parts(1) show ?thesis by simp
  next
    case False
    then have "uv__utf8_decode1_slow mem (p + 1) pe (ucast (mem p)) = (- 1, p + 3)"
      unfolding uv__utf8_decode1_slow_def parts(2) option.case prod.case using parts(3) mark by simp
    with False parts(1) show ?thesis by simp
  qed
qed



section \<open>Properties\<close>

text \<open>C11: A host name whose labels are well-formed UTF-8 is converted label by label: a label of ASCII characters
  is copied, any other is written as the prefix \<^verbatim>\<open>xn--\<close> and digits that the decoder of RFC 3492 turns back into the
  code points of the label. The four kinds of full stop become a dot, the result is cut off at the end of the
  buffer and the return value is the number of bytes written.\<close>

theorem idna_toascii_correct:
  assumes "\<forall>(label, sep)\<in>set front. host_label label \<and> sep \<in> set separators" "host_label rear"
    and "holds mem s (text_bytes (host_name front rear))" "se = s + length (text_bytes (host_name front rear))"
  shows "\<exists>forms form out. list_all2 ascii_form (map fst front) forms \<and> ascii_form rear form \<and>
    out = take de (joined forms form @ [0]) \<and> uv__idna_toascii mem s se de = Some (int (length out), out)"
  using toascii_text [OF assms] by (simp add: joined_def)

theorem idna_toascii_correct_witness:
  "\<exists>forms form out. list_all2 ascii_form [[109, 0xFC]] forms \<and> ascii_form [99, 104] form \<and>
    out = take 40 (joined forms form @ [0]) \<and>
    uv__idna_toascii (nth [109, 0xC3, 0xBC, 0xE3, 0x80, 0x82, 99, 104]) 0 8 40 = Some (int (length out), out)"
  using idna_toascii_correct [of "[([109, 0xFC], 0x3002)]" "[99, 104]" "nth [109, 0xC3, 0xBC, 0xE3, 0x80, 0x82, 99, 104]" 0 8 40]
  by (simp add: host_label_def scalar_value_def separators_def label_limit_def host_name_def utf8_def)

text \<open>C29: Whatever bytes the memory holds, the conversion returns, writes nothing behind the end of the buffer, and
  its result is the number of bytes written, \<^verbatim>\<open>UV_EINVAL\<close> or \<^verbatim>\<open>UV_E2BIG\<close>.\<close>

theorem idna_toascii_returns:
  assumes "se - s < 2 ^ 31"
  shows "\<exists>rc out. uv__idna_toascii mem s se de = Some (rc, out) \<and> length out \<le> de \<and>
    (rc = int (length out) \<or> rc = UV_EINVAL \<or> rc = UV_E2BIG)"
  using assms by (rule toascii_returns)

theorem idna_toascii_returns_witness:
  "\<exists>rc out. uv__idna_toascii (\<lambda>_. 0xFF) 0 300 256 = Some (rc, out) \<and> length out \<le> 256 \<and>
    (rc = int (length out) \<or> rc = UV_EINVAL \<or> rc = UV_E2BIG)"
  using idna_toascii_returns [of 300 0 "\<lambda>_. 0xFF" 256] by simp

text \<open>C32: The decoder returns a Unicode scalar value or the error -1, and consumes one to four bytes, on every memory.\<close>

theorem utf8_decode1_type:
  "\<exists>c p'. uv__utf8_decode1 mem p pe = (c, p') \<and> (c = - 1 \<or> scalar_value (unat c)) \<and> p < p' \<and> p' \<le> p + 4"
  using decode1_value [of mem p pe] by (cases "uv__utf8_decode1 mem p pe") simp

text \<open>C30: On every code point that \<^verbatim>\<open>cbs_get_utf8\<close> of BoringSSL reads, the decoder of libuv returns the same value and
  stops at the same byte.\<close>

theorem utf8_decoders_agree:
  assumes "cbs_get_utf8 bs = Some (u, r)" "holds mem p bs" "p + length bs \<le> pe"
  shows "uv__utf8_decode1 mem p pe = (u, p + (length bs - length r))"
proof -
  have u: "is_valid_code_point u" "bs = utf8 (unat u) @ r" using assms(1) by (simp_all add: utf8_codec.dec_iff)
  have "scalar_value (unat u)"
    using u(1) by (auto simp: is_valid_code_point_def scalar_value_def word_le_nat_alt word_less_nat_alt)
  then show ?thesis using decode1_utf8 [of "unat u" mem p pe] u(2) assms(2,3) by simp
qed

theorem utf8_decoders_agree_witness:
  "uv__utf8_decode1 (nth [0xE2, 0x82, 0xAC, 33]) 0 4 = (0x20AC, 3)"
  using utf8_decoders_agree [of "[0xE2, 0x82, 0xAC, 33]" "0x20AC" "[33]" "nth [0xE2, 0x82, 0xAC, 33]" 0 4]
  by (simp add: utf8_codec.dec_iff is_valid_code_point_def utf8_def)

text \<open>C31: A host name of well-formed labels without zero bytes reaches the request in its ASCII form: the block of
  the request holds the hints, the service and the form, each string with its terminator, at the offsets that the
  request records, when the form and its terminator fit into the array of 256 bytes. A longer form is cut off at 256
  bytes and continued by the bytes of the stack behind the array up to the first zero.\<close>

theorem getaddrinfo_hostname:
  assumes "\<forall>(label, sep)\<in>set front. host_label label \<and> sep \<in> set separators" "host_label rear" "0 \<notin> set (host_name front rear)"
    and "holds mem p (text_bytes (host_name front rear) @ [0])" "holds mem q (sv @ [0])" "0 \<notin> set sv" "\<forall>n. uv__malloc n"
    and "holds stack 256 (behind @ [0])" "0 \<notin> set behind"
  shows "\<exists>forms form. list_all2 ascii_form (map fst front) forms \<and> ascii_form rear form \<and>
     uv_getaddrinfo uv__malloc mem stack True (Some p) (Some q) (Some h) =
       Some (Inr \<lparr>gai_buf = h @ (sv @ [0]) @
           (if length (joined forms form) < 256 then joined forms form @ [0] else take 256 (joined forms form) @ behind @ [0]),
         gai_hints = Some 0, gai_service = Some (length h), gai_hostname = Some (length h + length (sv @ [0])), gai_retcode = 0\<rparr>)"
proof -
  let ?xs = "text_bytes (host_name front rear)"
  have nz: "0 \<notin> set ?xs" using text_bytes_no_zero [OF host_name_scalars [OF assms(1,2)] assms(3)] .
  obtain forms form where f: "list_all2 ascii_form (map fst front) forms" "ascii_form rear form"
    and out: "uv__idna_toascii mem p (p + length ?xs) 256 =
      Some (int (length (take 256 (joined forms form @ [0]))), take 256 (joined forms form @ [0]))"
    using toascii_text [OF assms(1,2) _ refl, of mem p 256] assms(4) unfolding joined_def by (auto simp del: take_append)
  let ?host = "if length (joined forms form) < 256 then joined forms form @ [0] else take 256 (joined forms form) @ behind @ [0]"
  have "0 \<notin> set (joined forms form)"
    using f assms(3) by (intro joined_no_zero) (auto simp: host_name_def)
  from truncated_copy [OF assms(4) nz refl this out, of stack behind] assms(8,9)
  obtain m where "ascii_hostname mem stack (Some p) = Some (Inr (Some m))" "string_copy m (Some 0) = Some ?host" by blast
  from request_of_copies [OF this string_copy_string [OF assms(5,6)], of uv__malloc "Some h"] assms(7) f show ?thesis
    by (intro exI [of _ forms] exI [of _ form]) simp
qed

theorem getaddrinfo_hostname_witness:
  "\<exists>forms form. list_all2 ascii_form (map fst [([109, 0xFC], 46 :: nat)]) forms \<and> ascii_form [99, 104] form \<and>
     uv_getaddrinfo (\<lambda>_. True) (nth [109, 0xC3, 0xBC, 46, 99, 104, 0, 56, 48, 0]) (\<lambda>_. 0) True (Some 0) (Some 7) (Some [1, 2]) =
       Some (Inr \<lparr>gai_buf = [1, 2] @ ([56, 48] @ [0]) @
           (if length (joined forms form) < 256 then joined forms form @ [0] else take 256 (joined forms form) @ [] @ [0]),
         gai_hints = Some 0, gai_service = Some (length ([1, 2] :: u8 list)),
         gai_hostname = Some (length ([1, 2] :: u8 list) + length ([56, 48] @ [0 :: u8])), gai_retcode = 0\<rparr>)"
  by (rule getaddrinfo_hostname)
     (simp_all add: host_label_def scalar_value_def separators_def label_limit_def host_name_def utf8_def)



text \<open>C38: The test of the continuation bytes only looks at the exclusive or of their two top bits: behind the lead byte
  of a three-byte sequence the decoder accepts any two bytes that agree in these bits, for instance two ASCII
  letters, and it reads them without regard to the end of the input.\<close>

theorem utf8_decode1_mixed:
  assumes "unat (mem p) = 224 + x" "0 < x" "x < 16" "x \<noteq> 13" "p \<noteq> pe"
  shows "uv__utf8_decode1 mem p pe =
    (if unat (mem (p + 1)) div 64 = unat (mem (p + 2)) div 64
     then of_nat ((x * 64 + unat (mem (p + 1)) mod 64) * 64 + unat (mem (p + 2)) mod 64) else - 1, p + 3)"
  using assms by (rule decode1_mixed)

theorem utf8_decode1_mixed_witness: "uv__utf8_decode1 (nth [0xE3, 0x41, 0x41]) 0 3 = (0x3041, 3)"
  using utf8_decode1_mixed [of "nth [0xE3, 0x41, 0x41]" 0 3 3] by simp



end
