(* ===== verification/Pb_Stream.thy ===== *)
theory Pb_Stream
  imports Prelude
begin

text \<open>
  Protocol buffer streams and wire values: the stream layer of \<^verbatim>\<open>nanopb/pb_encode.c\<close> and \<^verbatim>\<open>pb_decode.c\<close>.
  The state of a stream belongs to its callback and is a type parameter; a callback is a function on that
  state. \<^verbatim>\<open>uint_fast8_t\<close> is eight bits wide, as in the headers of the target.
\<close>

section \<open>Model: output streams\<close>

text \<open>A null callback marks a stream that only counts.\<close>

record 's pb_ostream =
  os_callback :: "('s \<Rightarrow> u8 list \<Rightarrow> bool \<times> 's) option"
  os_state :: 's
  os_max_size :: nat
  os_bytes_written :: nat
  os_errmsg :: "string option"

definition os_error :: "'s pb_ostream \<Rightarrow> string \<Rightarrow> bool \<times> 's pb_ostream" where
  "os_error st msg = (False, st\<lparr>os_errmsg := (case os_errmsg st of None \<Rightarrow> Some msg | Some m \<Rightarrow> Some m)\<rparr>)"

text \<open>The state of a buffer stream: the memory and the position of the pointer in it.\<close>

definition buf_write :: "u8 list \<times> nat \<Rightarrow> u8 list \<Rightarrow> bool \<times> (u8 list \<times> nat)" where
  "buf_write dest buf = (case dest of (mem, pos) \<Rightarrow> (True, mem_write mem pos buf, pos + length buf))"

definition pb_ostream_from_buffer :: "u8 list \<Rightarrow> nat \<Rightarrow> (u8 list \<times> nat) pb_ostream" where
  "pb_ostream_from_buffer buf bufsize =
     \<lparr>os_callback = Some buf_write, os_state = (buf, 0), os_max_size = bufsize, os_bytes_written = 0, os_errmsg = None\<rparr>"

definition PB_OSTREAM_SIZING :: "'s \<Rightarrow> 's pb_ostream" where
  "PB_OSTREAM_SIZING null = \<lparr>os_callback = None, os_state = null, os_max_size = 0, os_bytes_written = 0, os_errmsg = None\<rparr>"

definition pb_write :: "'s pb_ostream \<Rightarrow> u8 list \<Rightarrow> nat \<Rightarrow> bool \<times> 's pb_ostream" where
  "pb_write st buf count =
     (let done = (\<lambda>st. (True, st\<lparr>os_bytes_written := size_add (os_bytes_written st) count\<rparr>))
      in case os_callback st of
           None \<Rightarrow> done st
         | Some callback \<Rightarrow>
             if count = 0 then done st
             else if size_add (os_bytes_written st) count < os_bytes_written st \<or>
               os_max_size st < size_add (os_bytes_written st) count
             then os_error st ''stream full''
             else
               (case callback (os_state st) (take count buf) of
                  (ok, s) \<Rightarrow> if ok then done (st\<lparr>os_state := s\<rparr>) else os_error (st\<lparr>os_state := s\<rparr>) ''io error''))"

text \<open>The bytes that the loop puts into its buffer, the top bit of the last one still set.\<close>

function varint_loop :: "u64 \<Rightarrow> u8 list" where
  "varint_loop value = (if value = 0 then [] else (ucast (value AND 0x7f) OR 0x80) # varint_loop (drop_bit 7 value))"
  by pat_completeness auto
termination
proof (relation "measure unat")
  fix v :: u64
  assume "v \<noteq> 0"
  then have "0 < unat v" by (simp add: unat_gt_0)
  then have "unat v div 128 < unat v" by simp
  then show "(drop_bit 7 v, v) \<in> measure unat" by (simp add: unat_drop_bit)
qed simp

declare varint_loop.simps [simp del]

definition pb_encode_varint :: "'s pb_ostream \<Rightarrow> u64 \<Rightarrow> bool \<times> 's pb_ostream" where
  "pb_encode_varint st value =
     (if value \<le> 0x7f then pb_write st [ucast value] 1
      else
        (let buffer = varint_loop value; i = length buffer
         in pb_write st (buffer[i - 1 := buffer ! (i - 1) AND 0x7f]) i))"

text \<open>A signed integer is the word of its two's complement.\<close>

definition pb_encode_svarint :: "'s pb_ostream \<Rightarrow> u64 \<Rightarrow> bool \<times> 's pb_ostream" where
  "pb_encode_svarint st value =
     (let zigzagged = (if sint value < 0 then NOT (push_bit 1 value) else push_bit 1 value)
      in pb_encode_varint st zigzagged)"

definition pb_encode_fixed32 :: "'s pb_ostream \<Rightarrow> u32 \<Rightarrow> bool \<times> 's pb_ostream" where
  "pb_encode_fixed32 st val = pb_write st (map (\<lambda>k. ucast (drop_bit (8 * k) val AND 0xff)) [0, 1, 2, 3]) 4"

definition pb_encode_fixed64 :: "'s pb_ostream \<Rightarrow> u64 \<Rightarrow> bool \<times> 's pb_ostream" where
  "pb_encode_fixed64 st val = pb_write st (map (\<lambda>k. ucast (drop_bit (8 * k) val AND 0xff)) [0, 1, 2, 3, 4, 5, 6, 7]) 8"

definition PB_WT_VARINT :: nat where
  "PB_WT_VARINT = 0"

definition PB_WT_64BIT :: nat where
  "PB_WT_64BIT = 1"

definition PB_WT_STRING :: nat where
  "PB_WT_STRING = 2"

definition PB_WT_32BIT :: nat where
  "PB_WT_32BIT = 5"

definition pb_encode_tag :: "'s pb_ostream \<Rightarrow> nat \<Rightarrow> u32 \<Rightarrow> bool \<times> 's pb_ostream" where
  "pb_encode_tag st wiretype field_number =
     (let tag = push_bit 3 (ucast field_number :: u64) OR of_nat wiretype in pb_encode_varint st tag)"

definition pb_encode_string :: "'s pb_ostream \<Rightarrow> u8 list \<Rightarrow> nat \<Rightarrow> bool \<times> 's pb_ostream" where
  "pb_encode_string st buffer sz = and_then (pb_encode_varint st (of_nat sz)) (\<lambda>st. pb_write st buffer sz)"

section \<open>Model: input streams\<close>

text \<open>
  \<open>is_buf_read\<close> says that the callback is \<^verbatim>\<open>buf_read\<close>. A callback returns the bytes it read, or \<^term>\<open>None\<close>.
\<close>

record 's pb_istream =
  is_buf_read :: bool
  is_callback :: "'s \<Rightarrow> nat \<Rightarrow> u8 list option \<times> 's"
  is_state :: 's
  is_bytes_left :: nat
  is_errmsg :: "string option"

definition is_error :: "'s pb_istream \<Rightarrow> string \<Rightarrow> 'a option \<times> 's pb_istream" where
  "is_error st msg = (None, st\<lparr>is_errmsg := (case is_errmsg st of None \<Rightarrow> Some msg | Some m \<Rightarrow> Some m)\<rparr>)"

text \<open>The state of a buffer stream is the memory from the pointer on.\<close>

definition buf_read :: "u8 list \<Rightarrow> nat \<Rightarrow> u8 list option \<times> u8 list" where
  "buf_read source count = (Some (take count source), drop count source)"

definition pb_istream_from_buffer :: "u8 list \<Rightarrow> nat \<Rightarrow> u8 list pb_istream" where
  "pb_istream_from_buffer buf bufsize =
     \<lparr>is_buf_read = True, is_callback = buf_read, is_state = buf, is_bytes_left = bufsize, is_errmsg = None\<rparr>"

text \<open>The part of \<^verbatim>\<open>pb_read\<close> after the test for a null buffer.\<close>

definition read_bytes :: "'s pb_istream \<Rightarrow> nat \<Rightarrow> u8 list option \<times> 's pb_istream" where
  "read_bytes st count =
     (if is_bytes_left st < count then is_error st ''end-of-stream''
      else
        (case is_callback st (is_state st) count of
           (None, s) \<Rightarrow> is_error (st\<lparr>is_state := s\<rparr>) ''io error''
         | (Some bs, s) \<Rightarrow> (Some bs, st\<lparr>is_state := s, is_bytes_left := is_bytes_left st - count\<rparr>)))"

function skip_bytes :: "'s pb_istream \<Rightarrow> nat \<Rightarrow> u8 list option \<times> 's pb_istream" where
  "skip_bytes st count =
     (if 16 < count
      then (case read_bytes st 16 of (None, st') \<Rightarrow> (None, st') | (Some _, st') \<Rightarrow> skip_bytes st' (count - 16))
      else if count = 0 then (Some [], st)
      else read_bytes st count)"
  by pat_completeness auto
termination
  by (relation "measure (\<lambda>(_, count). count)") auto

declare skip_bytes.simps [simp del]

definition pb_read :: "'s pb_istream \<Rightarrow> bool \<Rightarrow> nat \<Rightarrow> u8 list option \<times> 's pb_istream" where
  "pb_read st buf_null count =
     (if count = 0 then (Some [], st)
      else if buf_null \<and> \<not> is_buf_read st then skip_bytes st count
      else read_bytes st count)"

definition pb_readbyte :: "'s pb_istream \<Rightarrow> u8 option \<times> 's pb_istream" where
  "pb_readbyte st =
     (if is_bytes_left st = 0 then is_error st ''end-of-stream''
      else
        (case is_callback st (is_state st) 1 of
           (None, s) \<Rightarrow> is_error (st\<lparr>is_state := s\<rparr>) ''io error''
         | (Some bs, s) \<Rightarrow> (Some (hd bs), st\<lparr>is_state := s, is_bytes_left := is_bytes_left st - 1\<rparr>)))"

lemma pb_readbyte_left: "pb_readbyte st = (Some b, st') \<Longrightarrow> is_bytes_left st = Suc (is_bytes_left st')"
  by (auto simp: pb_readbyte_def is_error_def split: if_splits prod.splits option.splits)

text \<open>The loop of the multibyte case; the result is the value with the last byte and the bit position.\<close>

function varint32_loop :: "'s pb_istream \<Rightarrow> u32 \<Rightarrow> u8 \<Rightarrow> (u32 \<times> u8 \<times> u8) option \<times> 's pb_istream" where
  "varint32_loop st result bitpos =
     (case pb_readbyte st of
        (None, st') \<Rightarrow> (None, st')
      | (Some byte, st') \<Rightarrow>
          let sign_extension = (if bitpos < 63 then 0xff else 0x01);
              overflow = (byte AND 0x7f \<noteq> 0 \<and> (drop_bit 31 result = 0 \<or> byte \<noteq> sign_extension));
              result' = (if 32 \<le> bitpos then result else result OR push_bit (unat bitpos) (ucast (byte AND 0x7f)))
          in if 32 \<le> bitpos \<and> overflow then is_error st' ''varint overflow''
             else if byte AND 0x80 \<noteq> 0 then varint32_loop st' result' (bitpos + 7)
             else (Some (result', byte, bitpos + 7), st'))"
  by pat_completeness auto
termination
  by (relation "measure (\<lambda>(st, _). is_bytes_left st)") (auto dest: pb_readbyte_left [OF sym])

declare varint32_loop.simps [simp del]

text \<open>The third component is what is stored in \<^verbatim>\<open>*eof\<close>: \<^term>\<open>True\<close> when the stream was at its end.\<close>

definition pb_decode_varint32_eof :: "'s pb_istream \<Rightarrow> (u32 option \<times> 's pb_istream) \<times> bool" where
  "pb_decode_varint32_eof st =
     (case pb_readbyte st of
        (None, st') \<Rightarrow> ((None, st'), is_bytes_left st' = 0)
      | (Some byte, st') \<Rightarrow>
          (if byte AND 0x80 = 0 then (Some (ucast byte), st')
           else
             (case varint32_loop st' (ucast (byte AND 0x7f)) 7 of
                (None, st'') \<Rightarrow> (None, st'')
              | (Some (result, byte', bitpos), st'') \<Rightarrow>
                  if bitpos = 35 \<and> byte' AND 0x70 \<noteq> 0 then is_error st'' ''varint overflow'' else (Some result, st'')),
           False))"

definition pb_decode_varint32 :: "'s pb_istream \<Rightarrow> u32 option \<times> 's pb_istream" where
  "pb_decode_varint32 st = fst (pb_decode_varint32_eof st)"

function varint64_loop :: "'s pb_istream \<Rightarrow> u64 \<Rightarrow> u8 \<Rightarrow> u64 option \<times> 's pb_istream" where
  "varint64_loop st result bitpos =
     (if 64 \<le> bitpos then is_error st ''varint overflow''
      else
        (case pb_readbyte st of
           (None, st') \<Rightarrow> (None, st')
         | (Some byte, st') \<Rightarrow>
             let result' = result OR push_bit (unat bitpos) (ucast (byte AND 0x7f))
             in if byte AND 0x80 \<noteq> 0 then varint64_loop st' result' (bitpos + 7) else (Some result', st')))"
  by pat_completeness auto
termination
  by (relation "measure (\<lambda>(st, _). is_bytes_left st)") (auto dest: pb_readbyte_left [OF sym])

declare varint64_loop.simps [simp del]

definition pb_decode_varint :: "'s pb_istream \<Rightarrow> u64 option \<times> 's pb_istream" where
  "pb_decode_varint st = varint64_loop st 0 0"

lemma pb_read_left: "pb_read st False (Suc n) = (Some bs, st') \<Longrightarrow> is_bytes_left st' < is_bytes_left st"
  by (auto simp: pb_read_def read_bytes_def is_error_def split: if_splits prod.splits option.splits)

function pb_skip_varint :: "'s pb_istream \<Rightarrow> unit option \<times> 's pb_istream" where
  "pb_skip_varint st =
     (case pb_read st False 1 of
        (None, st') \<Rightarrow> (None, st')
      | (Some bs, st') \<Rightarrow> if hd bs AND 0x80 \<noteq> 0 then pb_skip_varint st' else (Some (), st'))"
  by pat_completeness auto
termination
  by (relation "measure is_bytes_left") (auto dest: pb_read_left [OF sym, unfolded One_nat_def [symmetric]])

declare pb_skip_varint.simps [simp del]

definition skip_read :: "'s pb_istream \<Rightarrow> nat \<Rightarrow> unit option \<times> 's pb_istream" where
  "skip_read st count = (case pb_read st True count of (r, st') \<Rightarrow> (map_option (\<lambda>_. ()) r, st'))"

definition pb_skip_string :: "'s pb_istream \<Rightarrow> unit option \<times> 's pb_istream" where
  "pb_skip_string st =
     (case pb_decode_varint32 st of (None, st') \<Rightarrow> (None, st') | (Some len, st') \<Rightarrow> skip_read st' (unat len))"

text \<open>The result is the wire type and the tag, with the end-of-file flag.\<close>

definition pb_decode_tag :: "'s pb_istream \<Rightarrow> ((nat \<times> u32) option \<times> 's pb_istream) \<times> bool" where
  "pb_decode_tag st =
     (case pb_decode_varint32_eof st of
        ((None, st'), eof) \<Rightarrow> ((None, st'), eof)
      | ((Some temp, st'), eof) \<Rightarrow>
          if temp = 0 then ((None, st'), True) else ((Some (unat (temp AND 7), drop_bit 3 temp), st'), eof))"

definition pb_skip_field :: "'s pb_istream \<Rightarrow> nat \<Rightarrow> unit option \<times> 's pb_istream" where
  "pb_skip_field st wire_type =
     (if wire_type = PB_WT_VARINT then pb_skip_varint st
      else if wire_type = PB_WT_64BIT then skip_read st 8
      else if wire_type = PB_WT_STRING then pb_skip_string st
      else if wire_type = PB_WT_32BIT then skip_read st 4
      else is_error st ''invalid wire_type'')"

text \<open>\<open>n\<close> is the room that is left in the buffer.\<close>

fun raw_varint :: "'s pb_istream \<Rightarrow> nat \<Rightarrow> u8 list option \<times> 's pb_istream" where
  "raw_varint st 0 = (None, st)"
| "raw_varint st (Suc n) =
     (case pb_read st False 1 of
        (None, st') \<Rightarrow> (None, st')
      | (Some bs, st') \<Rightarrow>
          if hd bs AND 0x80 \<noteq> 0
          then (case raw_varint st' n of (r, st'') \<Rightarrow> (map_option (\<lambda>rest. hd bs # rest) r, st''))
          else (Some [hd bs], st'))"

definition read_raw_value :: "'s pb_istream \<Rightarrow> nat \<Rightarrow> nat \<Rightarrow> u8 list option \<times> 's pb_istream" where
  "read_raw_value st wire_type max_size =
     (if wire_type = PB_WT_VARINT then raw_varint st max_size
      else if wire_type = PB_WT_64BIT then pb_read st False 8
      else if wire_type = PB_WT_32BIT then pb_read st False 4
      else is_error st ''invalid wire_type'')"

text \<open>The result of making a substream is the substream, and the parent that has given its bytes away.\<close>

definition pb_make_string_substream :: "'s pb_istream \<Rightarrow> 's pb_istream option \<times> 's pb_istream" where
  "pb_make_string_substream st0 =
     (case pb_decode_varint32 st0 of
        (None, st) \<Rightarrow> (None, st)
      | (Some len, st) \<Rightarrow>
          if is_bytes_left st < unat len then is_error st ''parent stream too short''
          else (Some (st\<lparr>is_bytes_left := unat len\<rparr>), st\<lparr>is_bytes_left := is_bytes_left st - unat len\<rparr>))"

definition pb_close_string_substream :: "'s pb_istream \<Rightarrow> 's pb_istream \<Rightarrow> unit option \<times> 's pb_istream" where
  "pb_close_string_substream st sub =
     (case (if is_bytes_left sub \<noteq> 0 then pb_read sub True (is_bytes_left sub) else (Some [], sub)) of
        (None, _) \<Rightarrow> (None, st)
      | (Some _, sub') \<Rightarrow> (Some (), st\<lparr>is_state := is_state sub', is_errmsg := is_errmsg sub'\<rparr>))"

definition pb_decode_svarint :: "'s pb_istream \<Rightarrow> u64 option \<times> 's pb_istream" where
  "pb_decode_svarint st =
     (case pb_decode_varint st of
        (None, st') \<Rightarrow> (None, st')
      | (Some value, st') \<Rightarrow> (Some (if value AND 1 \<noteq> 0 then NOT (drop_bit 1 value) else drop_bit 1 value), st'))"

definition pb_decode_fixed32 :: "'s pb_istream \<Rightarrow> u32 option \<times> 's pb_istream" where
  "pb_decode_fixed32 st =
     (case pb_read st False 4 of
        (None, st') \<Rightarrow> (None, st')
      | (Some bytes, st') \<Rightarrow>
          (Some (push_bit 0 (ucast (bytes ! 0)) OR push_bit 8 (ucast (bytes ! 1)) OR push_bit 16 (ucast (bytes ! 2)) OR
             push_bit 24 (ucast (bytes ! 3))), st'))"

definition pb_decode_fixed64 :: "'s pb_istream \<Rightarrow> u64 option \<times> 's pb_istream" where
  "pb_decode_fixed64 st =
     (case pb_read st False 8 of
        (None, st') \<Rightarrow> (None, st')
      | (Some bytes, st') \<Rightarrow>
          (Some (push_bit 0 (ucast (bytes ! 0)) OR push_bit 8 (ucast (bytes ! 1)) OR push_bit 16 (ucast (bytes ! 2)) OR
             push_bit 24 (ucast (bytes ! 3)) OR push_bit 32 (ucast (bytes ! 4)) OR push_bit 40 (ucast (bytes ! 5)) OR
             push_bit 48 (ucast (bytes ! 6)) OR push_bit 56 (ucast (bytes ! 7))), st'))"

section \<open>Variable-length integers\<close>

text \<open>The wire format: groups of seven bits, the low ones first, the top bit set on all but the last.\<close>

fun varint :: "nat \<Rightarrow> u8 list" where
  "varint n = (if n < 128 then [of_nat n] else of_nat (n mod 128 + 128) # varint (n div 128))"

declare varint.simps [simp del]

lemma varint_small: "n < 128 \<Longrightarrow> varint n = [of_nat n]"
  by (subst varint.simps) simp

lemma varint_large: "128 \<le> n \<Longrightarrow> varint n = of_nat (n mod 128 + 128) # varint (n div 128)"
  by (subst varint.simps) simp

lemma varint_not_Nil [simp]: "varint n \<noteq> []"
  by (subst varint.simps) simp

lemma length_varint: "n < 128 ^ k \<Longrightarrow> 0 < k \<Longrightarrow> length (varint n) \<le> k"
proof (induction k arbitrary: n)
  case (Suc k)
  show ?case
  proof (cases "n < 128")
    case False
    then have "k \<noteq> 0" using Suc.prems by (cases k) auto
    moreover have "n div 128 < 128 ^ k" using Suc.prems by (simp add: less_mult_imp_div_less mult.commute)
    ultimately show ?thesis using Suc.IH [of "n div 128"] False by (simp add: varint_large)
  qed (simp add: varint_small)
qed simp

lemma u8_or_0x80: "unat (b :: u8) < 128 \<Longrightarrow> unat (b OR 0x80) = unat b + 128"
  using unat_shift_or [of b 7 1] by (simp add: or.commute)

lemma mask7: "(0x7f :: 'a::len word) = mask 7"
  by (simp add: mask_eq_exp_minus_1)

lemma unat_and_0x7f: "unat (w AND 0x7f) = unat (w :: 'a::len word) mod 128"
  unfolding mask7 by (simp add: unat_and_mask)

lemma unat_low7: "unat (ucast (v AND 0x7f) :: u8) = unat (v :: u64) mod 128"
  unfolding unat_ucast unat_and_0x7f by simp

definition clear_last :: "u8 list \<Rightarrow> u8 list" where
  "clear_last bs = bs[length bs - 1 := bs ! (length bs - 1) AND 0x7f]"

lemma clear_last_Cons: "bs \<noteq> [] \<Longrightarrow> clear_last (b # bs) = b # clear_last bs"
  by (cases bs) (simp_all add: clear_last_def)

lemma varint_loop_eq: "v \<noteq> 0 \<Longrightarrow> clear_last (varint_loop v) = varint (unat v)"
proof (induction v rule: varint_loop.induct)
  case (1 v)
  let ?b = "ucast (v AND 0x7f) OR 0x80 :: u8"
  have b: "unat ?b = unat v mod 128 + 128" using u8_or_0x80 [of "ucast (v AND 0x7f)"] unat_low7 [of v] by simp
  have l: "varint_loop v = ?b # varint_loop (drop_bit 7 v)" using 1(2) by (subst varint_loop.simps) simp
  have d: "unat (drop_bit 7 v) = unat v div 128" by (simp add: unat_drop_bit)
  show ?case
  proof (cases "unat v < 128")
    case True
    then have "drop_bit 7 v = 0" using d by (simp add: unat_eq_zero)
    then have "varint_loop v = [?b]" using l by (simp add: varint_loop.simps [of 0])
    moreover have "unat (?b AND 0x7f) = unat v" unfolding unat_and_0x7f b using True by simp
    then have "?b AND 0x7f = of_nat (unat v)" by (rule eq_of_nat)
    ultimately show ?thesis using True by (simp add: clear_last_def varint_small)
  next
    case False
    then have nz: "drop_bit 7 v \<noteq> 0" using d by auto
    then have "varint_loop (drop_bit 7 v) \<noteq> []" by (subst varint_loop.simps) simp
    moreover have "?b = of_nat (unat v mod 128 + 128)" using b by (rule eq_of_nat)
    ultimately show ?thesis using 1 nz l d False by (simp add: clear_last_Cons varint_large)
  qed
qed

lemma length_clear_last [simp]: "length (clear_last bs) = length bs"
  by (simp add: clear_last_def)

lemma pb_encode_varint_eq: "pb_encode_varint st v = pb_write st (varint (unat v)) (length (varint (unat v)))"
proof (cases "v \<le> 0x7f")
  case True
  then have "unat v < 128" by (simp add: word_le_nat_alt)
  moreover from this have "unat (ucast v :: u8) = unat v" by (simp add: unat_ucast)
  then have "(ucast v :: u8) = of_nat (unat v)" by (rule eq_of_nat)
  ultimately show ?thesis using True by (simp add: pb_encode_varint_def varint_small)
next
  case False
  then have "v \<noteq> 0" by auto
  then show ?thesis using False varint_loop_eq [of v] length_clear_last [of "varint_loop v"]
    by (simp add: pb_encode_varint_def clear_last_def Let_def)
qed

section \<open>Reading from a buffer\<close>

text \<open>A buffer stream that may read \<open>n\<close> bytes of \<open>s\<close>.\<close>

definition inbuf :: "u8 list \<Rightarrow> nat \<Rightarrow> string option \<Rightarrow> u8 list pb_istream" where
  "inbuf s n e = \<lparr>is_buf_read = True, is_callback = buf_read, is_state = s, is_bytes_left = n, is_errmsg = e\<rparr>"

definition first_error :: "string option \<Rightarrow> string \<Rightarrow> string option" where
  "first_error e msg = (case e of None \<Rightarrow> Some msg | Some m \<Rightarrow> Some m)"

lemma from_buffer: "pb_istream_from_buffer s n = inbuf s n None"
  by (simp add: pb_istream_from_buffer_def inbuf_def)

lemma inbuf_simps [simp]: "is_state (inbuf s n e) = s" "is_bytes_left (inbuf s n e) = n" "is_errmsg (inbuf s n e) = e"
  "(inbuf s n e)\<lparr>is_bytes_left := k\<rparr> = inbuf s k e" "(inbuf s n e)\<lparr>is_state := t\<rparr> = inbuf t n e"
  "(inbuf s n e)\<lparr>is_errmsg := e'\<rparr> = inbuf s n e'"
  by (simp_all add: inbuf_def)

lemma inbuf_error [simp]: "is_error (inbuf s n e) msg = (None, inbuf s n (first_error e msg))"
  by (simp add: is_error_def first_error_def)

lemma readbyte_Cons [simp]: "pb_readbyte (inbuf (b # s) (Suc n) e) = (Some b, inbuf s n e)"
  by (simp add: pb_readbyte_def inbuf_def buf_read_def)

lemma readbyte_end [simp]: "pb_readbyte (inbuf s 0 e) = (None, inbuf s 0 (first_error e ''end-of-stream''))"
  by (simp add: pb_readbyte_def)

lemma pb_read_inbuf [simp]:
  "pb_read (inbuf s n e) null k =
    (if n < k then (None, inbuf s n (first_error e ''end-of-stream''))
     else (Some (take k s), inbuf (drop k s) (n - k) e))"
proof -
  have "is_buf_read (inbuf s n e)" "is_callback (inbuf s n e) = buf_read" by (simp_all add: inbuf_def)
  then show ?thesis by (simp add: pb_read_def read_bytes_def buf_read_def)
qed

lemma varint64_step:
  "bitpos < 64 \<Longrightarrow> varint64_loop (inbuf (b # s) (Suc n) e) result bitpos =
    (let result' = result OR push_bit (unat bitpos) (ucast (b AND 0x7f))
     in if b AND 0x80 \<noteq> 0 then varint64_loop (inbuf s n e) result' (bitpos + 7) else (Some result', inbuf s n e))"
  by (subst varint64_loop.simps) (simp add: Let_def linorder_not_le [THEN iffD2])

lemma low_byte: "n < 128 \<Longrightarrow> (of_nat n :: u8) AND 0x80 = 0" "n < 128 \<Longrightarrow> unat ((of_nat n :: u8) AND 0x7f) = n"
  by (simp_all add: u8_and_0x80 u8_and_0x7f unat_of_nat_u8 del: of_nat_add)

lemma high_byte: "(of_nat (n mod 128 + 128) :: u8) AND 0x80 \<noteq> 0" "unat ((of_nat (n mod 128 + 128) :: u8) AND 0x7f) = n mod 128"
  by (simp_all add: u8_and_0x80 u8_and_0x7f unat_of_nat_u8 del: of_nat_add)

lemma or_group:
  fixes result :: "'a::len word"
  assumes "unat result < 2 ^ m" and "LENGTH('a) \<ge> 8"
  shows "result OR push_bit m (ucast (b :: u8)) = result + of_nat (unat b * 2 ^ m)"
proof -
  have "push_bit m (ucast b) OR result = ucast b * 2 ^ m + result" by (rule word_shift_or [OF assms(1)])
  moreover have "(ucast b :: 'a word) = of_nat (unat b)" using assms(2) by (intro eq_of_nat) (simp add: unat_ucast_up)
  moreover have "(of_nat (unat b * 2 ^ m) :: 'a word) = of_nat (unat b) * 2 ^ m" by (simp only: of_nat_mult of_nat_power of_nat_numeral)
  ultimately show ?thesis by (metis or.commute add.commute)
qed

lemma varint64_loop_varint:
  "\<lbrakk>unat result < 2 ^ (7 * k); unat result + v * 2 ^ (7 * k) < 2 ^ 64; k < 10\<rbrakk> \<Longrightarrow>
    varint64_loop (inbuf (varint v @ s) (length (varint v) + n) e) result (of_nat (7 * k)) =
    (Some (result + of_nat (v * 2 ^ (7 * k))), inbuf s n e)"
proof (induction v arbitrary: result k rule: varint.induct)
  case (1 v)
  have k: "unat (of_nat (7 * k) :: u8) = 7 * k" "of_nat (7 * k) < (64 :: u8)"
    using 1(4) by (simp_all add: unat_of_nat_u8 word_less_nat_alt del: of_nat_mult)
  show ?case
  proof (cases "v < 128")
    case True
    then show ?thesis using varint64_step [OF k(2), of "of_nat v" s n e result] k low_byte [of v] 1(2) or_group [of result "7 * k" "of_nat v AND 0x7f"]
      by (simp add: varint_small del: of_nat_mult)
  next
    case False
    let ?b = "of_nat (v mod 128 + 128) :: u8" and ?r = "result + of_nat (v mod 128 * 2 ^ (7 * k))"
    have pw: "(2::nat) ^ (7 * (k + 1)) = 128 * 2 ^ (7 * k)" for k by (simp add: power_add)
    have split: "v * 2 ^ (7 * k) = v div 128 * 2 ^ (7 * (k + 1)) + v mod 128 * 2 ^ (7 * k)"
      unfolding pw by (metis add.commute distrib_right div_mult_mod_eq mult.assoc)
    have small: "v mod 128 * 2 ^ (7 * k) + 2 ^ (7 * k) \<le> 2 ^ (7 * (k + 1))"
      unfolding pw by (metis Suc_leI add.commute mod_less_divisor mult_Suc mult_le_mono1 zero_less_numeral)
    have "v div 128 \<noteq> 0" using False by simp
    then have "2 ^ (7 * (k + 1)) \<le> v div 128 * 2 ^ (7 * (k + 1))" by simp
    then have big: "(2::nat) ^ (7 * (k + 1)) < 2 ^ 64" using 1(3) split by linarith
    have "7 * (k + 1) < 64" by (rule power_less_imp_less_exp [OF _ big]) simp
    then have k1: "k + 1 < 10" by simp
    have ur: "unat ?r = unat result + v mod 128 * 2 ^ (7 * k)"
      using 1(2) small big by (simp add: unat_word_ariths unat_of_nat del: of_nat_mult)
    have "varint64_loop (inbuf (varint v @ s) (length (varint v) + n) e) result (of_nat (7 * k)) =
      varint64_loop (inbuf (varint (v div 128) @ s) (length (varint (v div 128)) + n) e) ?r (of_nat (7 * k) + 7)"
      using varint64_step [OF k(2), of ?b "varint (v div 128) @ s" "length (varint (v div 128)) + n" e result] k high_byte [of v]
        or_group [of result "7 * k" "?b AND 0x7f"] 1(2) False
      by (simp add: varint_large del: of_nat_mult of_nat_add)
    also have "of_nat (7 * k) + 7 = (of_nat (7 * (k + 1)) :: u8)" by simp
    also have "varint64_loop (inbuf (varint (v div 128) @ s) (length (varint (v div 128)) + n) e) ?r (of_nat (7 * (k + 1))) =
      (Some (?r + of_nat (v div 128 * 2 ^ (7 * (k + 1)))), inbuf s n e)"
      using 1(1) [OF False, of ?r "k + 1"] ur small 1(2,3) split k1 by linarith
    also have "?r + of_nat (v div 128 * 2 ^ (7 * (k + 1))) = result + of_nat (v * 2 ^ (7 * k))"
      unfolding split by (simp add: algebra_simps)
    finally show ?thesis .
  qed
qed

lemma decode_varint_varint:
  "pb_decode_varint (inbuf (varint (unat v) @ s) (length (varint (unat v)) + n) e) = (Some v, inbuf s n e)"
  using varint64_loop_varint [of 0 0 "unat v" s n e] u64_bound [of v] by (simp add: pb_decode_varint_def)

section \<open>The 32-bit reader\<close>

lemma varint32_step_low:
  "bitpos < 32 \<Longrightarrow> varint32_loop (inbuf (b # s) (Suc n) e) result bitpos =
    (let result' = result OR push_bit (unat bitpos) (ucast (b AND 0x7f))
     in if b AND 0x80 \<noteq> 0 then varint32_loop (inbuf s n e) result' (bitpos + 7) else (Some (result', b, bitpos + 7), inbuf s n e))"
  by (subst varint32_loop.simps) (simp add: Let_def linorder_not_le [THEN iffD2])

lemma varint32_step_high:
  "32 \<le> bitpos \<Longrightarrow> varint32_loop (inbuf (b # s) (Suc n) e) result bitpos =
    (if b AND 0x7f \<noteq> 0 \<and> (drop_bit 31 result = 0 \<or> b \<noteq> (if bitpos < 63 then 0xff else 0x01))
     then (None, inbuf s n (first_error e ''varint overflow''))
     else if b AND 0x80 \<noteq> 0 then varint32_loop (inbuf s n e) result (bitpos + 7) else (Some (result, b, bitpos + 7), inbuf s n e))"
  by (subst varint32_loop.simps) (simp add: Let_def)

text \<open>The loop in the middle of the encoding of \<open>w\<close>, after \<open>k\<close> groups.\<close>

definition after_groups :: "nat \<Rightarrow> nat \<Rightarrow> u8 list \<Rightarrow> nat \<Rightarrow> string option \<Rightarrow> (u32 \<times> u8 \<times> u8) option \<times> u8 list pb_istream" where
  "after_groups w k s n e =
     varint32_loop (inbuf (varint (w div 128 ^ k) @ s) (length (varint (w div 128 ^ k)) + n) e) (of_nat (w mod 128 ^ k)) (of_nat (7 * k))"

lemma bitpos_values: "k \<le> 9 \<Longrightarrow> unat (of_nat (7 * k) :: u8) = 7 * k"
  by (simp add: unat_of_nat_u8 del: of_nat_mult)

lemma mod_group: "w mod 128 ^ (k + 1) = w div 128 ^ k mod 128 * 128 ^ k + w mod (128 ^ k :: nat)"
  by (metis add.commute mod_mult2_eq mult.commute power_add power_one_right)

lemma group_or:
  assumes "k \<le> 4" and "unat ((b :: u8) AND 0x7f) = w div 128 ^ k mod 128"
  shows "(of_nat (w mod 128 ^ k) :: u32) OR push_bit (7 * k) (ucast (b AND 0x7f)) = of_nat (w mod 128 ^ (k + 1))"
proof -
  have p: "(128::nat) ^ k = 2 ^ (7 * k)" by (simp add: power_mult)
  have "(128::nat) ^ k \<le> 128 ^ 4" using assms(1) by (intro power_increasing) simp_all
  then have "unat (of_nat (w mod 128 ^ k) :: u32) = w mod 128 ^ k"
  proof (intro unat_of_nat_u32)
    have "w mod 128 ^ k < 128 ^ k" by simp
    from less_le_trans [OF this \<open>128 ^ k \<le> 128 ^ 4\<close>] show "w mod 128 ^ k < 2 ^ 32" by simp
  qed
  then have "unat (of_nat (w mod 128 ^ k) :: u32) < 2 ^ (7 * k)" by (simp add: p)
  from or_group [OF this, of "b AND 0x7f"] assms(2) show ?thesis
    unfolding mod_group by (simp add: p add.commute del: of_nat_mult)
qed

lemma after_groups_more:
  assumes "k \<le> 4" and "128 ^ (k + 1) \<le> w"
  shows "after_groups w k s n e = after_groups w (k + 1) s n e"
proof -
  let ?v = "w div 128 ^ k"
  have v: "128 \<le> ?v" using assms(2) by (simp add: less_eq_div_iff_mult_less_eq)
  have b: "of_nat (7 * k) < (32 :: u8)" using assms(1) bitpos_values [of k] by (simp add: word_less_nat_alt del: of_nat_mult)
  have d: "?v div 128 = w div 128 ^ (k + 1)" by (metis div_mult2_eq power_add power_one_right)
  have "of_nat (7 * k) + 7 = (of_nat (7 * (k + 1)) :: u8)" by simp
  then show ?thesis
    using varint32_step_low [OF b, of "of_nat (?v mod 128 + 128)" "varint (?v div 128) @ s" "length (varint (?v div 128)) + n" e "of_nat (w mod 128 ^ k)"]
      high_byte [of ?v] group_or [OF assms(1) high_byte(2)] bitpos_values [of k] assms(1)
    by (simp add: after_groups_def varint_large [OF v] d Let_def del: of_nat_mult of_nat_add)
qed

lemma after_groups_last:
  assumes "k \<le> 4" and "w < 128 ^ (k + 1)"
  shows "after_groups w k s n e = (Some (of_nat w, of_nat (w div 128 ^ k), of_nat (7 * (k + 1))), inbuf s n e)"
proof -
  let ?v = "w div 128 ^ k"
  have v: "?v < 128" using assms(2) by (simp add: less_mult_imp_div_less mult.commute)
  have b: "of_nat (7 * k) < (32 :: u8)" using assms(1) bitpos_values [of k] by (simp add: word_less_nat_alt del: of_nat_mult)
  have g: "unat ((of_nat ?v :: u8) AND 0x7f) = ?v mod 128" using low_byte(2) [OF v] v by simp
  have "of_nat (7 * k) + 7 = (of_nat (7 * (k + 1)) :: u8)" by simp
  then show ?thesis
    using varint32_step_low [OF b, of "of_nat ?v" s n e "of_nat (w mod 128 ^ k)"] low_byte(1) [OF v] group_or [OF assms(1) g]
      bitpos_values [of k] assms
    by (simp add: after_groups_def varint_small [OF v] Let_def del: of_nat_mult of_nat_add power_Suc)
qed

lemma decode_varint32_first:
  "128 \<le> w \<Longrightarrow> pb_decode_varint32_eof (inbuf (varint w @ s) (length (varint w) + n) e) =
    ((case after_groups w 1 s n e of
        (None, st) \<Rightarrow> (None, st)
      | (Some (result, byte, bitpos), st) \<Rightarrow>
          if bitpos = 35 \<and> byte AND 0x70 \<noteq> 0 then is_error st ''varint overflow'' else (Some result, st)), False)"
proof -
  assume w: "128 \<le> w"
  have "(ucast ((of_nat (w mod 128 + 128) :: u8) AND 0x7f) :: u32) = of_nat (w mod 128)"
    using high_byte(2) [of w] by (intro eq_of_nat) simp
  then show ?thesis using high_byte(1) [of w] by (simp add: pb_decode_varint32_eof_def after_groups_def varint_large [OF w] del: of_nat_add)
qed


lemma after_groups_fifth: "\<lbrakk>1 \<le> k; k \<le> 5; 128 ^ k \<le> w\<rbrakk> \<Longrightarrow> after_groups w 1 s n e = after_groups w k s n e"
proof (induction k)
  case (Suc k)
  show ?case
  proof (cases "k = 0")
    case False
    have "(128::nat) ^ k \<le> 128 ^ Suc k" by (rule power_increasing) simp_all
    then show ?thesis using Suc False after_groups_more [of k w s n e] by simp
  qed simp
qed simp

lemma top_nibble: "unat (b :: u8) < 128 \<Longrightarrow> b AND 0x70 = 0 \<longleftrightarrow> unat b < 16"
proof -
  assume b: "unat b < 128"
  have "(0x70 :: u8) = push_bit 4 (mask 3)" by (simp add: mask_eq_exp_minus_1)
  then have "unat (b AND 0x70) = unat b div 16 mod 8 * 16" using unat_and_push_mask [of b 4 3] by simp
  moreover have "b AND 0x70 = 0 \<longleftrightarrow> unat (b AND 0x70) = 0" by (simp add: unat_eq_zero)
  ultimately show ?thesis using b by (auto simp: less_mult_imp_div_less)
qed

lemma after_groups_value:
  assumes "128 \<le> w" and "w < 2 ^ 35"
  obtains k where "1 \<le> k" "k \<le> 4" "128 ^ k \<le> w" "w < 128 ^ (k + 1)"
    "after_groups w 1 s n e = (Some (of_nat w, of_nat (w div 128 ^ k), of_nat (7 * (k + 1))), inbuf s n e)"
proof -
  have "\<exists>k. 1 \<le> k \<and> k \<le> 4 \<and> 128 ^ k \<le> w \<and> w < 128 ^ (k + 1)"
  proof -
    consider "w < 128 ^ 2" | "128 ^ 2 \<le> w" "w < 128 ^ 3" | "128 ^ 3 \<le> w" "w < 128 ^ 4" | "128 ^ 4 \<le> w" by linarith
    then show ?thesis
    proof cases
      case 1
      then show ?thesis using assms by (intro exI [of _ 1]) simp
    next
      case 2
      then show ?thesis by (intro exI [of _ 2]) simp
    next
      case 3
      then show ?thesis by (intro exI [of _ 3]) simp
    next
      case 4
      then show ?thesis using assms by (intro exI [of _ 4]) simp
    qed
  qed
  then obtain k where k: "1 \<le> k" "k \<le> 4" "128 ^ k \<le> w" "w < 128 ^ (k + 1)" by blast
  have "k \<le> 5" using k(2) by simp
  from that [OF k] after_groups_fifth [OF k(1) this k(3)] after_groups_last [OF k(2,4)] show ?thesis by metis
qed

lemma varint32_short:
  assumes "w < 2 ^ 35"
  shows "pb_decode_varint32_eof (inbuf (varint w @ s) (length (varint w) + n) e) =
    ((if w < 2 ^ 32 then (Some (of_nat w), inbuf s n e) else (None, inbuf s n (first_error e ''varint overflow''))), False)"
proof (cases "w < 128")
  case True
  have "(ucast (of_nat w :: u8) :: u32) = of_nat w" using True by (intro eq_of_nat) (simp add: unat_of_nat_u8)
  then show ?thesis using True low_byte(1) [of w] by (simp add: pb_decode_varint32_eof_def varint_small)
next
  case False
  then obtain k where k: "1 \<le> k" "k \<le> 4" "128 ^ k \<le> w" "w < 128 ^ (k + 1)"
    "after_groups w 1 s n e = (Some (of_nat w, of_nat (w div 128 ^ k), of_nat (7 * (k + 1))), inbuf s n e)"
    using after_groups_value [of w s n e] assms by (metis linorder_not_less)
  have b: "w div 128 ^ k < 128" using k(4) by (simp add: less_mult_imp_div_less)
  have "(of_nat (7 * (k + 1)) :: u8) = 35 \<and> (of_nat (w div 128 ^ k) :: u8) AND 0x70 \<noteq> 0 \<longleftrightarrow> 2 ^ 32 \<le> w"
  proof (cases "k = 4")
    case True
    have "16 \<le> w div 128 ^ 4 \<longleftrightarrow> 2 ^ 32 \<le> w" by (simp add: less_eq_div_iff_mult_less_eq)
    then show ?thesis using True b top_nibble [of "of_nat (w div 128 ^ k)"] by (simp add: unat_of_nat_u8 not_less)
  next
    case False
    then have "unat (of_nat (7 * (k + 1)) :: u8) \<noteq> 35" using bitpos_values [of "k + 1"] k(2) by simp
    moreover have "w < 128 ^ 4" using k(4) False k(2) power_increasing [of "k + 1" 4 "128::nat"] by linarith
    ultimately show ?thesis by auto
  qed
  then show ?thesis using decode_varint32_first [of w s n e] False k(5) by (auto simp del: of_nat_mult of_nat_add)
qed

text \<open>After 32 bits, a canonical encoding that ends before bit 63 is rejected.\<close>

lemma varint32_high_fails:
  "\<lbrakk>0 < u; 5 \<le> k; u * 128 ^ k < 2 ^ 63\<rbrakk> \<Longrightarrow>
    \<exists>t m. varint32_loop (inbuf (varint u @ s) (length (varint u) + n) e) result (of_nat (7 * k)) =
      (None, inbuf t m (first_error e ''varint overflow''))"
proof (induction u arbitrary: k rule: varint.induct)
  case (1 u)
  have "(128::nat) ^ k \<le> u * 128 ^ k" using 1(2) by simp
  moreover have "(2::nat) ^ 63 = 128 ^ 9" by simp
  ultimately have "(128::nat) ^ k < 128 ^ 9" using 1(4) by linarith
  then have k9: "k < 9" by (rule power_less_imp_less_exp [rotated]) simp
  then have b: "32 \<le> (of_nat (7 * k) :: u8)" "(of_nat (7 * k) :: u8) < 63"
    using 1(3) bitpos_values [of k] by (simp_all add: word_less_nat_alt word_le_nat_alt del: of_nat_mult)
  show ?case
  proof (cases "u < 128")
    case True
    have "(of_nat u :: u8) AND 0x7f \<noteq> 0" using low_byte(2) [OF True] 1(2) by auto
    moreover have "(of_nat u :: u8) \<noteq> 0xff" using low_byte(1) [OF True] by auto
    ultimately show ?thesis using varint32_step_high [OF b(1), of "of_nat u" s n e result] b(2) True by (auto simp: varint_small)
  next
    case False
    let ?b = "of_nat (u mod 128 + 128) :: u8"
    have "u div 128 * 128 ^ (k + 1) \<le> u * 128 ^ k" by (simp add: mult.assoc [symmetric])
    then have "u div 128 * 128 ^ (k + 1) < 2 ^ 63" using 1(4) by linarith
    then have "\<exists>t m. varint32_loop (inbuf (varint (u div 128) @ s) (length (varint (u div 128)) + n) e) result (of_nat (7 * (k + 1))) =
      (None, inbuf t m (first_error e ''varint overflow''))"
      using 1(3) False by (intro 1(1) [OF False, of "k + 1"]) simp_all
    moreover have "of_nat (7 * k) + 7 = (of_nat (7 * (k + 1)) :: u8)" by simp
    ultimately show ?thesis
      using varint32_step_high [OF b(1), of ?b "varint (u div 128) @ s" "length (varint (u div 128)) + n" e result] high_byte(1) [of u] False
      by (auto simp: varint_large simp del: of_nat_mult of_nat_add)
  qed
qed

lemma varint32_too_large:
  assumes "2 ^ 35 \<le> w" and "w < 2 ^ 63"
  shows "\<exists>t m. pb_decode_varint32_eof (inbuf (varint w @ s) (length (varint w) + n) e) =
    ((None, inbuf t m (first_error e ''varint overflow'')), False)"
proof -
  have "w div 128 ^ 5 * 128 ^ 5 \<le> w" by simp
  then have "w div 128 ^ 5 * 128 ^ 5 < 2 ^ 63" using assms(2) by (rule order_le_less_trans)
  moreover have "0 < w div 128 ^ 5" using assms(1) by (simp add: div_greater_zero_iff)
  ultimately obtain t m where "after_groups w 5 s n e = (None, inbuf t m (first_error e ''varint overflow''))"
    using varint32_high_fails [of "w div 128 ^ 5" 5 s n e "of_nat (w mod 128 ^ 5)"] unfolding after_groups_def by auto
  then show ?thesis using after_groups_fifth [of 5 w s n e] decode_varint32_first [of w s n e] assms(1) by auto
qed

text \<open>Negative numbers of 32 bits are sign-extended to 64 bits on the wire.\<close>

lemma varint32_negative:
  assumes "2 ^ 64 - 2 ^ 31 \<le> w" and "w < 2 ^ 64"
  shows "pb_decode_varint32_eof (inbuf (varint w @ s) (length (varint w) + n) e) = ((Some (of_nat w), inbuf s n e), False)"
proof -
  have u: "w div 128 ^ 5 = 2 ^ 29 - 1" using assms by (intro div_nat_eqI) simp_all
  have v: "varint (2 ^ 29 - 1) = [255, 255, 255, 255, 1]" by (simp add: varint.simps)
  have r: "(of_nat (w mod 128 ^ 5) :: u32) = of_nat w"
  proof (rule word_unat_eq_iff [THEN iffD2])
    have "w mod 128 ^ 5 mod 2 ^ 32 = w mod 2 ^ 32" using mod_mod_cancel [of "2 ^ 32" "128 ^ 5" w] by simp
    then show "unat (of_nat (w mod 128 ^ 5) :: u32) = unat (of_nat w :: u32)" by (simp add: unat_of_nat)
  qed
  have "w mod 2 ^ 32 = w - (2 ^ 64 - 2 ^ 32)" using assms by (intro mod_nat_eqI) (simp_all add: dvd_def)
  then have "2 ^ 31 \<le> unat (of_nat w :: u32)" using assms by (simp add: unat_of_nat)
  then have "unat (drop_bit 31 (of_nat w :: u32)) \<noteq> 0" by (simp add: unat_drop_bit div_eq_0_iff)
  then have d: "drop_bit 31 (of_nat w :: u32) \<noteq> 0" by auto
  have "after_groups w 5 s n e = (Some (of_nat w, 1, 70), inbuf s n e)"
    unfolding after_groups_def u v r using d by (simp add: varint32_step_high)
  then show ?thesis using after_groups_fifth [of 5 w s n e] decode_varint32_first [of w s n e] assms(1) by simp
qed

section \<open>The other wire values\<close>

text \<open>The zigzag form of signed integers.\<close>

definition zigzag :: "u64 \<Rightarrow> u64" where
  "zigzag v = (if sint v < 0 then NOT (push_bit 1 v) else push_bit 1 v)"

lemma unzigzag: "(if zigzag v AND 1 \<noteq> 0 then NOT (drop_bit 1 (zigzag v)) else drop_bit 1 (zigzag v)) = v"
proof -
  have s: "sint v < 0 \<longleftrightarrow> bit v 63" using bit_last_iff [of v] by simp
  have "w AND 1 \<noteq> 0 \<longleftrightarrow> bit w 0" for w :: u64 using and_exp_eq_0_iff_not_bit [of w 0] by simp
  then have o: "zigzag v AND 1 \<noteq> 0 \<longleftrightarrow> bit v 63" by (simp add: zigzag_def s bit_simps bit_0)
  show ?thesis
  proof (cases "bit v 63")
    case True
    have "NOT (drop_bit 1 (NOT (push_bit 1 v))) = v"
    proof (rule bit_word_eqI)
      fix n
      assume "n < LENGTH(64)"
      then show "bit (NOT (drop_bit 1 (NOT (push_bit 1 v)))) n \<longleftrightarrow> bit v n"
        using True bit_push_bit_iff [of 1 v "Suc n"] by (cases "n = 63") (auto simp: bit_simps)
    qed
    then show ?thesis using True o s by (simp add: zigzag_def)
  next
    case False
    have "drop_bit 1 (push_bit 1 v) = v"
    proof (rule bit_word_eqI)
      fix n
      assume "n < LENGTH(64)"
      then show "bit (drop_bit 1 (push_bit 1 v)) n \<longleftrightarrow> bit v n"
        using False bit_push_bit_iff [of 1 v "Suc n"] by (cases "n = 63") (auto simp: bit_simps)
    qed
    then show ?thesis using False o s by (simp add: zigzag_def)
  qed
qed

lemma decode_svarint_zigzag:
  "pb_decode_svarint (inbuf (varint (unat (zigzag v)) @ s) (length (varint (unat (zigzag v))) + n) e) = (Some v, inbuf s n e)"
  using unzigzag [of v] by (simp add: pb_decode_svarint_def decode_varint_varint)

text \<open>Little-endian integers.\<close>

definition le32 :: "u32 \<Rightarrow> u8 list" where
  "le32 w = map (\<lambda>k. ucast (drop_bit (8 * k) w AND 0xff)) [0, 1, 2, 3]"

definition le64bytes :: "u64 \<Rightarrow> u8 list" where
  "le64bytes w = map (\<lambda>k. ucast (drop_bit (8 * k) w AND 0xff)) [0, 1, 2, 3, 4, 5, 6, 7]"

lemma byte_of_word:
  fixes w :: "'a::len word"
  shows "push_bit k (ucast (ucast (drop_bit k w AND 0xff) :: u8)) = w AND push_bit k 0xff"
proof -
  have m: "(0xff :: 'a word) = mask 8" by (simp add: mask_eq_exp_minus_1)
  show ?thesis unfolding m by (rule bit_eqI) (auto simp: bit_simps)
qed

lemma decode_fixed32_le32: "pb_decode_fixed32 (inbuf (le32 w @ s) (4 + n) e) = (Some w, inbuf s n e)"
proof -
  have "w AND 0xff OR (w AND 0xff00) OR (w AND 0xff0000) OR (w AND 0xff000000) = w AND (0xff OR 0xff00 OR 0xff0000 OR 0xff000000)"
    by (simp only: bit.conj_disj_distrib or.assoc)
  then have "w AND 0xff OR (w AND 0xff00) OR (w AND 0xff0000) OR (w AND 0xff000000) = w AND 0xffffffff" by simp
  moreover have "(0xffffffff :: u32) = - 1" by simp
  ultimately show ?thesis
    using byte_of_word [of 0 w] byte_of_word [of 8 w] byte_of_word [of 16 w] byte_of_word [of 24 w]
    by (simp add: pb_decode_fixed32_def le32_def)
qed

lemma decode_fixed64_le64: "pb_decode_fixed64 (inbuf (le64bytes w @ s) (8 + n) e) = (Some w, inbuf s n e)"
proof -
  have "w AND 0xff OR (w AND 0xff00) OR (w AND 0xff0000) OR (w AND 0xff000000) OR (w AND 0xff00000000) OR (w AND 0xff0000000000) OR
      (w AND 0xff000000000000) OR (w AND 0xff00000000000000) =
    w AND (0xff OR 0xff00 OR 0xff0000 OR 0xff000000 OR 0xff00000000 OR 0xff0000000000 OR 0xff000000000000 OR 0xff00000000000000)"
    by (simp only: bit.conj_disj_distrib or.assoc)
  then have "w AND 0xff OR (w AND 0xff00) OR (w AND 0xff0000) OR (w AND 0xff000000) OR (w AND 0xff00000000) OR (w AND 0xff0000000000) OR
      (w AND 0xff000000000000) OR (w AND 0xff00000000000000) = w AND 0xffffffffffffffff" by simp
  moreover have "(0xffffffffffffffff :: u64) = - 1" by simp
  ultimately show ?thesis
    using byte_of_word [of 0 w] byte_of_word [of 8 w] byte_of_word [of 16 w] byte_of_word [of 24 w] byte_of_word [of 32 w]
      byte_of_word [of 40 w] byte_of_word [of 48 w] byte_of_word [of 56 w]
    by (simp add: pb_decode_fixed64_def le64bytes_def)
qed

text \<open>Tags.\<close>

lemma unat_tag: "wt < 8 \<Longrightarrow> unat (push_bit 3 (ucast (fn :: u32) :: u64) OR of_nat wt) = unat fn * 8 + wt"
proof -
  assume wt: "wt < 8"
  have f: "unat (ucast fn :: u64) = unat fn" by (rule unat_ucast_up) simp
  have "unat (of_nat wt :: u64) = wt" using wt by (simp add: unat_of_nat_u64)
  then show ?thesis using unat_shift_or [of "of_nat wt :: u64" 3 "ucast fn"] wt f u32_bound [of fn] by simp
qed

lemma decode_tag_varint:
  assumes "wt < 8" and "unat fn < 2 ^ 29" and "unat fn \<noteq> 0 \<or> wt \<noteq> 0"
  shows "pb_decode_tag (inbuf (varint (unat fn * 8 + wt) @ s) (length (varint (unat fn * 8 + wt)) + n) e) = ((Some (wt, fn), inbuf s n e), False)"
proof -
  let ?t = "of_nat (unat fn * 8 + wt) :: u32"
  have t: "unat ?t = unat fn * 8 + wt" using assms by (intro unat_of_nat_u32) simp
  have "?t \<noteq> 0" using t assms(3) by (metis add_is_0 mult_eq_0_iff unsigned_0 zero_neq_numeral)
  moreover have "unat (?t AND 7) = wt"
  proof -
    have m: "(7 :: u32) = mask 3" by (simp add: mask_eq_exp_minus_1)
    show ?thesis unfolding m unat_and_mask t using assms(1) by simp
  qed
  moreover have "drop_bit 3 ?t = fn"
    using t assms(1) by (intro word_unat_eq_iff [THEN iffD2]) (simp add: unat_drop_bit del: of_nat_add of_nat_mult)
  ultimately show ?thesis using varint32_short [of "unat fn * 8 + wt" s n e] assms
    by (simp add: pb_decode_tag_def del: of_nat_add of_nat_mult)
qed

text \<open>Skipping.\<close>

lemma skip_varint_varint: "pb_skip_varint (inbuf (varint v @ s) (length (varint v) + n) e) = (Some (), inbuf s n e)"
proof (induction v rule: varint.induct)
  case (1 v)
  show ?case
  proof (cases "v < 128")
    case True
    then show ?thesis using low_byte(1) [of v] by (subst pb_skip_varint.simps) (simp add: varint_small)
  next
    case False
    then show ?thesis using 1 high_byte(1) [of v] by (subst pb_skip_varint.simps) (simp add: varint_large del: of_nat_add)
  qed
qed

lemma skip_read_inbuf: "skip_read (inbuf (bs @ s) (length bs + n) e) (length bs) = (Some (), inbuf s n e)"
  by (simp add: skip_read_def)

section \<open>Sequences of wire values\<close>

text \<open>The calls a field encoder makes, each with its argument, and the calls that read the values back.\<close>

datatype wire_value = Varint u64 | Svarint u64 | Fixed32 u32 | Fixed64 u64 | Tag nat u32 | Str "u8 list"

fun wire :: "wire_value \<Rightarrow> u8 list" where
  "wire (Varint v) = varint (unat v)"
| "wire (Svarint v) = varint (unat (zigzag v))"
| "wire (Fixed32 w) = le32 w"
| "wire (Fixed64 w) = le64bytes w"
| "wire (Tag wt num) = varint (unat num * 8 + wt)"
| "wire (Str bs) = varint (length bs) @ bs"

text \<open>Field numbers have 29 bits and are not zero; the length of a string has 32 bits.\<close>

fun valid_value :: "wire_value \<Rightarrow> bool" where
  "valid_value (Tag wt num) \<longleftrightarrow> wt < 8 \<and> unat num < 2 ^ 29 \<and> num \<noteq> 0"
| "valid_value (Str bs) \<longleftrightarrow> length bs < 2 ^ 32"
| "valid_value _ \<longleftrightarrow> True"

fun write_value :: "'s pb_ostream \<Rightarrow> wire_value \<Rightarrow> bool \<times> 's pb_ostream" where
  "write_value st (Varint v) = pb_encode_varint st v"
| "write_value st (Svarint v) = pb_encode_svarint st v"
| "write_value st (Fixed32 w) = pb_encode_fixed32 st w"
| "write_value st (Fixed64 w) = pb_encode_fixed64 st w"
| "write_value st (Tag wt num) = pb_encode_tag st wt num"
| "write_value st (Str bs) = pb_encode_string st bs (length bs)"

fun write_values :: "'s pb_ostream \<Rightarrow> wire_value list \<Rightarrow> bool \<times> 's pb_ostream" where
  "write_values st [] = (True, st)"
| "write_values st (x # xs) = and_then (write_value st x) (\<lambda>st. write_values st xs)"

definition read_string :: "'s pb_istream \<Rightarrow> u8 list option \<times> 's pb_istream" where
  "read_string st =
     (case pb_make_string_substream st of
        (None, st') \<Rightarrow> (None, st')
      | (Some sub, st') \<Rightarrow>
          (case pb_read sub False (is_bytes_left sub) of
             (None, sub') \<Rightarrow> (None, st')
           | (Some bs, sub') \<Rightarrow>
               (case pb_close_string_substream st' sub' of (None, st'') \<Rightarrow> (None, st'') | (Some _, st'') \<Rightarrow> (Some bs, st''))))"

text \<open>The first argument says which kind of value is expected.\<close>

fun read_value :: "wire_value \<Rightarrow> 's pb_istream \<Rightarrow> wire_value option \<times> 's pb_istream" where
  "read_value (Varint _) st = apfst (map_option Varint) (pb_decode_varint st)"
| "read_value (Svarint _) st = apfst (map_option Svarint) (pb_decode_svarint st)"
| "read_value (Fixed32 _) st = apfst (map_option Fixed32) (pb_decode_fixed32 st)"
| "read_value (Fixed64 _) st = apfst (map_option Fixed64) (pb_decode_fixed64 st)"
| "read_value (Tag _ _) st = apfst (map_option (\<lambda>(wt, num). Tag wt num)) (fst (pb_decode_tag st))"
| "read_value (Str _) st = apfst (map_option Str) (read_string st)"

fun read_values :: "wire_value list \<Rightarrow> 's pb_istream \<Rightarrow> wire_value list option \<times> 's pb_istream" where
  "read_values [] st = (Some [], st)"
| "read_values (x # xs) st =
     (case read_value x st of
        (None, st') \<Rightarrow> (None, st')
      | (Some y, st') \<Rightarrow> apfst (map_option (\<lambda>ys. y # ys)) (read_values xs st'))"

subsection \<open>Reading\<close>

lemma read_string_wire:
  "length bs < 2 ^ 32 \<Longrightarrow> read_string (inbuf (varint (length bs) @ bs @ s) (length (varint (length bs)) + (length bs + n)) e) =
    (Some bs, inbuf s n e)"
proof -
  assume l: "length bs < 2 ^ 32"
  then have "unat (of_nat (length bs) :: u32) = length bs" by (rule unat_of_nat_u32)
  moreover have "pb_decode_varint32 (inbuf (varint (length bs) @ bs @ s) (length (varint (length bs)) + (length bs + n)) e) =
      (Some (of_nat (length bs)), inbuf (bs @ s) (length bs + n) e)"
    using varint32_short [of "length bs" "bs @ s" "length bs + n" e] l by (simp add: pb_decode_varint32_def)
  ultimately show ?thesis by (simp add: read_string_def pb_make_string_substream_def pb_close_string_substream_def)
qed

lemma length_le [simp]: "length (le32 w) = 4" "length (le64bytes v) = 8"
  by (simp_all add: le32_def le64bytes_def)

lemma read_wire: "valid_value x \<Longrightarrow> read_value x (inbuf (wire x @ s) (length (wire x) + n) e) = (Some x, inbuf s n e)"
proof (cases x)
  case (Tag wt num)
  assume "valid_value x"
  then show ?thesis using decode_tag_varint [of wt num s n e] Tag by (simp add: unat_gt_0)
next
  case (Fixed32 w)
  then show ?thesis using decode_fixed32_le32 [of w s n e] by simp
next
  case (Fixed64 w)
  then show ?thesis using decode_fixed64_le64 [of w s n e] by simp
next
  case (Str bs)
  assume "valid_value x"
  then show ?thesis using read_string_wire [of bs s n e] Str by (simp add: add.assoc)
qed (simp_all add: decode_varint_varint decode_svarint_zigzag)

lemma read_wires:
  "list_all valid_value xs \<Longrightarrow>
    read_values xs (inbuf (concat (map wire xs) @ s) (length (concat (map wire xs)) + n) e) = (Some xs, inbuf s n e)"
proof (induction xs arbitrary: s n)
  case (Cons x xs)
  then show ?case
    using read_wire [of x "concat (map wire xs) @ s" "length (concat (map wire xs)) + n" e] by (simp add: add.assoc)
qed simp

subsection \<open>Writing\<close>

lemma encode_svarint_eq: "pb_encode_svarint st v = pb_encode_varint st (zigzag v)"
  by (simp add: pb_encode_svarint_def zigzag_def)

lemma encode_fixed_eq: "pb_encode_fixed32 st w = pb_write st (le32 w) 4" "pb_encode_fixed64 st v = pb_write st (le64bytes v) 8"
  by (simp_all add: pb_encode_fixed32_def pb_encode_fixed64_def le32_def le64bytes_def)

lemma write_value_eq:
  "valid_value x \<Longrightarrow> write_value st x =
    (case x of
       Str bs \<Rightarrow> and_then (pb_write st (varint (length bs)) (length (varint (length bs)))) (\<lambda>st. pb_write st bs (length bs))
     | _ \<Rightarrow> pb_write st (wire x) (length (wire x)))"
  by (cases x) (simp_all add: pb_encode_varint_eq encode_svarint_eq encode_fixed_eq
      pb_encode_tag_def unat_tag pb_encode_string_def unat_of_nat_u64)

text \<open>A stream over a buffer that has written up to \<open>pos\<close>.\<close>

definition outbuf :: "u8 list \<Rightarrow> nat \<Rightarrow> nat \<Rightarrow> string option \<Rightarrow> (u8 list \<times> nat) pb_ostream" where
  "outbuf mem pos sz e = \<lparr>os_callback = Some buf_write, os_state = (mem, pos), os_max_size = sz, os_bytes_written = pos, os_errmsg = e\<rparr>"

lemma to_buffer: "pb_ostream_from_buffer buf n = outbuf buf 0 n None"
  by (simp add: pb_ostream_from_buffer_def outbuf_def)

lemma write_outbuf:
  assumes "pos \<le> sz" and "sz < SIZE_MAX_1" and "length bs < SIZE_MAX_1"
  shows "pb_write (outbuf mem pos sz e) bs (length bs) =
    (if pos + length bs \<le> sz then (True, outbuf (mem_write mem pos bs) (pos + length bs) sz e)
     else (False, outbuf mem pos sz (first_error e ''stream full'')))"
proof (cases "bs = []")
  case True
  then show ?thesis using assms by (simp add: pb_write_def outbuf_def mem_write_def size_add_def)
next
  case False
  have "size_add pos (length bs) < pos \<or> sz < size_add pos (length bs) \<longleftrightarrow> sz < pos + length bs"
  proof (cases "pos + length bs < SIZE_MAX_1")
    case True
    then show ?thesis by (simp add: size_add_eq)
  next
    case False
    then show ?thesis using assms size_add_overflow_iff [of pos "length bs"] by simp
  qed
  then show ?thesis using assms False
    by (auto simp: pb_write_def outbuf_def os_error_def first_error_def buf_write_def size_add_eq Let_def)
qed

lemma write_sizing:
  "os_callback st = None \<Longrightarrow> pb_write st bs k = (True, st\<lparr>os_bytes_written := size_add (os_bytes_written st) k\<rparr>)"
  by (simp add: pb_write_def)


lemma mem_write_bounds:
  assumes "pos + length bs \<le> length mem"
  shows "length (mem_write mem pos bs) = length mem" and "take (pos + length bs) (mem_write mem pos bs) = take pos mem @ bs"
    and "pos + length bs \<le> k \<Longrightarrow> drop k (mem_write mem pos bs) = drop k mem"
  and "take pos (mem_write mem pos bs) = take pos mem"
proof -
  have p: "length (take pos mem) = pos" using assms by simp
  show "length (mem_write mem pos bs) = length mem" "take (pos + length bs) (mem_write mem pos bs) = take pos mem @ bs"
    "take pos (mem_write mem pos bs) = take pos mem"
    using assms p by (simp_all add: mem_write_def)
  show "drop k (mem_write mem pos bs) = drop k mem" if "pos + length bs \<le> k" using assms p that by (simp add: mem_write_def)
qed

text \<open>What a sequence of writes may have done to a stream of \<open>sz\<close> bytes: success with the bytes in place, or failure for want
  of room; never a change outside.\<close>

definition wrote :: "u8 list \<Rightarrow> nat \<Rightarrow> nat \<Rightarrow> u8 list \<Rightarrow> bool \<times> (u8 list \<times> nat) pb_ostream \<Rightarrow> bool" where
  "wrote mem pos sz bs r \<longleftrightarrow>
     (\<exists>mem' pos'. length mem' = length mem \<and> drop sz mem' = drop sz mem \<and> take pos mem' = take pos mem \<and> pos \<le> pos' \<and> pos' \<le> sz \<and>
        (if pos + length bs \<le> sz
         then r = (True, outbuf mem' (pos + length bs) sz None) \<and> take (pos + length bs) mem' = take pos mem @ bs
         else r = (False, outbuf mem' pos' sz (Some ''stream full''))))"

lemma wrote_write:
  assumes "pos \<le> sz" and "sz < SIZE_MAX_1" and "length bs < SIZE_MAX_1" and "sz \<le> length mem"
  shows "wrote mem pos sz bs (pb_write (outbuf mem pos sz None) bs (length bs))"
proof (cases "pos + length bs \<le> sz")
  case True
  moreover from this have "pos + length bs \<le> length mem" using assms(4) by simp
  ultimately show ?thesis using assms write_outbuf [OF assms(1-3), of mem None] mem_write_bounds [of pos bs mem]
    unfolding wrote_def by (intro exI [of _ "mem_write mem pos bs"] exI [of _ pos]) auto
next
  case False
  then show ?thesis using assms write_outbuf [OF assms(1-3), of mem None] unfolding wrote_def
    by (intro exI [of _ mem] exI [of _ pos]) (auto simp: first_error_def)
qed

lemma wrote_then:
  assumes "wrote mem pos sz as (f (outbuf mem pos sz None))"
    and "\<And>mem' pos'. \<lbrakk>length mem' = length mem; pos' \<le> sz\<rbrakk> \<Longrightarrow> wrote mem' pos' sz bs (g (outbuf mem' pos' sz None))"
  shows "wrote mem pos sz (as @ bs) (and_then (f (outbuf mem pos sz None)) g)"
proof -
  from assms(1) obtain mem1 pos1 where 1: "length mem1 = length mem" "drop sz mem1 = drop sz mem" "take pos mem1 = take pos mem"
    "pos \<le> pos1" "pos1 \<le> sz"
    "if pos + length as \<le> sz
     then f (outbuf mem pos sz None) = (True, outbuf mem1 (pos + length as) sz None) \<and> take (pos + length as) mem1 = take pos mem @ as
     else f (outbuf mem pos sz None) = (False, outbuf mem1 pos1 sz (Some ''stream full''))"
    unfolding wrote_def by blast
  show ?thesis
  proof (cases "pos + length as \<le> sz")
    case True
    from assms(2) [OF 1(1) True] obtain mem2 pos2 where 2: "length mem2 = length mem1" "drop sz mem2 = drop sz mem1"
      "take (pos + length as) mem2 = take (pos + length as) mem1" "pos + length as \<le> pos2" "pos2 \<le> sz"
      "if pos + length as + length bs \<le> sz
       then g (outbuf mem1 (pos + length as) sz None) = (True, outbuf mem2 (pos + length as + length bs) sz None) \<and>
         take (pos + length as + length bs) mem2 = take (pos + length as) mem1 @ bs
       else g (outbuf mem1 (pos + length as) sz None) = (False, outbuf mem2 pos2 sz (Some ''stream full''))"
      unfolding wrote_def by blast
    have "take pos mem2 = take pos mem1" using 2(3) by (metis min.absorb1 le_add1 take_take)
    then show ?thesis using 1 2 True unfolding wrote_def
      by (intro exI [of _ mem2] exI [of _ pos2]) (auto simp: add.assoc split: if_splits)
  next
    case False
    then show ?thesis using 1 unfolding wrote_def by (intro exI [of _ mem1] exI [of _ pos1]) auto
  qed
qed

lemma wrote_nothing: "pos \<le> sz \<Longrightarrow> wrote mem pos sz [] (True, outbuf mem pos sz None)"
  unfolding wrote_def by (intro exI [of _ mem] exI [of _ pos]) simp

lemma varint_fits: "n < 2 ^ 64 \<Longrightarrow> length (varint n) < SIZE_MAX_1"
  using length_varint [of n 10] by (simp add: SIZE_MAX_1_def)

lemma wire_fits: "\<lbrakk>valid_value x; \<And>bs. x \<noteq> Str bs\<rbrakk> \<Longrightarrow> length (wire x) < SIZE_MAX_1"
proof -
  assume x: "valid_value x" "\<And>bs. x \<noteq> Str bs"
  have v: "length (varint (unat v)) < SIZE_MAX_1" for v :: u64 using varint_fits [of "unat v"] u64_bound [of v] by simp
  have t: "wt < 8 \<Longrightarrow> unat num < 2 ^ 29 \<Longrightarrow> length (varint (unat num * 8 + wt)) < SIZE_MAX_1" for wt and num :: u32
    by (rule varint_fits) simp
  show ?thesis using x v t by (cases x) (auto simp: SIZE_MAX_1_def)
qed

lemma wrote_value:
  assumes "valid_value x" and "pos \<le> sz" and "sz < SIZE_MAX_1" and "sz \<le> length mem"
  shows "wrote mem pos sz (wire x) (write_value (outbuf mem pos sz None) x)"
proof (cases "\<exists>bs. x = Str bs")
  case True
  then obtain bs where x: "x = Str bs" by blast
  then have l: "length bs < 2 ^ 32" using assms(1) by simp
  have "wrote mem pos sz (varint (length bs) @ bs)
    (and_then (pb_write (outbuf mem pos sz None) (varint (length bs)) (length (varint (length bs)))) (\<lambda>st. pb_write st bs (length bs)))"
    using assms l by (intro wrote_then wrote_write varint_fits) (auto simp: SIZE_MAX_1_def)
  then show ?thesis using write_value_eq [OF assms(1), of "outbuf mem pos sz None"] x by simp
next
  case False
  then have "write_value (outbuf mem pos sz None) x = pb_write (outbuf mem pos sz None) (wire x) (length (wire x))"
    using write_value_eq [OF assms(1)] by (cases x) auto
  then show ?thesis using wrote_write [OF assms(2,3) wire_fits [OF assms(1)] assms(4)] False by auto
qed

lemma wrote_values:
  "\<lbrakk>list_all valid_value xs; pos \<le> sz; sz < SIZE_MAX_1; sz \<le> length mem\<rbrakk> \<Longrightarrow>
    wrote mem pos sz (concat (map wire xs)) (write_values (outbuf mem pos sz None) xs)"
proof (induction xs arbitrary: mem pos)
  case (Cons x xs)
  have "wrote mem pos sz (wire x @ concat (map wire xs))
    (and_then (write_value (outbuf mem pos sz None) x) (\<lambda>st. write_values st xs))"
    using Cons wrote_value [of x pos sz mem] by (intro wrote_then [where f = "\<lambda>st. write_value st x"]) auto
  then show ?case by simp
qed (simp add: wrote_nothing)

lemma size_values:
  "\<lbrakk>list_all valid_value xs; os_callback st = None; os_bytes_written st + length (concat (map wire xs)) < SIZE_MAX_1\<rbrakk> \<Longrightarrow>
    write_values st xs = (True, st\<lparr>os_bytes_written := os_bytes_written st + length (concat (map wire xs))\<rparr>)"
proof (induction xs arbitrary: st)
  case (Cons x xs)
  have "write_value st x = (True, st\<lparr>os_bytes_written := os_bytes_written st + length (wire x)\<rparr>)"
    using Cons.prems write_value_eq [of x st] by (cases x) (auto simp: write_sizing size_add_eq)
  then show ?case using Cons by (simp add: add.assoc)
qed simp

fun wire_type_of :: "wire_value \<Rightarrow> nat option" where
  "wire_type_of (Varint _) = Some PB_WT_VARINT"
| "wire_type_of (Svarint _) = Some PB_WT_VARINT"
| "wire_type_of (Fixed32 _) = Some PB_WT_32BIT"
| "wire_type_of (Fixed64 _) = Some PB_WT_64BIT"
| "wire_type_of (Str _) = Some PB_WT_STRING"
| "wire_type_of (Tag _ _) = None"

lemma skip_wire:
  "\<lbrakk>valid_value x; wire_type_of x = Some wt\<rbrakk> \<Longrightarrow>
    pb_skip_field (inbuf (wire x @ s) (length (wire x) + n) e) wt = (Some (), inbuf s n e)"
proof (cases x)
  case (Str bs)
  assume "valid_value x" and "wire_type_of x = Some wt"
  then have l: "length bs < 2 ^ 32" and wt: "wt = 2" using Str by (simp_all add: PB_WT_STRING_def)
  have "unat (of_nat (length bs) :: u32) = length bs" using l by (rule unat_of_nat_u32)
  then show ?thesis using varint32_short [of "length bs" "bs @ s" "length bs + n" e] skip_read_inbuf [of bs s n e] l Str wt
    by (simp add: pb_skip_field_def pb_skip_string_def pb_decode_varint32_def PB_WT_VARINT_def PB_WT_64BIT_def PB_WT_STRING_def add.assoc)
next
  case (Fixed32 w)
  assume "wire_type_of x = Some wt"
  then show ?thesis using Fixed32 skip_read_inbuf [of "le32 w" s n e]
    by (auto simp: pb_skip_field_def PB_WT_VARINT_def PB_WT_64BIT_def PB_WT_STRING_def PB_WT_32BIT_def)
next
  case (Fixed64 w)
  assume "wire_type_of x = Some wt"
  then show ?thesis using Fixed64 skip_read_inbuf [of "le64bytes w" s n e]
    by (auto simp: pb_skip_field_def PB_WT_VARINT_def PB_WT_64BIT_def)
qed (auto simp: pb_skip_field_def skip_varint_varint)

text \<open>Bytes without value bits only move the bit position, which wraps around at 256.\<close>

lemma varint32_padding:
  "varint32_loop (inbuf (replicate m 0x80 @ s) (m + n) e) result bitpos = varint32_loop (inbuf s n e) result (bitpos + 7 * of_nat m)"
proof (induction m arbitrary: bitpos)
  case (Suc m)
  have "varint32_loop (inbuf (0x80 # replicate m 0x80 @ s) (Suc (m + n)) e) result bitpos =
      varint32_loop (inbuf (replicate m 0x80 @ s) (m + n) e) result (bitpos + 7)"
    by (cases "bitpos < 32") (simp_all add: varint32_step_low varint32_step_high not_less Let_def)
  then show ?case using Suc by (simp add: algebra_simps)
qed simp

lemma varint64_padding:
  "k + m \<le> 10 \<Longrightarrow> varint64_loop (inbuf (replicate m 0x80 @ s) (m + n) e) result (of_nat (7 * k)) =
    varint64_loop (inbuf s n e) result (of_nat (7 * (k + m)))"
proof (induction m arbitrary: k)
  case (Suc m)
  then have "of_nat (7 * k) < (64 :: u8)" using bitpos_values [of k] by (simp add: word_less_nat_alt del: of_nat_mult)
  moreover have "of_nat (7 * k) + 7 = (of_nat (7 * (k + 1)) :: u8)" by simp
  ultimately show ?case using Suc.IH [of "k + 1"] Suc.prems varint64_step [of "of_nat (7 * k)" "0x80" "replicate m 0x80 @ s" "m + n" e result]
    by (simp del: of_nat_mult of_nat_add)
qed simp

subsection \<open>The readers as codecs\<close>

text \<open>A reader of streams, run on a whole buffer.\<close>

definition buffer_decoder :: "(u8 list pb_istream \<Rightarrow> 'a option \<times> u8 list pb_istream) \<Rightarrow> u8 list \<Rightarrow> ('a \<times> u8 list) option" where
  "buffer_decoder f s = (case f (pb_istream_from_buffer s (length s)) of (None, _) \<Rightarrow> None | (Some x, st) \<Rightarrow> Some (x, is_state st))"

interpretation pb_varint: prefix_codec "\<lambda>_. True" "\<lambda>v. varint (unat v)" "buffer_decoder pb_decode_varint"
  by unfold_locales (simp add: buffer_decoder_def from_buffer decode_varint_varint)

interpretation pb_svarint: prefix_codec "\<lambda>_. True" "\<lambda>v. varint (unat (zigzag v))" "buffer_decoder pb_decode_svarint"
  by unfold_locales (simp add: buffer_decoder_def from_buffer decode_svarint_zigzag)

interpretation pb_string: prefix_codec "\<lambda>bs. length bs < 2 ^ 32" "\<lambda>bs. varint (length bs) @ bs" "buffer_decoder read_string"
  by unfold_locales (use read_string_wire in \<open>simp add: buffer_decoder_def from_buffer\<close>)

section \<open>Properties\<close>

text \<open>C12: whatever valid values are written with the encoder's calls into a buffer of enough room, every call succeeds, the buffer starts with
  their wire format, and the decoder's calls read the same values back and leave the stream right behind them.\<close>

theorem pb_wire_roundtrip:
  assumes "list_all valid_value xs" and "length (concat (map wire xs)) \<le> sz" and "sz \<le> length buf" and "sz < SIZE_MAX_1"
  shows "\<exists>mem. write_values (pb_ostream_from_buffer buf sz) xs = (True, outbuf mem (length (concat (map wire xs))) sz None) \<and>
    take (length (concat (map wire xs))) mem = concat (map wire xs) \<and>
    read_values xs (pb_istream_from_buffer mem (length (concat (map wire xs)))) =
      (Some xs, pb_istream_from_buffer (drop (length (concat (map wire xs))) mem) 0)"
proof -
  let ?w = "concat (map wire xs)"
  obtain mem where m: "write_values (pb_ostream_from_buffer buf sz) xs = (True, outbuf mem (length ?w) sz None)" "take (length ?w) mem = ?w"
    using wrote_values [OF assms(1) _ assms(4,3), of 0] assms(2) unfolding wrote_def to_buffer by auto
  have "mem = ?w @ drop (length ?w) mem" using m(2) by (metis append_take_drop_id)
  then have "read_values xs (pb_istream_from_buffer mem (length ?w)) = (Some xs, pb_istream_from_buffer (drop (length ?w) mem) 0)"
    using read_wires [OF assms(1), of "drop (length ?w) mem" 0 None] unfolding from_buffer by (metis add.right_neutral)
  then show ?thesis using m by blast
qed

theorem pb_wire_roundtrip_witness:
  "\<exists>mem. write_values (pb_ostream_from_buffer (replicate 16 0) 16) [Tag 0 1, Varint 300, Tag 2 2, Str [104, 105]] =
      (True, outbuf mem (length (concat (map wire [Tag 0 1, Varint 300, Tag 2 2, Str [104, 105]]))) 16 None) \<and>
    take (length (concat (map wire [Tag 0 1, Varint 300, Tag 2 2, Str [104, 105]]))) mem =
      concat (map wire [Tag 0 1, Varint 300, Tag 2 2, Str [104, 105]]) \<and>
    read_values [Tag 0 1, Varint 300, Tag 2 2, Str [104, 105]]
        (pb_istream_from_buffer mem (length (concat (map wire [Tag 0 1, Varint 300, Tag 2 2, Str [104, 105]])))) =
      (Some [Tag 0 1, Varint 300, Tag 2 2, Str [104, 105]],
       pb_istream_from_buffer (drop (length (concat (map wire [Tag 0 1, Varint 300, Tag 2 2, Str [104, 105]]))) mem) 0)"
  by (rule pb_wire_roundtrip) (simp_all add: varint.simps SIZE_MAX_1_def)

text \<open>C14: however many values are written, a buffer stream never changes a byte at or after its size, keeps its position within it, and
  reports \<^verbatim>\<open>stream full\<close> exactly when the values do not fit; a sizing stream counts exactly the bytes that would be written.\<close>

theorem pb_write_bounded:
  assumes "list_all valid_value xs" and "sz \<le> length buf" and "sz < SIZE_MAX_1" and "length (concat (map wire xs)) < SIZE_MAX_1"
  shows "(\<exists>mem pos. write_values (pb_ostream_from_buffer buf sz) xs =
      (if length (concat (map wire xs)) \<le> sz then (True, outbuf mem pos sz None) else (False, outbuf mem pos sz (Some ''stream full''))) \<and>
    pos \<le> sz \<and> length mem = length buf \<and> drop sz mem = drop sz buf) \<and>
    write_values (PB_OSTREAM_SIZING null) xs =
      (True, (PB_OSTREAM_SIZING null)\<lparr>os_bytes_written := length (concat (map wire xs))\<rparr>)"
  using wrote_values [OF assms(1) _ assms(3,2), of 0] size_values [OF assms(1), of "PB_OSTREAM_SIZING null"] assms(4)
  unfolding wrote_def to_buffer by (auto simp: PB_OSTREAM_SIZING_def split: if_splits)

theorem pb_write_bounded_witness:
  "(\<exists>mem pos. write_values (pb_ostream_from_buffer [9, 9, 9, 9] 3) [Varint 300, Fixed32 7] =
      (if length (concat (map wire [Varint 300, Fixed32 7])) \<le> 3 then (True, outbuf mem pos 3 None)
       else (False, outbuf mem pos 3 (Some ''stream full''))) \<and>
    pos \<le> 3 \<and> length mem = length [9, 9, 9, 9 :: u8] \<and> drop 3 mem = drop 3 [9, 9, 9, 9]) \<and>
    write_values (PB_OSTREAM_SIZING ()) [Varint 300, Fixed32 7] =
      (True, (PB_OSTREAM_SIZING ())\<lparr>os_bytes_written := length (concat (map wire [Varint 300, Fixed32 7]))\<rparr>)"
  by (rule pb_write_bounded) (simp_all add: varint.simps SIZE_MAX_1_def)

text \<open>C25: the 32-bit reader of varints on the encoding of a 64-bit number: below \<open>2 ^ 32\<close> it returns the number, for the sign extension of a
  negative 32-bit number its low word, and between \<open>2 ^ 32\<close> and \<open>2 ^ 63\<close> it reports an overflow. The bytes after the encoding are left alone.\<close>

theorem pb_varint32_exact:
  "(unat v < 2 ^ 32 \<or> 2 ^ 64 - 2 ^ 31 \<le> unat v \<longrightarrow>
      pb_decode_varint32 (pb_istream_from_buffer (varint (unat v) @ s) (length (varint (unat v)) + n)) =
        (Some (ucast (v :: u64)), pb_istream_from_buffer s n)) \<and>
   (2 ^ 32 \<le> unat v \<and> unat v < 2 ^ 63 \<longrightarrow>
      (\<exists>st. pb_decode_varint32 (pb_istream_from_buffer (varint (unat v) @ s) (length (varint (unat v)) + n)) = (None, st) \<and>
        is_errmsg st = Some ''varint overflow''))"
proof -
  let ?r = "pb_decode_varint32_eof (inbuf (varint (unat v) @ s) (length (varint (unat v)) + n) None)"
  have c: "(of_nat (unat v) :: u32) = ucast v" by (rule word_unat_eq_iff [THEN iffD2]) (simp add: unat_of_nat unat_ucast)
  have "?r = ((Some (ucast v), inbuf s n None), False)" if "unat v < 2 ^ 32 \<or> 2 ^ 64 - 2 ^ 31 \<le> unat v"
    using that
  proof
    assume "unat v < 2 ^ 32"
    then show ?thesis using varint32_short [of "unat v" s n None] by (simp only: c) simp
  next
    assume "2 ^ 64 - 2 ^ 31 \<le> unat v"
    then show ?thesis using varint32_negative [of "unat v" s n None] u64_bound [of v] by (simp only: c) simp
  qed
  moreover have "\<exists>st. fst ?r = (None, st) \<and> is_errmsg st = Some ''varint overflow''" if a: "2 ^ 32 \<le> unat v" and b: "unat v < 2 ^ 63"
  proof (cases "unat v < 2 ^ 35")
    case True
    then show ?thesis using varint32_short [of "unat v" s n None] a by (simp add: first_error_def)
  next
    case False
    then obtain t m where "?r = ((None, inbuf t m (first_error None ''varint overflow'')), False)"
      using varint32_too_large [of "unat v" s n None] b linorder_not_less by blast
    then show ?thesis by (simp add: first_error_def)
  qed
  ultimately show ?thesis unfolding pb_decode_varint32_def from_buffer by simp
qed

theorem pb_varint32_exact_witness:
  "pb_decode_varint32 (pb_istream_from_buffer (varint 18446744073709551615 @ [7]) (length (varint 18446744073709551615) + 1)) =
    (Some (ucast (18446744073709551615 :: u64)), pb_istream_from_buffer [7] 1)"
  using pb_varint32_exact [of 18446744073709551615 "[7]" 1] by simp

text \<open>skipping an unknown field by its wire type passes exactly over the bytes of its value, whatever the value.\<close>

lemma pb_skip_exact:
  "\<lbrakk>valid_value x; wire_type_of x = Some wt\<rbrakk> \<Longrightarrow>
    pb_skip_field (pb_istream_from_buffer (wire x @ s) (length (wire x) + n)) wt = (Some (), pb_istream_from_buffer s n)"
  unfolding from_buffer by (rule skip_wire)

text \<open>C35: the bit position of the 32-bit reader is an eight-bit counter that wraps around. A varint of 38 bytes, which the 64-bit
  reader rejects, is accepted as the number 8.\<close>

theorem pb_varint32_wraps:
  "pb_decode_varint32 (pb_istream_from_buffer (replicate 37 0x80 @ [1]) 38) = (Some 8, pb_istream_from_buffer [] 0) \<and>
   (\<exists>st. pb_decode_varint (pb_istream_from_buffer (replicate 37 0x80 @ [1]) 38) = (None, st) \<and> is_errmsg st = Some ''varint overflow'')"
proof
  have "varint32_loop (inbuf (replicate 36 0x80 @ [1]) (36 + 1) None) 0 7 = varint32_loop (inbuf [1] 1 None) 0 3"
  proof -
    have "7 + 7 * of_nat 36 = (3 :: u8)" by (rule word_unat_eq_iff [THEN iffD2]) simp
    then show ?thesis by (simp only: varint32_padding)
  qed
  also have "\<dots> = (Some (8, 1, 10), inbuf [] 0 None)" using varint32_step_low [of 3 1 "[]" 0 None 0] by simp
  finally have l: "varint32_loop (inbuf (replicate 36 0x80 @ [1]) (36 + 1) None) 0 7 = (Some (8, 1, 10), inbuf [] 0 None)" .
  show "pb_decode_varint32 (pb_istream_from_buffer (replicate 37 0x80 @ [1]) 38) = (Some 8, pb_istream_from_buffer [] 0)"
  proof -
    have "replicate 37 (0x80 :: u8) @ [1] = 0x80 # replicate 36 0x80 @ [1]" "(38 :: nat) = Suc 37"
      using replicate_Suc [of 36 "0x80 :: u8"] by simp_all
    then have "pb_readbyte (inbuf (replicate 37 0x80 @ [1]) 38 None) = (Some 0x80, inbuf (replicate 36 0x80 @ [1]) 37 None)"
      by (simp only: readbyte_Cons)
    then show ?thesis using l by (simp add: pb_decode_varint32_def pb_decode_varint32_eof_def from_buffer)
  qed
next
  show "\<exists>st. pb_decode_varint (pb_istream_from_buffer (replicate 37 0x80 @ [1]) 38) = (None, st) \<and> is_errmsg st = Some ''varint overflow''"
  proof -
    have "replicate 37 (0x80 :: u8) @ [1] = replicate 10 0x80 @ replicate 27 0x80 @ [1]"
      unfolding append_assoc [symmetric] replicate_add [symmetric] by simp
    then show ?thesis using varint64_padding [of 0 10 "replicate 27 0x80 @ [1]" 28 None 0]
      by (simp add: pb_decode_varint_def from_buffer varint64_loop.simps [of _ _ 70] first_error_def)
  qed
qed

end
