(* ===== verification/Pb_Field.thy ===== *)
theory Pb_Field
  imports Pb_Stream
begin

text \<open>
  The field codecs of \<^verbatim>\<open>nanopb\<close>: how a member of a message structure is written to and read from a stream. The memory
  of a member is the list of its bytes, little-endian as on the target; \<^verbatim>\<open>pb_size_t\<close> has 32 bits
  (\<^verbatim>\<open>PB_FIELD_32BIT\<close>). The pointer of a descriptor, to the descriptors of a submessage or to a default value, is not used by
  these functions.
\<close>

section \<open>Model: descriptors\<close>

definition PB_LTYPE_BOOL :: u8 where
  "PB_LTYPE_BOOL = 0x00"

definition PB_LTYPE_VARINT :: u8 where
  "PB_LTYPE_VARINT = 0x01"

definition PB_LTYPE_UVARINT :: u8 where
  "PB_LTYPE_UVARINT = 0x02"

definition PB_LTYPE_SVARINT :: u8 where
  "PB_LTYPE_SVARINT = 0x03"

definition PB_LTYPE_FIXED32 :: u8 where
  "PB_LTYPE_FIXED32 = 0x04"

definition PB_LTYPE_FIXED64 :: u8 where
  "PB_LTYPE_FIXED64 = 0x05"

definition PB_LTYPE_LAST_PACKABLE :: u8 where
  "PB_LTYPE_LAST_PACKABLE = 0x05"

definition PB_LTYPE_BYTES :: u8 where
  "PB_LTYPE_BYTES = 0x06"

definition PB_LTYPE_STRING :: u8 where
  "PB_LTYPE_STRING = 0x07"

definition PB_LTYPE_SUBMESSAGE :: u8 where
  "PB_LTYPE_SUBMESSAGE = 0x08"

definition PB_LTYPE_FIXED_LENGTH_BYTES :: u8 where
  "PB_LTYPE_FIXED_LENGTH_BYTES = 0x0A"

definition PB_ATYPE_STATIC :: u8 where
  "PB_ATYPE_STATIC = 0x00"

definition PB_ATYPE_POINTER :: u8 where
  "PB_ATYPE_POINTER = 0x80"

definition PB_ATYPE :: "u8 \<Rightarrow> u8" where
  "PB_ATYPE x = x AND 0xC0"

definition PB_LTYPE :: "u8 \<Rightarrow> u8" where
  "PB_LTYPE x = x AND 0x0F"

record pb_field =
  fld_tag :: u32
  fld_type :: u8
  fld_data_offset :: u32
  fld_size_offset :: u32
  fld_data_size :: u32
  fld_array_size :: u32

section \<open>Model: encoders\<close>

definition le_nat :: "u8 list \<Rightarrow> nat" where
  "le_nat bs = be_nat (rev bs)"

definition le_bytes :: "nat \<Rightarrow> nat \<Rightarrow> u8 list" where
  "le_bytes n v = rev (be_bytes n v)"

definition safe_read_bool :: "u8 list \<Rightarrow> bool" where
  "safe_read_bool p \<longleftrightarrow> (\<exists>i\<in>set [0..<1]. p ! i \<noteq> 0)"

definition pb_encode_tag_for_field :: "'s pb_ostream \<Rightarrow> pb_field \<Rightarrow> bool \<times> 's pb_ostream" where
  "pb_encode_tag_for_field st field =
     (let lt = PB_LTYPE (fld_type field)
      in if lt = PB_LTYPE_BOOL \<or> lt = PB_LTYPE_VARINT \<or> lt = PB_LTYPE_UVARINT \<or> lt = PB_LTYPE_SVARINT
         then pb_encode_tag st PB_WT_VARINT (fld_tag field)
         else if lt = PB_LTYPE_FIXED32 then pb_encode_tag st PB_WT_32BIT (fld_tag field)
         else if lt = PB_LTYPE_FIXED64 then pb_encode_tag st PB_WT_64BIT (fld_tag field)
         else if lt = PB_LTYPE_BYTES \<or> lt = PB_LTYPE_STRING \<or> lt = PB_LTYPE_SUBMESSAGE \<or> lt = PB_LTYPE_FIXED_LENGTH_BYTES
         then pb_encode_tag st PB_WT_STRING (fld_tag field)
         else os_error st ''invalid field type'')"

definition pb_enc_bool :: "'s pb_ostream \<Rightarrow> pb_field \<Rightarrow> u8 list \<Rightarrow> bool \<times> 's pb_ostream" where
  "pb_enc_bool st field src = pb_encode_varint st (if safe_read_bool src then 1 else 0)"

text \<open>An integer of \<^verbatim>\<open>data_size\<close> bytes as a 64-bit word, with or without sign extension.\<close>

definition load_signed :: "nat \<Rightarrow> u8 list \<Rightarrow> u64 option" where
  "load_signed data_size src =
     (if data_size = 1 then Some (scast (of_nat (le_nat (take 1 src)) :: u8))
      else if data_size = 2 then Some (scast (of_nat (le_nat (take 2 src)) :: u16))
      else if data_size = 4 then Some (scast (of_nat (le_nat (take 4 src)) :: u32))
      else if data_size = 8 then Some (of_nat (le_nat (take 8 src)))
      else None)"

definition load_unsigned :: "nat \<Rightarrow> u8 list \<Rightarrow> u64 option" where
  "load_unsigned data_size src =
     (if data_size = 1 then Some (of_nat (le_nat (take 1 src)))
      else if data_size = 2 then Some (of_nat (le_nat (take 2 src)))
      else if data_size = 4 then Some (of_nat (le_nat (take 4 src)))
      else if data_size = 8 then Some (of_nat (le_nat (take 8 src)))
      else None)"

definition pb_enc_varint :: "'s pb_ostream \<Rightarrow> pb_field \<Rightarrow> u8 list \<Rightarrow> bool \<times> 's pb_ostream" where
  "pb_enc_varint st field src =
     (case load_signed (unat (fld_data_size field)) src of
        None \<Rightarrow> os_error st ''invalid data_size''
      | Some v \<Rightarrow> pb_encode_varint st v)"

definition pb_enc_uvarint :: "'s pb_ostream \<Rightarrow> pb_field \<Rightarrow> u8 list \<Rightarrow> bool \<times> 's pb_ostream" where
  "pb_enc_uvarint st field src =
     (case load_unsigned (unat (fld_data_size field)) src of
        None \<Rightarrow> os_error st ''invalid data_size''
      | Some v \<Rightarrow> pb_encode_varint st v)"

definition pb_enc_svarint :: "'s pb_ostream \<Rightarrow> pb_field \<Rightarrow> u8 list \<Rightarrow> bool \<times> 's pb_ostream" where
  "pb_enc_svarint st field src =
     (case load_signed (unat (fld_data_size field)) src of
        None \<Rightarrow> os_error st ''invalid data_size''
      | Some v \<Rightarrow> pb_encode_svarint st v)"

definition pb_enc_fixed32 :: "'s pb_ostream \<Rightarrow> pb_field \<Rightarrow> u8 list \<Rightarrow> bool \<times> 's pb_ostream" where
  "pb_enc_fixed32 st field src = pb_encode_fixed32 st (of_nat (le_nat (take 4 src)))"

definition pb_enc_fixed64 :: "'s pb_ostream \<Rightarrow> pb_field \<Rightarrow> u8 list \<Rightarrow> bool \<times> 's pb_ostream" where
  "pb_enc_fixed64 st field src = pb_encode_fixed64 st (of_nat (le_nat (take 8 src)))"

text \<open>A \<^verbatim>\<open>pb_bytes_array_t\<close> is a size of four bytes and the bytes; \<^term>\<open>None\<close> is the null pointer.\<close>

definition pb_enc_bytes :: "'s pb_ostream \<Rightarrow> pb_field \<Rightarrow> u8 list option \<Rightarrow> bool \<times> 's pb_ostream" where
  "pb_enc_bytes st field src =
     (case src of
        None \<Rightarrow> pb_encode_string st [] 0
      | Some bytes \<Rightarrow>
          if PB_ATYPE (fld_type field) = PB_ATYPE_STATIC \<and> (ucast (fld_data_size field) :: u64) - 4 < of_nat (le_nat (take 4 bytes))
          then os_error st ''bytes size exceeded''
          else pb_encode_string st (drop 4 bytes) (le_nat (take 4 bytes)))"

definition pb_enc_string :: "'s pb_ostream \<Rightarrow> pb_field \<Rightarrow> u8 list option \<Rightarrow> bool \<times> 's pb_ostream" where
  "pb_enc_string st field src =
     (let max_size = (if PB_ATYPE (fld_type field) = PB_ATYPE_POINTER then SIZE_MAX_1 - 1 else unat (fld_data_size field))
      in case src of
           None \<Rightarrow> pb_encode_string st [] 0
         | Some p \<Rightarrow> pb_encode_string st p (length (takeWhile (\<lambda>c. c \<noteq> 0) (take max_size p))))"

definition pb_enc_fixed_length_bytes :: "'s pb_ostream \<Rightarrow> pb_field \<Rightarrow> u8 list \<Rightarrow> bool \<times> 's pb_ostream" where
  "pb_enc_fixed_length_bytes st field src = pb_encode_string st src (unat (fld_data_size field))"

text \<open>The entries of the table of encoders for the types that can be packed.\<close>

definition scalar_encoder :: "u8 \<Rightarrow> 's pb_ostream \<Rightarrow> pb_field \<Rightarrow> u8 list \<Rightarrow> bool \<times> 's pb_ostream" where
  "scalar_encoder lt =
     (if lt = PB_LTYPE_BOOL then pb_enc_bool
      else if lt = PB_LTYPE_VARINT then pb_enc_varint
      else if lt = PB_LTYPE_UVARINT then pb_enc_uvarint
      else if lt = PB_LTYPE_SVARINT then pb_enc_svarint
      else if lt = PB_LTYPE_FIXED32 then pb_enc_fixed32
      else pb_enc_fixed64)"

text \<open>The entries of an array are the list of what the encoder of an entry is given.\<close>

fun encode_entries :: "('s pb_ostream \<Rightarrow> 'a \<Rightarrow> bool \<times> 's pb_ostream) \<Rightarrow> 's pb_ostream \<Rightarrow> 'a list \<Rightarrow> bool \<times> 's pb_ostream" where
  "encode_entries enc st [] = (True, st)"
| "encode_entries enc st (x # xs) = and_then (enc st x) (\<lambda>st. encode_entries enc st xs)"

definition packed_size :: "pb_field \<Rightarrow> 'a list \<Rightarrow> ('s pb_ostream \<Rightarrow> pb_field \<Rightarrow> 'a \<Rightarrow> bool \<times> 's pb_ostream) \<Rightarrow> 's \<Rightarrow> nat option" where
  "packed_size field items func null =
     (let lt = PB_LTYPE (fld_type field)
      in if lt = PB_LTYPE_FIXED32 then Some (4 * length items mod SIZE_MAX_1)
         else if lt = PB_LTYPE_FIXED64 then Some (8 * length items mod SIZE_MAX_1)
         else
           (case encode_entries (\<lambda>st x. func st field x) (PB_OSTREAM_SIZING null) items of
              (ok, sizestream) \<Rightarrow> if ok then Some (os_bytes_written sizestream) else None))"

definition encode_array ::
    "'s pb_ostream \<Rightarrow> pb_field \<Rightarrow> 'a list \<Rightarrow> ('s pb_ostream \<Rightarrow> pb_field \<Rightarrow> 'a \<Rightarrow> bool \<times> 's pb_ostream) \<Rightarrow> bool \<times> 's pb_ostream" where
  "encode_array st field items func =
     (if items = [] then (True, st)
      else if PB_ATYPE (fld_type field) \<noteq> PB_ATYPE_POINTER \<and> unat (fld_array_size field) < length items
      then os_error st ''array max size exceeded''
      else if PB_LTYPE (fld_type field) \<le> PB_LTYPE_LAST_PACKABLE
      then
        and_then (pb_encode_tag st PB_WT_STRING (fld_tag field))
          (\<lambda>st.
             case packed_size field items func (os_state st) of
               None \<Rightarrow> (False, st)
             | Some n \<Rightarrow>
                 and_then (pb_encode_varint st (of_nat n))
                   (\<lambda>st. if os_callback st = None then pb_write st [] n
                         else encode_entries (\<lambda>st x. func st field x) st items))
      else encode_entries (\<lambda>st x. and_then (pb_encode_tag_for_field st field) (\<lambda>st. func st field x)) st items)"

section \<open>Model: decoders\<close>

text \<open>A decoder returns whether it succeeded, the stream, and the memory of the member.\<close>

definition store :: "'a option \<times> 's pb_istream \<Rightarrow> ('a \<Rightarrow> u8 list) \<Rightarrow> u8 list \<Rightarrow> bool \<times> ('s pb_istream \<times> u8 list)" where
  "store r f dest = (case r of (None, st) \<Rightarrow> (False, st, dest) | (Some v, st) \<Rightarrow> (True, st, f v))"

definition dec_error :: "'s pb_istream \<Rightarrow> string \<Rightarrow> u8 list \<Rightarrow> bool \<times> ('s pb_istream \<times> u8 list)" where
  "dec_error st msg dest = (False, snd (is_error st msg :: unit option \<times> 's pb_istream), dest)"

definition pb_dec_bool :: "'s pb_istream \<Rightarrow> pb_field \<Rightarrow> u8 list \<Rightarrow> bool \<times> ('s pb_istream \<times> u8 list)" where
  "pb_dec_bool st field dest = store (pb_decode_varint32 st) (\<lambda>v. [if v \<noteq> 0 then 1 else 0]) dest"

text \<open>What is stored for a signed or an unsigned value, and the value that is read back from there.\<close>

definition clamp_signed :: "nat \<Rightarrow> u64 \<Rightarrow> (u8 list \<times> u64) option" where
  "clamp_signed data_size v =
     (if data_size = 8 then Some (le_bytes 8 (unat v), v)
      else if data_size = 4 then Some (le_bytes 4 (unat (ucast v :: u32)), scast (ucast v :: u32))
      else if data_size = 2 then Some (le_bytes 2 (unat (ucast v :: u16)), scast (ucast v :: u16))
      else if data_size = 1 then Some (le_bytes 1 (unat (ucast v :: u8)), scast (ucast v :: u8))
      else None)"

definition clamp_unsigned :: "nat \<Rightarrow> u64 \<Rightarrow> (u8 list \<times> u64) option" where
  "clamp_unsigned data_size v =
     (if data_size = 8 then Some (le_bytes 8 (unat v), v)
      else if data_size = 4 then Some (le_bytes 4 (unat (ucast v :: u32)), ucast (ucast v :: u32))
      else if data_size = 2 then Some (le_bytes 2 (unat (ucast v :: u16)), ucast (ucast v :: u16))
      else if data_size = 1 then Some (le_bytes 1 (unat (ucast v :: u8)), ucast (ucast v :: u8))
      else None)"

definition store_clamped :: "'s pb_istream \<Rightarrow> (u8 list \<times> u64) option \<Rightarrow> u64 \<Rightarrow> u8 list \<Rightarrow> bool \<times> ('s pb_istream \<times> u8 list)" where
  "store_clamped st c v dest =
     (case c of
        None \<Rightarrow> dec_error st ''invalid data_size'' dest
      | Some (bytes, clamped) \<Rightarrow> if clamped \<noteq> v then dec_error st ''integer too large'' bytes else (True, st, bytes))"

definition pb_dec_varint :: "'s pb_istream \<Rightarrow> pb_field \<Rightarrow> u8 list \<Rightarrow> bool \<times> ('s pb_istream \<times> u8 list)" where
  "pb_dec_varint st field dest =
     (case pb_decode_varint st of
        (None, st') \<Rightarrow> (False, st', dest)
      | (Some v, st') \<Rightarrow>
          (let svalue = (if fld_data_size field = 8 then v else scast (ucast v :: u32))
           in store_clamped st' (clamp_signed (unat (fld_data_size field)) svalue) svalue dest))"

definition pb_dec_uvarint :: "'s pb_istream \<Rightarrow> pb_field \<Rightarrow> u8 list \<Rightarrow> bool \<times> ('s pb_istream \<times> u8 list)" where
  "pb_dec_uvarint st field dest =
     (case pb_decode_varint st of
        (None, st') \<Rightarrow> (False, st', dest)
      | (Some v, st') \<Rightarrow> store_clamped st' (clamp_unsigned (unat (fld_data_size field)) v) v dest)"

definition pb_dec_svarint :: "'s pb_istream \<Rightarrow> pb_field \<Rightarrow> u8 list \<Rightarrow> bool \<times> ('s pb_istream \<times> u8 list)" where
  "pb_dec_svarint st field dest =
     (case pb_decode_svarint st of
        (None, st') \<Rightarrow> (False, st', dest)
      | (Some v, st') \<Rightarrow> store_clamped st' (clamp_signed (unat (fld_data_size field)) v) v dest)"

definition pb_dec_fixed32 :: "'s pb_istream \<Rightarrow> pb_field \<Rightarrow> u8 list \<Rightarrow> bool \<times> ('s pb_istream \<times> u8 list)" where
  "pb_dec_fixed32 st field dest = store (pb_decode_fixed32 st) (\<lambda>v. le_bytes 4 (unat v)) dest"

definition pb_dec_fixed64 :: "'s pb_istream \<Rightarrow> pb_field \<Rightarrow> u8 list \<Rightarrow> bool \<times> ('s pb_istream \<times> u8 list)" where
  "pb_dec_fixed64 st field dest = store (pb_decode_fixed64 st) (\<lambda>v. le_bytes 8 (unat v)) dest"

definition pb_dec_fixed_length_bytes :: "'s pb_istream \<Rightarrow> pb_field \<Rightarrow> u8 list \<Rightarrow> bool \<times> ('s pb_istream \<times> u8 list)" where
  "pb_dec_fixed_length_bytes st field dest =
     (case pb_decode_varint32 st of
        (None, st') \<Rightarrow> (False, st', dest)
      | (Some n, st') \<Rightarrow>
          if n = 0 then (True, st', replicate (unat (fld_data_size field)) 0)
          else if n \<noteq> fld_data_size field then dec_error st' ''incorrect fixed length bytes size'' dest
          else store (pb_read st' False (unat (fld_data_size field))) (\<lambda>bs. bs) dest)"

definition scalar_decoder :: "u8 \<Rightarrow> 's pb_istream \<Rightarrow> pb_field \<Rightarrow> u8 list \<Rightarrow> bool \<times> ('s pb_istream \<times> u8 list)" where
  "scalar_decoder lt =
     (if lt = PB_LTYPE_BOOL then pb_dec_bool
      else if lt = PB_LTYPE_VARINT then pb_dec_varint
      else if lt = PB_LTYPE_UVARINT then pb_dec_uvarint
      else if lt = PB_LTYPE_SVARINT then pb_dec_svarint
      else if lt = PB_LTYPE_FIXED32 then pb_dec_fixed32
      else pb_dec_fixed64)"

text \<open>
  The case of a repeated member in \<^verbatim>\<open>decode_static_field\<close>: the array, the count of its entries that are in use, and the decoder
  of an entry. The loop over a packed array ends because the count grows.
\<close>

function packed_loop ::
    "('s pb_istream \<Rightarrow> pb_field \<Rightarrow> u8 list \<Rightarrow> bool \<times> ('s pb_istream \<times> u8 list)) \<Rightarrow> pb_field \<Rightarrow> 's pb_istream \<Rightarrow> u8 list list \<Rightarrow> nat \<Rightarrow>
      bool \<times> 's pb_istream \<times> u8 list list \<times> nat" where
  "packed_loop func field sub items n =
     (if 0 < is_bytes_left sub \<and> n < unat (fld_array_size field)
      then
        (case func sub field (items ! n) of
           (ok, sub', item) \<Rightarrow>
             if ok then packed_loop func field sub' (items[n := item]) (n + 1) else (False, sub', items[n := item], n))
      else (True, sub, items, n))"
  by pat_completeness auto
termination
  by (relation "measure (\<lambda>(_, field, _, _, n). unat (fld_array_size field) - n)") auto

declare packed_loop.simps [simp del]

definition decode_static_repeated ::
    "'s pb_istream \<Rightarrow> nat \<Rightarrow> pb_field \<Rightarrow> ('s pb_istream \<Rightarrow> pb_field \<Rightarrow> u8 list \<Rightarrow> bool \<times> ('s pb_istream \<times> u8 list)) \<Rightarrow> u8 list list \<Rightarrow> nat \<Rightarrow>
      bool \<times> 's pb_istream \<times> u8 list list \<times> nat" where
  "decode_static_repeated st wire_type field func items n =
     (if wire_type = PB_WT_STRING \<and> PB_LTYPE (fld_type field) \<le> PB_LTYPE_LAST_PACKABLE
      then
        (case pb_make_string_substream st of
           (None, st') \<Rightarrow> (False, st', items, n)
         | (Some sub, st') \<Rightarrow>
             (case packed_loop func field sub items n of
                (status, sub', items', n') \<Rightarrow>
                  if is_bytes_left sub' \<noteq> 0 then (False, snd (is_error st' ''array overflow'' :: unit option \<times> 's pb_istream), items', n')
                  else
                    (case pb_close_string_substream st' sub' of
                       (None, st'') \<Rightarrow> (False, st'', items', n')
                     | (Some _, st'') \<Rightarrow> (status, st'', items', n'))))
      else if unat (fld_array_size field) \<le> n
      then (False, snd (is_error st ''array overflow'' :: unit option \<times> 's pb_istream), items, n + 1)
      else (case func st field (items ! n) of (ok, st', item) \<Rightarrow> (ok, st', items[n := item], n + 1)))"

section \<open>One entry\<close>

lemma le_nat_bound: "le_nat bs < 256 ^ length bs"
  using be_nat_bound [of "rev bs"] by (simp add: le_nat_def)

lemma le_bytes_le_nat: "length bs = n \<Longrightarrow> le_bytes n (le_nat bs) = bs"
  by (simp add: le_bytes_def le_nat_def be_bytes_be_nat)

lemma unat_load:
  "length bs = 1 \<Longrightarrow> unat (of_nat (le_nat bs) :: u8) = le_nat bs"
  "length bs = 2 \<Longrightarrow> unat (of_nat (le_nat bs) :: u16) = le_nat bs"
  "length bs = 4 \<Longrightarrow> unat (of_nat (le_nat bs) :: u32) = le_nat bs"
  "length bs = 8 \<Longrightarrow> unat (of_nat (le_nat bs) :: u64) = le_nat bs"
  using le_nat_bound [of bs] by (simp_all add: unat_of_nat)

lemma cast_back:
  "ucast (scast (b :: u8) :: u64) = b" "ucast (scast (h :: u16) :: u64) = h" "ucast (scast (w :: u32) :: u64) = w"
  by (rule bit_word_eqI, simp add: bit_simps)+

lemma cast_through:
  "scast (ucast (scast (b :: u8) :: u64) :: u32) = (scast b :: u64)" "scast (ucast (scast (h :: u16) :: u64) :: u32) = (scast h :: u64)"
  "scast (ucast (scast (w :: u32) :: u64) :: u32) = (scast w :: u64)"
  by (rule bit_word_eqI, auto simp: bit_simps min_def)+

lemma clamp_signed_load:
  assumes "length src = n" and "load_signed n src = Some v"
  shows "clamp_signed n v = Some (src, v)" and "n \<noteq> 8 \<Longrightarrow> scast (ucast v :: u32) = v"
proof -
  consider "n = 1" | "n = 2" | "n = 4" | "n = 8" using assms(2) by (auto simp: load_signed_def split: if_splits)
  then show "clamp_signed n v = Some (src, v)" "n \<noteq> 8 \<Longrightarrow> scast (ucast v :: u32) = v"
    using assms unat_load [of src] by (cases; auto simp: load_signed_def clamp_signed_def cast_back cast_through le_bytes_le_nat)+
qed

lemma ucast_of_nat_small:
  "\<lbrakk>x < 2 ^ LENGTH('a); x < 2 ^ LENGTH('b)\<rbrakk> \<Longrightarrow> (ucast (of_nat x :: 'a::len word) :: 'b::len word) = of_nat x"
  by (rule word_unat_eq_iff [THEN iffD2]) (simp add: unat_ucast unat_of_nat)

lemma clamp_unsigned_load:
  assumes "length src = n" and "load_unsigned n src = Some v"
  shows "clamp_unsigned n v = Some (src, v)"
proof -
  have v: "v = of_nat (le_nat src)" and n: "n = 1 \<or> n = 2 \<or> n = 4 \<or> n = 8"
    using assms by (auto simp: load_unsigned_def split: if_splits)
  have b: "le_nat src < 256 ^ n" using le_nat_bound [of src] assms(1) by simp
  then show ?thesis using n assms(1) unat_load [of src] unfolding v
    by (elim disjE) (simp_all add: clamp_unsigned_def le_bytes_le_nat ucast_of_nat_small)
qed

text \<open>The entries of which the bytes come back, and their bytes on the wire.\<close>

definition valid_item :: "pb_field \<Rightarrow> u8 list \<Rightarrow> bool" where
  "valid_item field src \<longleftrightarrow>
     (let lt = PB_LTYPE (fld_type field)
      in if lt = PB_LTYPE_BOOL then src = [0] \<or> src = [1]
         else if lt = PB_LTYPE_FIXED32 then length src = 4
         else if lt = PB_LTYPE_FIXED64 then length src = 8
         else length src = unat (fld_data_size field) \<and> unat (fld_data_size field) \<in> {1, 2, 4, 8})"

definition item_value :: "pb_field \<Rightarrow> u8 list \<Rightarrow> wire_value" where
  "item_value field src =
     (let lt = PB_LTYPE (fld_type field); n = unat (fld_data_size field)
      in if lt = PB_LTYPE_BOOL then Varint (if src = [0] then 0 else 1)
         else if lt = PB_LTYPE_VARINT then Varint (the (load_signed n src))
         else if lt = PB_LTYPE_UVARINT then Varint (the (load_unsigned n src))
         else if lt = PB_LTYPE_SVARINT then Svarint (the (load_signed n src))
         else if lt = PB_LTYPE_FIXED32 then Fixed32 (of_nat (le_nat src))
         else Fixed64 (of_nat (le_nat src)))"

lemmas ltype_defs = PB_LTYPE_BOOL_def PB_LTYPE_VARINT_def PB_LTYPE_UVARINT_def PB_LTYPE_SVARINT_def PB_LTYPE_FIXED32_def
  PB_LTYPE_FIXED64_def PB_LTYPE_LAST_PACKABLE_def

lemma packable_cases:
  assumes "lt \<le> PB_LTYPE_LAST_PACKABLE"
  obtains "lt = PB_LTYPE_BOOL" | "lt = PB_LTYPE_VARINT" | "lt = PB_LTYPE_UVARINT" | "lt = PB_LTYPE_SVARINT"
    | "lt = PB_LTYPE_FIXED32" | "lt = PB_LTYPE_FIXED64"
proof -
  have "unat lt \<le> 5" using assms by (simp add: PB_LTYPE_LAST_PACKABLE_def word_le_nat_alt)
  then have "unat lt = 0 \<or> unat lt = 1 \<or> unat lt = 2 \<or> unat lt = 3 \<or> unat lt = 4 \<or> unat lt = 5" by linarith
  then have "lt = of_nat 0 \<or> lt = of_nat 1 \<or> lt = of_nat 2 \<or> lt = of_nat 3 \<or> lt = of_nat 4 \<or> lt = of_nat 5"
    using eq_of_nat by metis
  then show ?thesis using that by (auto simp: ltype_defs)
qed

lemma load_some: "n \<in> {1, 2, 4, 8} \<Longrightarrow> \<exists>v. load_signed n src = Some v"
    "n \<in> {1, 2, 4, 8} \<Longrightarrow> \<exists>v. load_unsigned n src = Some v"
  by (auto simp: load_signed_def load_unsigned_def)

lemma valid_item_value: "valid_value (item_value field src)"
  by (simp add: item_value_def Let_def)

lemma encode_item:
  assumes "PB_LTYPE (fld_type field) \<le> PB_LTYPE_LAST_PACKABLE" and "valid_item field src"
  shows "scalar_encoder (PB_LTYPE (fld_type field)) st field src = write_value st (item_value field src)"
  using assms(1)
proof (cases rule: packable_cases)
  case 1
  then show ?thesis using assms(2) by (auto simp: scalar_encoder_def item_value_def valid_item_def pb_enc_bool_def safe_read_bool_def)
next
  case 2
  then have "unat (fld_data_size field) \<in> {1, 2, 4, 8}" using assms(2) by (simp add: valid_item_def ltype_defs)
  from load_some(1) [OF this, of src] obtain v where "load_signed (unat (fld_data_size field)) src = Some v" by blast
  then show ?thesis using 2 by (simp add: scalar_encoder_def item_value_def pb_enc_varint_def ltype_defs)
next
  case 3
  then have "unat (fld_data_size field) \<in> {1, 2, 4, 8}" using assms(2) by (simp add: valid_item_def ltype_defs)
  from load_some(2) [OF this, of src] obtain v where "load_unsigned (unat (fld_data_size field)) src = Some v" by blast
  then show ?thesis using 3 by (simp add: scalar_encoder_def item_value_def pb_enc_uvarint_def ltype_defs)
next
  case 4
  then have "unat (fld_data_size field) \<in> {1, 2, 4, 8}" using assms(2) by (simp add: valid_item_def ltype_defs)
  from load_some(1) [OF this, of src] obtain v where "load_signed (unat (fld_data_size field)) src = Some v" by blast
  then show ?thesis using 4 by (simp add: scalar_encoder_def item_value_def pb_enc_svarint_def ltype_defs)
next
  case 5
  then show ?thesis using assms(2) by (simp add: scalar_encoder_def item_value_def valid_item_def pb_enc_fixed32_def ltype_defs)
next
  case 6
  then show ?thesis using assms(2) by (simp add: scalar_encoder_def item_value_def valid_item_def pb_enc_fixed64_def ltype_defs)
qed


lemma decode_item:
  assumes "PB_LTYPE (fld_type field) \<le> PB_LTYPE_LAST_PACKABLE" and "valid_item field src"
  shows "scalar_decoder (PB_LTYPE (fld_type field)) (inbuf (wire (item_value field src) @ s) (length (wire (item_value field src)) + n) e) field dest =
    (True, inbuf s n e, src)"
  using assms(1)
proof (cases rule: packable_cases)
  case 1
  have "pb_decode_varint32 (inbuf (varint k @ s) (length (varint k) + n) e) = (Some (of_nat k), inbuf s n e)" if "k \<le> 1" for k
    using varint32_short [of k s n e] that by (simp add: pb_decode_varint32_def)
  from this [of 0] this [of 1] show ?thesis using 1 assms(2)
    by (auto simp: scalar_decoder_def item_value_def valid_item_def pb_dec_bool_def store_def)
next
  case 2
  then have d: "unat (fld_data_size field) \<in> {1, 2, 4, 8}" "length src = unat (fld_data_size field)"
    using assms(2) by (simp_all add: valid_item_def ltype_defs)
  from load_some(1) [OF d(1), of src] obtain v where v: "load_signed (unat (fld_data_size field)) src = Some v" by blast
  have "(if fld_data_size field = 8 then v else scast (ucast v :: u32)) = v"
    using clamp_signed_load(2) [OF d(2) v] by (auto simp: word_unat_eq_iff)
  then show ?thesis using 2 v clamp_signed_load(1) [OF d(2) v] decode_varint_varint [of v s n e]
    by (simp add: scalar_decoder_def item_value_def pb_dec_varint_def store_clamped_def ltype_defs)
next
  case 3
  then have d: "unat (fld_data_size field) \<in> {1, 2, 4, 8}" "length src = unat (fld_data_size field)"
    using assms(2) by (simp_all add: valid_item_def ltype_defs)
  from load_some(2) [OF d(1), of src] obtain v where v: "load_unsigned (unat (fld_data_size field)) src = Some v" by blast
  then show ?thesis using 3 clamp_unsigned_load [OF d(2) v] decode_varint_varint [of v s n e]
    by (simp add: scalar_decoder_def item_value_def pb_dec_uvarint_def store_clamped_def ltype_defs)
next
  case 4
  then have d: "unat (fld_data_size field) \<in> {1, 2, 4, 8}" "length src = unat (fld_data_size field)"
    using assms(2) by (simp_all add: valid_item_def ltype_defs)
  from load_some(1) [OF d(1), of src] obtain v where v: "load_signed (unat (fld_data_size field)) src = Some v" by blast
  then show ?thesis using 4 clamp_signed_load(1) [OF d(2) v] decode_svarint_zigzag [of v s n e]
    by (simp add: scalar_decoder_def item_value_def pb_dec_svarint_def store_clamped_def ltype_defs)
next
  case 5
  then show ?thesis using assms(2) decode_fixed32_le32 [of "of_nat (le_nat src)" s n e] unat_load(3) [of src]
    by (simp add: scalar_decoder_def item_value_def valid_item_def pb_dec_fixed32_def store_def ltype_defs le_bytes_le_nat)
next
  case 6
  then show ?thesis using assms(2) decode_fixed64_le64 [of "of_nat (le_nat src)" s n e] unat_load(4) [of src]
    by (simp add: scalar_decoder_def item_value_def valid_item_def pb_dec_fixed64_def store_def ltype_defs le_bytes_le_nat)
qed

section \<open>Packed arrays\<close>

abbreviation item_values :: "pb_field \<Rightarrow> u8 list list \<Rightarrow> wire_value list" where
  "item_values field xs \<equiv> map (item_value field) xs"

definition payload :: "pb_field \<Rightarrow> u8 list list \<Rightarrow> u8 list" where
  "payload field xs = concat (map wire (item_values field xs))"

lemma payload_Cons: "payload field (x # xs) = wire (item_value field x) @ payload field xs"
  by (simp add: payload_def)

lemma encode_entries_items:
  "\<lbrakk>PB_LTYPE (fld_type field) \<le> PB_LTYPE_LAST_PACKABLE; list_all (valid_item field) xs\<rbrakk> \<Longrightarrow>
    encode_entries (\<lambda>st x. scalar_encoder (PB_LTYPE (fld_type field)) st field x) st xs = write_values st (item_values field xs)"
proof (induction xs arbitrary: st)
  case (Cons x xs)
  then show ?case by (simp add: encode_item and_then_def split: prod.split)
qed simp

lemma valid_items: "list_all valid_value (item_values field xs)"
  by (induction xs) (simp_all add: valid_item_value)

lemma packed_size_items:
  assumes "PB_LTYPE (fld_type field) \<le> PB_LTYPE_LAST_PACKABLE" and "list_all (valid_item field) xs"
    and "length (payload field xs) < SIZE_MAX_1"
  shows "packed_size field xs (scalar_encoder (PB_LTYPE (fld_type field))) null = Some (length (payload field xs))"
proof -
  let ?lt = "PB_LTYPE (fld_type field)"
  have "?lt = PB_LTYPE_FIXED32 \<Longrightarrow> length (payload field xs) = 4 * length xs"
    by (induction xs) (simp_all add: payload_def item_value_def ltype_defs)
  moreover have "?lt = PB_LTYPE_FIXED64 \<Longrightarrow> length (payload field xs) = 8 * length xs"
    by (induction xs) (simp_all add: payload_def item_value_def ltype_defs)
  moreover have "encode_entries (\<lambda>st x. scalar_encoder ?lt st field x) (PB_OSTREAM_SIZING null) xs =
      (True, (PB_OSTREAM_SIZING null)\<lparr>os_bytes_written := length (payload field xs)\<rparr>)"
    using size_values [OF valid_items, of "PB_OSTREAM_SIZING null" field xs] assms
    by (simp add: encode_entries_items payload_def PB_OSTREAM_SIZING_def)
  ultimately show ?thesis using assms(3) by (auto simp: packed_size_def Let_def)
qed

text \<open>What the descriptor of a packed member has to satisfy.\<close>

definition packable :: "pb_field \<Rightarrow> bool" where
  "packable field \<longleftrightarrow> PB_LTYPE (fld_type field) \<le> PB_LTYPE_LAST_PACKABLE \<and> unat (fld_tag field) < 2 ^ 29 \<and> fld_tag field \<noteq> 0"

lemma wrote_array:
  assumes "packable field" and "list_all (valid_item field) xs" and "xs \<noteq> []" and "length xs \<le> unat (fld_array_size field)"
    and "length (payload field xs) < 2 ^ 32" and "pos \<le> sz" and "sz < SIZE_MAX_1" and "sz \<le> length mem"
  shows "wrote mem pos sz (wire (Tag PB_WT_STRING (fld_tag field)) @ wire (Str (payload field xs)))
    (encode_array (outbuf mem pos sz None) field xs (scalar_encoder (PB_LTYPE (fld_type field))))"
proof -
  let ?lt = "PB_LTYPE (fld_type field)" and ?p = "payload field xs" and ?t = "Tag PB_WT_STRING (fld_tag field)"
  have lt: "?lt \<le> PB_LTYPE_LAST_PACKABLE" and t: "valid_value ?t" using assms(1) by (simp_all add: packable_def PB_WT_STRING_def)
  have u: "unat (of_nat (length ?p) :: u64) = length ?p" using assms(5) by (intro unat_of_nat_u64) simp
  have fits: "length ?p < SIZE_MAX_1" using assms(5) by (simp add: SIZE_MAX_1_def)
  have eq: "encode_array (outbuf m q sz None) field xs (scalar_encoder ?lt) =
      and_then (write_value (outbuf m q sz None) ?t)
        (\<lambda>st. and_then (write_value st (Varint (of_nat (length ?p))))
           (\<lambda>st. if os_callback st = None then pb_write st [] (length ?p) else write_values st (item_values field xs)))" for m q
    using assms(3,4) lt
    by (simp add: encode_array_def not_less packed_size_items [OF lt assms(2) fits] encode_entries_items [OF lt assms(2)] cong: if_cong)
  have "wrote mem pos sz (wire ?t @ wire (Varint (of_nat (length ?p))) @ ?p) (encode_array (outbuf mem pos sz None) field xs (scalar_encoder ?lt))"
    unfolding eq
  proof (rule wrote_then [where f = "\<lambda>st. write_value st ?t"])
    show "wrote mem pos sz (wire ?t) (write_value (outbuf mem pos sz None) ?t)" using wrote_value [OF t] assms(6-8) by blast
    fix mem' :: "u8 list" and pos'
    assume m: "length mem' = length mem" "pos' \<le> sz"
    show "wrote mem' pos' sz (wire (Varint (of_nat (length ?p))) @ ?p)
      (and_then (write_value (outbuf mem' pos' sz None) (Varint (of_nat (length ?p))))
        (\<lambda>st. if os_callback st = None then pb_write st [] (length ?p) else write_values st (item_values field xs)))"
    proof (rule wrote_then [where f = "\<lambda>st. write_value st (Varint (of_nat (length ?p)))"])
      show "wrote mem' pos' sz (wire (Varint (of_nat (length ?p)))) (write_value (outbuf mem' pos' sz None) (Varint (of_nat (length ?p))))"
        using wrote_value [of "Varint (of_nat (length ?p))"] assms(7,8) m by simp
      fix mem'' :: "u8 list" and pos''
      assume "length mem'' = length mem'" "pos'' \<le> sz"
      then show "wrote mem'' pos'' sz ?p (if os_callback (outbuf mem'' pos'' sz None) = None then pb_write (outbuf mem'' pos'' sz None) [] (length ?p)
          else write_values (outbuf mem'' pos'' sz None) (item_values field xs))"
        using wrote_values [OF valid_items, of pos'' sz mem'' field xs] assms(7,8) m by (simp add: payload_def outbuf_def)
    qed
  qed
  then show ?thesis by (simp add: u)
qed

lemma wire_item_not_Nil: "wire (item_value field x) \<noteq> []"
  by (simp add: item_value_def Let_def le32_def le64bytes_def)

lemma packed_loop_items:
  "\<lbrakk>packable field; list_all (valid_item field) xs; k + length xs \<le> unat (fld_array_size field); unat (fld_array_size field) \<le> length items\<rbrakk> \<Longrightarrow>
    packed_loop (scalar_decoder (PB_LTYPE (fld_type field))) field (inbuf (payload field xs @ s) (length (payload field xs)) e) items k =
    (True, inbuf s 0 e, take k items @ xs @ drop (k + length xs) items, k + length xs)"
proof (induction xs arbitrary: items k)
  case Nil
  then show ?case by (subst packed_loop.simps) (simp add: payload_def)
next
  case (Cons x xs)
  have "0 < length (wire (item_value field x))" using wire_item_not_Nil by auto
  moreover have "scalar_decoder (PB_LTYPE (fld_type field)) (inbuf (payload field (x # xs) @ s) (length (payload field (x # xs))) e) field (items ! k) =
      (True, inbuf (payload field xs @ s) (length (payload field xs)) e, x)"
    using decode_item [of field x "payload field xs @ s" "length (payload field xs)" e "items ! k"] Cons.prems by (simp add: payload_Cons packable_def)
  ultimately have "packed_loop (scalar_decoder (PB_LTYPE (fld_type field))) field (inbuf (payload field (x # xs) @ s) (length (payload field (x # xs))) e) items k =
      packed_loop (scalar_decoder (PB_LTYPE (fld_type field))) field (inbuf (payload field xs @ s) (length (payload field xs)) e) (items[k := x]) (k + 1)"
    using Cons.prems by (subst packed_loop.simps) (simp add: payload_Cons)
  moreover have "take (k + 1) (items[k := x]) @ xs @ drop (k + 1 + length xs) (items[k := x]) = take k items @ (x # xs) @ drop (k + length (x # xs)) items"
    using Cons.prems by (simp add: take_Suc_conv_app_nth)
  ultimately show ?case using Cons.IH [of "k + 1" "items[k := x]"] Cons.prems by simp
qed

lemma decode_array_items:
  assumes "packable field" and "list_all (valid_item field) xs" and "k + length xs \<le> unat (fld_array_size field)"
    and "unat (fld_array_size field) \<le> length items" and "length (payload field xs) < 2 ^ 32"
  shows "decode_static_repeated (inbuf (wire (Str (payload field xs)) @ s) (length (wire (Str (payload field xs))) + n) e) PB_WT_STRING field
      (scalar_decoder (PB_LTYPE (fld_type field))) items k =
    (True, inbuf s n e, take k items @ xs @ drop (k + length xs) items, k + length xs)"
proof -
  let ?p = "payload field xs"
  have "unat (of_nat (length ?p) :: u32) = length ?p" using assms(5) by (rule unat_of_nat_u32)
  then have "pb_make_string_substream (inbuf (wire (Str ?p) @ s) (length (wire (Str ?p)) + n) e) =
      (Some (inbuf (?p @ s) (length ?p) e), inbuf (?p @ s) n e)"
    using varint32_short [of "length ?p" "?p @ s" "length ?p + n" e] assms(5)
    by (simp add: pb_make_string_substream_def pb_decode_varint32_def add.assoc)
  then show ?thesis using assms packed_loop_items [OF assms(1-4), of s e]
    by (simp add: decode_static_repeated_def packable_def pb_close_string_substream_def)
qed


section \<open>Properties\<close>

text \<open>C13: an array of numbers of any packable type and any width, written by \<^verbatim>\<open>encode_array\<close> into a buffer with room, is read back by the
  decoder: the tag announces a string, and the packed case of \<^verbatim>\<open>decode_static_field\<close> fills the array with the same entries, byte for byte,
  sets the count, leaves the entries behind it alone and the stream at the end of the field.\<close>

theorem pb_packed_roundtrip:
  assumes "packable field" and "list_all (valid_item field) xs" and "xs \<noteq> []" and "length xs \<le> unat (fld_array_size field)"
    and "length (payload field xs) < 2 ^ 32" and "unat (fld_array_size field) \<le> length items"
    and "length (wire (Tag PB_WT_STRING (fld_tag field)) @ wire (Str (payload field xs))) \<le> sz" and "sz < SIZE_MAX_1" and "sz \<le> length buf"
  shows "\<exists>mem len st. encode_array (pb_ostream_from_buffer buf sz) field xs (scalar_encoder (PB_LTYPE (fld_type field))) = (True, outbuf mem len sz None) \<and>
    pb_decode_tag (pb_istream_from_buffer mem len) = ((Some (PB_WT_STRING, fld_tag field), st), False) \<and>
    decode_static_repeated st PB_WT_STRING field (scalar_decoder (PB_LTYPE (fld_type field))) items 0 =
      (True, pb_istream_from_buffer (drop len mem) 0, xs @ drop (length xs) items, length xs)"
proof -
  let ?t = "wire (Tag PB_WT_STRING (fld_tag field))" and ?s = "wire (Str (payload field xs))"
  obtain mem where m: "encode_array (pb_ostream_from_buffer buf sz) field xs (scalar_encoder (PB_LTYPE (fld_type field))) =
      (True, outbuf mem (length (?t @ ?s)) sz None)" "take (length (?t @ ?s)) mem = ?t @ ?s"
    using wrote_array [OF assms(1-5) _ assms(8,9), of 0] assms(7) unfolding wrote_def to_buffer by auto
  let ?r = "drop (length (?t @ ?s)) mem"
  have mem: "mem = ?t @ ?s @ ?r" using m(2) by (metis append.assoc append_take_drop_id)
  have "pb_decode_tag (inbuf (?t @ ?s @ ?r) (length ?t + length ?s) None) = ((Some (PB_WT_STRING, fld_tag field), inbuf (?s @ ?r) (length ?s) None), False)"
    using decode_tag_varint [of PB_WT_STRING "fld_tag field" "?s @ ?r" "length ?s" None] assms(1) by (simp add: packable_def PB_WT_STRING_def)
  then have "pb_decode_tag (pb_istream_from_buffer mem (length (?t @ ?s))) = ((Some (PB_WT_STRING, fld_tag field), inbuf (?s @ ?r) (length ?s) None), False)"
    using mem unfolding from_buffer by (metis length_append)
  moreover have "decode_static_repeated (inbuf (?s @ ?r) (length ?s) None) PB_WT_STRING field (scalar_decoder (PB_LTYPE (fld_type field))) items 0 =
      (True, inbuf ?r 0 None, xs @ drop (length xs) items, length xs)"
    using decode_array_items [OF assms(1,2) _ assms(6,5), of 0 ?r 0 None] assms(4) by simp
  ultimately show ?thesis using m(1) unfolding from_buffer by blast
qed


text \<open>A member with at most three entries of one byte.\<close>

definition sample_field :: pb_field where
  "sample_field = \<lparr>fld_tag = 1, fld_type = 0x22, fld_data_offset = 0, fld_size_offset = 0, fld_data_size = 1, fld_array_size = 3\<rparr>"

theorem pb_packed_roundtrip_witness:
  "\<exists>mem len st. encode_array (pb_ostream_from_buffer (replicate 16 0) 16) sample_field [[5], [200]]
      (scalar_encoder (PB_LTYPE (fld_type sample_field))) = (True, outbuf mem len 16 None) \<and>
    pb_decode_tag (pb_istream_from_buffer mem len) = ((Some (PB_WT_STRING, fld_tag sample_field), st), False) \<and>
    decode_static_repeated st PB_WT_STRING sample_field (scalar_decoder (PB_LTYPE (fld_type sample_field))) [[0], [0], [7]] 0 =
      (True, pb_istream_from_buffer (drop len mem) 0, [[5], [200]] @ drop (length [[5], [200 :: u8]]) [[0], [0], [7]], length [[5], [200 :: u8]])"
proof -
  have lt: "PB_LTYPE (fld_type sample_field) = 2" by (simp add: sample_field_def PB_LTYPE_def)
  have d: "unat (fld_data_size sample_field) = 1" "unat (fld_array_size sample_field) = 3" "fld_tag sample_field = 1"
    by (simp_all add: sample_field_def)
  have p: "payload sample_field [[5], [200]] = [5, 200, 1]"
    by (simp add: payload_def item_value_def lt d Let_def ltype_defs load_unsigned_def le_nat_def be_nat_def varint.simps)
  have "packable sample_field" by (simp add: packable_def lt ltype_defs) (simp add: sample_field_def)
  moreover have "list_all (valid_item sample_field) [[5], [200]]"
    by (simp add: valid_item_def lt ltype_defs) (simp add: sample_field_def)
  ultimately show ?thesis
    by (rule pb_packed_roundtrip) (simp_all add: p d varint.simps PB_WT_STRING_def SIZE_MAX_1_def)
qed

end
