(* ===== verification/Pb_Message.thy ===== *)
theory Pb_Message
  imports Pb_Field
begin

text \<open>
  Messages of \<^verbatim>\<open>nanopb\<close>: the iterator over the descriptors of a message (\<^verbatim>\<open>pb_common.c\<close>) and the loop of
  \<^verbatim>\<open>pb_decode_noinit\<close> (\<^verbatim>\<open>pb_decode.c\<close>) with its check that all required members were present. The decoders of a
  single member and of extensions are arguments of the loop.
\<close>

section \<open>Model: the field iterator\<close>

definition PB_LTYPE_EXTENSION :: u8 where
  "PB_LTYPE_EXTENSION = 0x09"

definition PB_HTYPE_REQUIRED :: u8 where
  "PB_HTYPE_REQUIRED = 0x00"

definition PB_HTYPE_REPEATED :: u8 where
  "PB_HTYPE_REPEATED = 0x20"

definition PB_HTYPE_ONEOF :: u8 where
  "PB_HTYPE_ONEOF = 0x30"

definition PB_HTYPE :: "u8 \<Rightarrow> u8" where
  "PB_HTYPE x = x AND 0x30"

definition PB_SIZE_MAX :: u32 where
  "PB_SIZE_MAX = - 1"

definition PB_LAST_FIELD :: pb_field where
  "PB_LAST_FIELD = \<lparr>fld_tag = 0, fld_type = 0, fld_data_offset = 0, fld_size_offset = 0, fld_data_size = 0, fld_array_size = 0\<rparr>"

text \<open>\<open>it_start\<close> is the array of descriptors with its terminator, \<open>it_pos\<close> an index into it; pointers are 64-bit addresses.\<close>

record pb_field_iter =
  it_start :: "pb_field list"
  it_pos :: nat
  it_required :: u32
  it_dest :: u64
  it_data :: u64
  it_size :: u64

definition it_field :: "pb_field_iter \<Rightarrow> pb_field" where
  "it_field it = it_start it ! it_pos it"

definition pb_field_iter_begin :: "pb_field list \<Rightarrow> u64 \<Rightarrow> bool \<times> pb_field_iter" where
  "pb_field_iter_begin fs dest =
     (let data = (if dest = 0 then 0 else dest + ucast (fld_data_offset (fs ! 0)));
          sz = (if dest = 0 then 0 else data + scast (fld_size_offset (fs ! 0)))
      in (fld_tag (fs ! 0) \<noteq> 0,
          \<lparr>it_start = fs, it_pos = 0, it_required = 0, it_dest = dest, it_data = data, it_size = sz\<rparr>))"

text \<open>The bytes that a member takes in the structure.\<close>

definition member_size :: "pb_field \<Rightarrow> u64" where
  "member_size f =
     (if PB_ATYPE (fld_type f) = PB_ATYPE_STATIC \<and> PB_HTYPE (fld_type f) = PB_HTYPE_REPEATED
      then ucast (fld_data_size f) * ucast (fld_array_size f)
      else if PB_ATYPE (fld_type f) = PB_ATYPE_POINTER then 8
      else ucast (fld_data_size f))"

definition pb_field_iter_next :: "pb_field_iter \<Rightarrow> bool \<times> pb_field_iter" where
  "pb_field_iter_next it =
     (let prev = it_field it
      in if fld_tag prev = 0 then (False, it)
         else
         (let pos = it_pos it + 1; f = it_start it ! pos
          in if fld_tag f = 0 then (False, snd (pb_field_iter_begin (it_start it) (it_dest it)))
             else if PB_HTYPE (fld_type prev) = PB_HTYPE_ONEOF \<and> PB_HTYPE (fld_type f) = PB_HTYPE_ONEOF \<and>
                  fld_data_offset f = PB_SIZE_MAX
             then (True, it\<lparr>it_pos := pos\<rparr>)
             else
             (let data = it_data it + member_size prev + ucast (fld_data_offset f)
              in (True,
                  it\<lparr>it_pos := pos,
                     it_required := (if PB_HTYPE (fld_type prev) = PB_HTYPE_REQUIRED then it_required it + 1 else it_required it),
                     it_data := data, it_size := data + scast (fld_size_offset f)\<rparr>))))"

text \<open>The loop of \<^verbatim>\<open>pb_field_iter_find\<close> and of \<^verbatim>\<open>find_extension_field\<close>.\<close>

partial_function (option) find_loop :: "nat \<Rightarrow> (pb_field \<Rightarrow> bool) \<Rightarrow> pb_field_iter \<Rightarrow> (bool \<times> pb_field_iter) option" where
  "find_loop start wanted it =
     (if wanted (it_field it) then Some (True, it)
      else
      (let it' = snd (pb_field_iter_next it)
       in if it_pos it' \<noteq> start then find_loop start wanted it' else Some (False, it')))"

definition pb_field_iter_find :: "pb_field_iter \<Rightarrow> u32 \<Rightarrow> (bool \<times> pb_field_iter) option" where
  "pb_field_iter_find it tag =
     find_loop (it_pos it) (\<lambda>f. fld_tag f = tag \<and> PB_LTYPE (fld_type f) \<noteq> PB_LTYPE_EXTENSION) it"

definition find_extension_field :: "pb_field_iter \<Rightarrow> (bool \<times> pb_field_iter) option" where
  "find_extension_field it = find_loop (it_pos it) (\<lambda>f. PB_LTYPE (fld_type f) = PB_LTYPE_EXTENSION) it"

section \<open>The iterator\<close>

text \<open>An array of descriptors, and the iterator at each of its positions.\<close>

definition descriptors :: "pb_field list \<Rightarrow> bool" where
  "descriptors fs \<longleftrightarrow> fs \<noteq> [] \<and> fld_tag (last fs) = 0 \<and> (\<forall>f\<in>set (butlast fs). fld_tag f \<noteq> 0)"

definition field_count :: "pb_field list \<Rightarrow> nat" where
  "field_count fs = length fs - 1"

primrec iter_at :: "pb_field list \<Rightarrow> u64 \<Rightarrow> nat \<Rightarrow> pb_field_iter" where
  "iter_at fs dest 0 = snd (pb_field_iter_begin fs dest)"
| "iter_at fs dest (Suc k) = snd (pb_field_iter_next (iter_at fs dest k))"

lemma descriptors_tag:
  assumes "descriptors fs"
  shows "k < field_count fs \<Longrightarrow> fld_tag (fs ! k) \<noteq> 0" "fld_tag (fs ! field_count fs) = 0"
proof -
  show "k < field_count fs \<Longrightarrow> fld_tag (fs ! k) \<noteq> 0"
    using assms unfolding field_count_def by (metis descriptors_def length_butlast nth_butlast nth_mem)
  show "fld_tag (fs ! field_count fs) = 0"
    using assms unfolding descriptors_def field_count_def by (metis last_conv_nth)
qed

lemma iter_begin_simps [simp]:
  "it_start (snd (pb_field_iter_begin fs d)) = fs" "it_pos (snd (pb_field_iter_begin fs d)) = 0"
  "it_dest (snd (pb_field_iter_begin fs d)) = d" "it_required (snd (pb_field_iter_begin fs d)) = 0"
  by (simp_all add: pb_field_iter_begin_def Let_def)

lemma iter_next_simps:
  assumes "descriptors (it_start it)" "it_pos it + 1 < field_count (it_start it)"
  shows "fst (pb_field_iter_next it)" "it_pos (snd (pb_field_iter_next it)) = it_pos it + 1"
    "it_start (snd (pb_field_iter_next it)) = it_start it" "it_dest (snd (pb_field_iter_next it)) = it_dest it"
    "it_required (snd (pb_field_iter_next it)) =
      (if PB_HTYPE (fld_type (it_field it)) = PB_HTYPE_REQUIRED then it_required it + 1 else it_required it)"
  using descriptors_tag(1) [OF assms(1), of "it_pos it"] descriptors_tag(1) [OF assms(1), of "it_pos it + 1"] assms(2)
  by (auto simp: pb_field_iter_next_def Let_def it_field_def PB_HTYPE_ONEOF_def PB_HTYPE_REQUIRED_def)

lemma iter_at_simps:
  assumes "descriptors fs" "k < field_count fs"
  shows "it_pos (iter_at fs d k) = k \<and> it_start (iter_at fs d k) = fs \<and> it_dest (iter_at fs d k) = d"
  using assms(2)
proof (induction k)
  case (Suc k)
  then show ?case using iter_next_simps [of "iter_at fs d k"] assms(1) by simp
qed simp

lemma iter_next_at:
  assumes "descriptors fs" "k < field_count fs"
  shows "pb_field_iter_next (iter_at fs d k) = (if k + 1 < field_count fs then (True, iter_at fs d (k + 1)) else (False, iter_at fs d 0))"
proof (cases "k + 1 < field_count fs")
  case True
  then show ?thesis
    using iter_next_simps(1) [of "iter_at fs d k"] iter_at_simps [OF assms, of d] assms(1) by (simp add: prod_eq_iff)
next
  case False
  then have "k + 1 = field_count fs" using assms(2) by simp
  then show ?thesis
    using iter_at_simps [OF assms, of d] descriptors_tag(1) [OF assms] descriptors_tag(2) [OF assms(1)]
    by (simp add: pb_field_iter_next_def it_field_def Let_def)
qed

lemma iter_at_field: "\<lbrakk>descriptors fs; k < field_count fs\<rbrakk> \<Longrightarrow> it_field (iter_at fs d k) = fs ! k"
  using iter_at_simps [of fs k d] by (simp add: it_field_def)

text \<open>The positions in the order in which a search from \<open>k\<close> visits them.\<close>

definition search_order :: "nat \<Rightarrow> nat \<Rightarrow> nat list" where
  "search_order n k = map (\<lambda>i. (k + i) mod n) [0..<n]"

lemma iter_next_cyclic:
  assumes "descriptors fs" "k < field_count fs"
  shows "snd (pb_field_iter_next (iter_at fs d k)) = iter_at fs d ((k + 1) mod field_count fs)"
proof (cases "k + 1 < field_count fs")
  case False
  then have "k + 1 = field_count fs" using assms(2) by simp
  then show ?thesis using iter_next_at [OF assms, of d] False by simp
qed (use iter_next_at [OF assms, of d] in simp)

lemma cyclic_back: "\<lbrakk>k < n; m < n\<rbrakk> \<Longrightarrow> (k + Suc m) mod n = k \<longleftrightarrow> Suc m = (n::nat)"
  by (cases "k + Suc m < n") (auto simp: le_mod_geq)

lemma find_loop_from:
  assumes "descriptors fs" "k < field_count fs" "m < field_count fs"
  shows "find_loop k wanted (iter_at fs d ((k + m) mod field_count fs)) =
    Some (case find (\<lambda>i. wanted (fs ! i)) (map (\<lambda>i. (k + i) mod field_count fs) [m..<field_count fs]) of
      None \<Rightarrow> (False, iter_at fs d k) | Some i \<Rightarrow> (True, iter_at fs d i))"
  using assms(3)
proof (induction "field_count fs - m" arbitrary: m)
  case (Suc l)
  let ?n = "field_count fs" and ?p = "(k + m) mod field_count fs"
  have p: "?p < ?n" using assms(2) by simp
  have list: "[m..<?n] = m # [Suc m..<?n]" using Suc.prems by (rule upt_conv_Cons)
  show ?case
  proof (cases "wanted (fs ! ?p)")
    case True
    then show ?thesis
      using iter_at_field [OF assms(1) p] unfolding list by (simp add: find_loop.simps [of k wanted "iter_at fs d ?p"])
  next
    case False
    have next_it: "snd (pb_field_iter_next (iter_at fs d ?p)) = iter_at fs d ((k + Suc m) mod ?n)"
      using iter_next_cyclic [OF assms(1) p] by (simp add: mod_Suc_eq)
    have pos: "it_pos (iter_at fs d ((k + Suc m) mod ?n)) = (k + Suc m) mod ?n"
      using iter_at_simps [OF assms(1), of "(k + Suc m) mod ?n" d] assms(2) by simp
    show ?thesis
    proof (cases "Suc m = ?n")
      case True
      then have "(k + Suc m) mod ?n = k" using assms(2) by simp
      then show ?thesis
        using False iter_at_field [OF assms(1) p] next_it pos True unfolding list
        by (simp add: find_loop.simps [of k wanted "iter_at fs d ?p"] Let_def)
    next
      case further: False
      then have "(k + Suc m) mod ?n \<noteq> k" using cyclic_back [OF assms(2) Suc.prems] by simp
      then have "find_loop k wanted (iter_at fs d ?p) = find_loop k wanted (iter_at fs d ((k + Suc m) mod ?n))"
        using False iter_at_field [OF assms(1) p] next_it pos
        by (simp add: find_loop.simps [of k wanted "iter_at fs d ?p"] Let_def)
      then show ?thesis using Suc.hyps(1) [of "Suc m"] Suc.hyps(2) Suc.prems further False unfolding list by simp
    qed
  qed
qed simp

lemma find_loop_search:
  assumes "descriptors fs" "k < field_count fs"
  shows "find_loop k wanted (iter_at fs d k) =
    Some (case find (\<lambda>i. wanted (fs ! i)) (search_order (field_count fs) k) of
      None \<Rightarrow> (False, iter_at fs d k) | Some i \<Rightarrow> (True, iter_at fs d i))"
  using find_loop_from [OF assms, of 0 wanted d] assms(2) by (simp add: search_order_def)

lemma iter_required:
  assumes "descriptors fs" "k < field_count fs"
  shows "it_required (iter_at fs d k) = of_nat (length (filter (\<lambda>f. PB_HTYPE (fld_type f) = PB_HTYPE_REQUIRED) (take k fs)))"
  using assms(2)
proof (induction k)
  case (Suc k)
  then have "k < length fs" by (simp add: field_count_def)
  with Suc show ?case
    using iter_next_simps(5) [of "iter_at fs d k"] iter_at_simps [OF assms(1), of k d] iter_at_field [OF assms(1), of k d] assms(1)
    by (simp add: take_Suc_conv_app_nth)
qed simp

section \<open>Model: decoding a message\<close>

definition PB_MAX_REQUIRED_FIELDS :: u32 where
  "PB_MAX_REQUIRED_FIELDS = 64"

type_synonym pb_memory = "u64 \<Rightarrow> u8"

text \<open>A \<^verbatim>\<open>pb_size_t\<close> in memory.\<close>

definition read_size :: "pb_memory \<Rightarrow> u64 \<Rightarrow> u32" where
  "read_size mem a = of_nat (le_nat (map (\<lambda>i. mem (a + of_nat i)) [0..<4]))"

definition write_size :: "pb_memory \<Rightarrow> u64 \<Rightarrow> u32 \<Rightarrow> pb_memory" where
  "write_size mem a v = fold (\<lambda>i m. m(a + of_nat i := le_bytes 4 (unat v) ! i)) [0..<4] mem"

text \<open>The decoders that the loop calls: of a member, and of an extension.\<close>

type_synonym 's field_decoder = "'s pb_istream \<Rightarrow> nat \<Rightarrow> pb_field_iter \<Rightarrow> pb_memory \<Rightarrow> bool \<times> 's pb_istream \<times> pb_memory"
type_synonym 's extension_decoder =
  "'s pb_istream \<Rightarrow> u32 \<Rightarrow> nat \<Rightarrow> pb_field_iter \<Rightarrow> pb_memory \<Rightarrow> bool \<times> 's pb_istream \<times> pb_memory"

text \<open>The local variables of the loop; \<open>dm_fixed_count_field\<close> is a position in the descriptors.\<close>

record decode_state =
  dm_iter :: pb_field_iter
  dm_memory :: pb_memory
  dm_fields_seen :: "u32 list"
  dm_extension_range_start :: u32
  dm_fixed_count_field :: "nat option"

text \<open>Whether the last fixed count field is incomplete; \<open>loc\<close> is the address of \<^verbatim>\<open>fixed_count_size\<close>.\<close>

definition fixed_count_wrong :: "u64 \<Rightarrow> decode_state \<Rightarrow> bool" where
  "fixed_count_wrong loc ds =
     (case dm_fixed_count_field ds of
        None \<Rightarrow> False
      | Some p \<Rightarrow> read_size (dm_memory ds) loc \<noteq> fld_array_size (it_start (dm_iter ds) ! p))"

text \<open>A tag without a descriptor: an extension, or data to skip.\<close>

definition skip_unknown :: "'s pb_istream \<Rightarrow> nat \<Rightarrow> decode_state \<Rightarrow> bool \<times> 's pb_istream \<times> decode_state" where
  "skip_unknown st wire_type ds = (case pb_skip_field st wire_type of (r, st') \<Rightarrow> (r \<noteq> None, st', ds))"

definition decode_unknown ::
  "'s extension_decoder \<Rightarrow> 's pb_istream \<Rightarrow> u32 \<Rightarrow> nat \<Rightarrow> decode_state \<Rightarrow> (bool \<times> 's pb_istream \<times> decode_state) option" where
  "decode_unknown ext st tag wire_type ds =
     (if dm_extension_range_start ds \<le> tag
      then
        (case find_extension_field (dm_iter ds) of
           None \<Rightarrow> None
         | Some (found, it) \<Rightarrow>
             (let start = (if found then fld_tag (it_field it) else - 1);
                  ds = ds\<lparr>dm_iter := it, dm_extension_range_start := start\<rparr>
              in if start \<le> tag
                 then
                   (case ext st tag wire_type it (dm_memory ds) of
                      (ok, st', mem) \<Rightarrow>
                        (let ds = ds\<lparr>dm_memory := mem\<rparr>
                         in if \<not> ok then Some (False, st', ds)
                            else if is_bytes_left st \<noteq> is_bytes_left st' then Some (True, st', ds)
                            else Some (skip_unknown st' wire_type ds)))
                 else Some (skip_unknown st wire_type ds)))
      else Some (skip_unknown st wire_type ds))"

text \<open>A repeated member without a count in the structure is counted in \<^verbatim>\<open>fixed_count_size\<close>.\<close>

definition redirect_count :: "u64 \<Rightarrow> decode_state \<Rightarrow> decode_state option" where
  "redirect_count loc ds =
     (let it = dm_iter ds; ds' = ds\<lparr>dm_iter := it\<lparr>it_size := loc\<rparr>\<rparr>
      in if PB_HTYPE (fld_type (it_field it)) = PB_HTYPE_REPEATED \<and> it_size it = it_data it
         then
           (if dm_fixed_count_field ds \<noteq> Some (it_pos it)
            then
              (if fixed_count_wrong loc ds then None
               else Some (ds'\<lparr>dm_fixed_count_field := Some (it_pos it), dm_memory := write_size (dm_memory ds) loc 0\<rparr>))
            else Some ds')
         else Some ds)"

definition mark_required :: "decode_state \<Rightarrow> decode_state" where
  "mark_required ds =
     (let r = it_required (dm_iter ds); i = unat (drop_bit 5 r)
      in if PB_HTYPE (fld_type (it_field (dm_iter ds))) = PB_HTYPE_REQUIRED \<and> r < PB_MAX_REQUIRED_FIELDS
         then ds\<lparr>dm_fields_seen := (dm_fields_seen ds)[i := dm_fields_seen ds ! i OR push_bit (unat (r AND 31)) 1]\<rparr>
         else ds)"

definition decode_known ::
  "'s field_decoder \<Rightarrow> u64 \<Rightarrow> 's pb_istream \<Rightarrow> nat \<Rightarrow> decode_state \<Rightarrow> bool \<times> 's pb_istream \<times> decode_state" where
  "decode_known dec loc st wire_type ds =
     (case redirect_count loc ds of
        None \<Rightarrow> (False, snd (is_error st ''wrong size for fixed count field'' :: unit option \<times> 's pb_istream), ds)
      | Some ds \<Rightarrow>
          (let ds = mark_required ds
           in case dec st wire_type (dm_iter ds) (dm_memory ds) of (ok, st', mem) \<Rightarrow> (ok, st', ds\<lparr>dm_memory := mem\<rparr>)))"

text \<open>One turn of the loop for a tag that has been read.\<close>

definition decode_member ::
  "'s field_decoder \<Rightarrow> 's extension_decoder \<Rightarrow> u64 \<Rightarrow> 's pb_istream \<Rightarrow> u32 \<Rightarrow> nat \<Rightarrow> decode_state \<Rightarrow>
    (bool \<times> 's pb_istream \<times> decode_state) option" where
  "decode_member dec ext loc st tag wire_type ds =
     (case pb_field_iter_find (dm_iter ds) tag of
        None \<Rightarrow> None
      | Some (found, it) \<Rightarrow>
          if found then Some (decode_known dec loc st wire_type (ds\<lparr>dm_iter := it\<rparr>))
          else decode_unknown ext st tag wire_type (ds\<lparr>dm_iter := it\<rparr>))"

text \<open>The loop; \<^term>\<open>False\<close> is the return from inside it.\<close>

partial_function (option) decode_loop ::
  "'s field_decoder \<Rightarrow> 's extension_decoder \<Rightarrow> u64 \<Rightarrow> 's pb_istream \<Rightarrow> decode_state \<Rightarrow>
    (bool \<times> 's pb_istream \<times> decode_state) option" where
  "decode_loop dec ext loc st ds =
     (if is_bytes_left st = 0 then Some (True, st, ds)
      else
      (case pb_decode_tag st of
         ((r, st'), eof) \<Rightarrow>
           (case r of
              None \<Rightarrow> Some (eof, st', ds)
            | Some t \<Rightarrow>
                (case decode_member dec ext loc st' (snd t) (fst t) ds of
                   None \<Rightarrow> None
                 | Some res \<Rightarrow> if fst res then decode_loop dec ext loc (fst (snd res)) (snd (snd res)) else Some res))))"

text \<open>The number of required members, from the iterator to the end of the descriptors.\<close>

partial_function (option) seek_end :: "pb_field_iter \<Rightarrow> (u32 \<times> u8 \<times> pb_field_iter) option" where
  "seek_end it =
     (let r = pb_field_iter_next it
      in if fst r then seek_end (snd r) else Some (it_required it, fld_type (it_field it), snd r))"

definition required_count :: "pb_field_iter \<Rightarrow> u32 option" where
  "required_count it =
     (case seek_end it of
        None \<Rightarrow> None
      | Some (n, last_type, it') \<Rightarrow>
          (let n = (if PB_HTYPE last_type = PB_HTYPE_REQUIRED \<and> fld_tag (it_field it') \<noteq> 0 then n + 1 else n)
           in Some (if PB_MAX_REQUIRED_FIELDS < n then PB_MAX_REQUIRED_FIELDS else n)))"

definition required_seen :: "u32 list \<Rightarrow> u32 \<Rightarrow> bool" where
  "required_seen seen n \<longleftrightarrow>
     (\<forall>i\<in>set [0..<unat (drop_bit 5 n)]. seen ! i = - 1) \<and>
     (n AND 31 \<noteq> 0 \<longrightarrow> seen ! unat (drop_bit 5 n) = drop_bit (32 - unat (n AND 31)) (- 1))"

definition pb_decode_noinit ::
  "'s field_decoder \<Rightarrow> 's extension_decoder \<Rightarrow> u64 \<Rightarrow> 's pb_istream \<Rightarrow> pb_field list \<Rightarrow> u64 \<Rightarrow> pb_memory \<Rightarrow>
    (bool \<times> 's pb_istream \<times> pb_memory) option" where
  "pb_decode_noinit dec ext loc st fs dest mem =
     (case decode_loop dec ext loc st
             \<lparr>dm_iter = snd (pb_field_iter_begin fs dest), dm_memory = mem, dm_fields_seen = [0, 0],
              dm_extension_range_start = 0, dm_fixed_count_field = None\<rparr> of
        None \<Rightarrow> None
      | Some (ok, st', ds) \<Rightarrow>
          if \<not> ok then Some (False, st', dm_memory ds)
          else if fixed_count_wrong loc ds
          then Some (False, snd (is_error st' ''wrong size for fixed count field'' :: unit option \<times> 's pb_istream), dm_memory ds)
          else
          (case required_count (dm_iter ds) of
             None \<Rightarrow> None
           | Some n \<Rightarrow>
               if 0 < n \<and> \<not> required_seen (dm_fields_seen ds) n
               then Some (False, snd (is_error st' ''missing required field'' :: unit option \<times> 's pb_istream), dm_memory ds)
               else Some (True, st', dm_memory ds)))"

section \<open>The iterator in the loop\<close>

text \<open>Inside the loop the pointer to the count may have been redirected at a repeated member.\<close>

definition at_field :: "pb_field list \<Rightarrow> u64 \<Rightarrow> nat \<Rightarrow> pb_field_iter \<Rightarrow> bool" where
  "at_field fs d j it \<longleftrightarrow> j < field_count fs \<and>
     (it = iter_at fs d j \<or> PB_HTYPE (fld_type (fs ! j)) = PB_HTYPE_REPEATED \<and> (\<exists>a. it = (iter_at fs d j)\<lparr>it_size := a\<rparr>))"

lemma at_field_simps:
  assumes "descriptors fs" "at_field fs d j it"
  shows "it_pos it = j" "it_start it = fs" "it_field it = fs ! j" "it_required it = it_required (iter_at fs d j)"
  using assms iter_at_simps [OF assms(1), of j d] by (auto simp: at_field_def it_field_def)

lemma at_field_next:
  assumes "descriptors fs" "at_field fs d j it"
  shows "pb_field_iter_next it = pb_field_iter_next (iter_at fs d j)"
proof (cases "it = iter_at fs d j")
  case False
  then obtain a where "it = (iter_at fs d j)\<lparr>it_size := a\<rparr>" "PB_HTYPE (fld_type (fs ! j)) = PB_HTYPE_REPEATED" "j < field_count fs"
    using assms(2) by (auto simp: at_field_def)
  then show ?thesis
    using iter_at_simps [OF assms(1), of j d] descriptors_tag(1) [OF assms(1), of j]
    by (simp add: pb_field_iter_next_def it_field_def Let_def PB_HTYPE_REPEATED_def PB_HTYPE_ONEOF_def)
qed simp

lemma at_field_find:
  assumes "descriptors fs" "at_field fs d j it"
  shows "\<exists>found i it'. find_loop j wanted it = Some (found, it') \<and> at_field fs d i it' \<and> (found \<longrightarrow> wanted (fs ! i))"
proof (cases "wanted (fs ! j)")
  case True
  then have "find_loop j wanted it = Some (True, it)"
    using at_field_simps [OF assms] by (simp add: find_loop.simps [of j wanted it])
  with True assms(2) show ?thesis by blast
next
  case False
  have j: "j < field_count fs" using assms(2) by (simp add: at_field_def)
  have "find_loop j wanted it = find_loop j wanted (iter_at fs d j)"
    using False at_field_simps [OF assms] at_field_next [OF assms] iter_at_field [OF assms(1) j, of d]
    by (simp add: find_loop.simps [of j wanted it] find_loop.simps [of j wanted "iter_at fs d j"])
  moreover have "find (\<lambda>i. wanted (fs ! i)) (search_order (field_count fs) j) = Some i \<Longrightarrow> i < field_count fs \<and> wanted (fs ! i)" for i
    using j by (auto simp: find_Some_iff search_order_def)
  ultimately show ?thesis
    using find_loop_search [OF assms(1) j, of wanted d] j by (auto simp: at_field_def split: option.splits)
qed

lemma seek_end_from:
  assumes "descriptors fs" "field_count fs = Suc l" "j \<le> l"
  shows "seek_end (iter_at fs d j) = Some (it_required (iter_at fs d l), fld_type (fs ! l), iter_at fs d 0)"
  using assms(3)
proof (induction "l - j" arbitrary: j)
  case 0
  then have "j = l" by simp
  then show ?case
    using iter_next_at [OF assms(1), of l d] iter_at_field [OF assms(1), of l d] assms(2)
    by (simp add: seek_end.simps [of "iter_at fs d l"] Let_def)
next
  case (Suc m)
  then have "j + 1 < field_count fs" using assms(2) by simp
  then show ?case
    using iter_next_at [OF assms(1), of j d] Suc.hyps(1) [of "j + 1"] Suc.hyps(2) assms(2)
    by (simp add: seek_end.simps [of "iter_at fs d j"] Let_def del: iter_at.simps)
qed

lemma seek_end_at:
  assumes "descriptors fs" "at_field fs d j it"
  shows "seek_end it = seek_end (iter_at fs d j)"
proof -
  have "at_field fs d j (iter_at fs d j)" using assms(2) by (simp add: at_field_def)
  then have "it_required it = it_required (iter_at fs d j)" "it_field it = it_field (iter_at fs d j)"
    using at_field_simps [OF assms] at_field_simps(3) [OF assms(1)] by simp_all
  then show ?thesis
    unfolding seek_end.simps [of it] seek_end.simps [of "iter_at fs d j"] at_field_next [OF assms] Let_def by (simp only:)
qed

definition is_required :: "pb_field \<Rightarrow> bool" where
  "is_required f \<longleftrightarrow> PB_HTYPE (fld_type f) = PB_HTYPE_REQUIRED"

text \<open>The number of required members in front of a position.\<close>

definition required_before :: "pb_field list \<Rightarrow> nat \<Rightarrow> nat" where
  "required_before fs k = length (filter is_required (take k fs))"

lemma required_before_Suc:
  "k < length fs \<Longrightarrow> required_before fs (Suc k) = (if is_required (fs ! k) then required_before fs k + 1 else required_before fs k)"
  by (simp add: required_before_def take_Suc_conv_app_nth)

lemma required_before_mono: "i \<le> k \<Longrightarrow> required_before fs i \<le> required_before fs k"
  unfolding required_before_def by (metis le_add_diff_inverse filter_append length_append le_add1 take_add)

lemma required_before_inj:
  assumes "i < length fs" "k < length fs" "is_required (fs ! i)" "is_required (fs ! k)" "required_before fs i = required_before fs k"
  shows "i = k"
proof (rule ccontr)
  assume "i \<noteq> k"
  then have "Suc i \<le> k \<or> Suc k \<le> i" by linarith
  then show False
    using required_before_mono [of "Suc i" k fs] required_before_mono [of "Suc k" i fs] required_before_Suc [of i fs]
      required_before_Suc [of k fs] assms by auto
qed

lemma required_before_le: "required_before fs k \<le> k"
  unfolding required_before_def by (metis length_filter_le length_take min.bounded_iff order_trans order_refl le_refl)

lemma unat_it_required:
  assumes "descriptors fs" "at_field fs d j it" "field_count fs < 2 ^ 32"
  shows "unat (it_required it) = required_before fs j"
proof -
  have j: "j < field_count fs" using assms(2) by (simp add: at_field_def)
  then have "required_before fs j < 2 ^ 32" using required_before_le [of fs j] assms(3) by linarith
  then show ?thesis
    using at_field_simps(4) [OF assms(1,2)] iter_required [OF assms(1) j, of d]
    by (simp add: required_before_def is_required_def [abs_def] unat_of_nat_u32)
qed

lemma required_count_at:
  assumes "descriptors fs" "at_field fs d j it" "field_count fs < 2 ^ 32"
  shows "\<exists>n. required_count it = Some n \<and> unat n = min 64 (required_before fs (field_count fs))"
proof -
  have j: "j < field_count fs" using assms(2) by (simp add: at_field_def)
  then obtain l where l: "field_count fs = Suc l" by (cases "field_count fs") auto
  have at: "at_field fs d l (iter_at fs d l)" using l by (simp add: at_field_def)
  define n where "n = (if is_required (fs ! l) then it_required (iter_at fs d l) + 1 else it_required (iter_at fs d l))"
  have r: "unat (it_required (iter_at fs d l)) = required_before fs l" using unat_it_required [OF assms(1) at assms(3)] .
  have "required_before fs l + 1 < 2 ^ 32" using required_before_le [of fs l] assms(3) l by linarith
  then have "unat n = required_before fs (Suc l)"
    using r required_before_Suc [of l fs] l by (simp add: n_def unat_word_ariths(1) field_count_def)
  moreover have "required_count it = Some (if 64 < n then 64 else n)"
    using seek_end_at [OF assms(1,2)] seek_end_from [OF assms(1) l, of j d] j l
      iter_at_field [OF assms(1), of 0 d] descriptors_tag(1) [OF assms(1), of 0]
    by (simp add: required_count_def n_def is_required_def Let_def PB_MAX_REQUIRED_FIELDS_def del: iter_at.simps)
  ultimately show ?thesis using l by (auto simp: word_less_nat_alt)
qed

section \<open>The bits of the required members\<close>

definition seen_bit :: "u32 list \<Rightarrow> nat \<Rightarrow> bool" where
  "seen_bit seen r = bit (seen ! (r div 32)) (r mod 32)"

lemma unat_bit_index:
  fixes r :: u32
  shows "unat (drop_bit 5 r) = unat r div 32" "unat (r AND 31) = unat r mod 32"
  using unat_drop_bit [of 5 r] unat_and_mask [of r 5] by (simp_all add: mask_eq_exp_minus_1)

lemma seen_bit_update:
  fixes r :: u32
  assumes "length seen = 2" "unat r < 64" "q < 64"
  shows "seen_bit (seen[unat (drop_bit 5 r) := seen ! unat (drop_bit 5 r) OR push_bit (unat (r AND 31)) 1]) q \<longleftrightarrow>
    seen_bit seen q \<or> q = unat r"
proof -
  have "unat r div 32 < 2" "q div 32 < 2" using assms(2,3) by simp_all
  moreover have "q = unat r \<longleftrightarrow> q div 32 = unat r div 32 \<and> q mod 32 = unat r mod 32"
    by (metis div_mult_mod_eq)
  ultimately show ?thesis
    using assms(1) by (auto simp: seen_bit_def unat_bit_index nth_list_update bit_simps)
qed

lemma required_seen_bit:
  assumes "required_seen seen n" "r < unat n"
  shows "seen_bit seen r"
proof (cases "r div 32 < unat n div 32")
  case True
  then have "seen ! (r div 32) = - 1" using assms(1) by (simp add: required_seen_def unat_bit_index)
  then show ?thesis by (simp add: seen_bit_def)
next
  case False
  have "r div 32 \<le> unat n div 32" using assms(2) by (intro div_le_mono) simp
  with False have d: "r div 32 = unat n div 32" by simp
  moreover have "r = 32 * (r div 32) + r mod 32" "unat n = 32 * (unat n div 32) + unat n mod 32" by simp_all
  ultimately have m: "r mod 32 < unat n mod 32" using assms(2) by linarith
  then have "n AND 31 \<noteq> 0" using unat_bit_index(2) [of n] by fastforce
  then have "seen ! (unat n div 32) = drop_bit (32 - unat n mod 32) (- 1)"
    using assms(1) by (simp add: required_seen_def unat_bit_index)
  then show ?thesis using d m by (simp add: seen_bit_def bit_simps)
qed

section \<open>The loop\<close>

text \<open>A member that the decoder cannot decode; its bit is never set while the loop goes on.\<close>

definition refuses :: "'s field_decoder \<Rightarrow> nat \<Rightarrow> bool" where
  "refuses dec k \<longleftrightarrow> (\<forall>st wt it mem. it_pos it = k \<longrightarrow> \<not> fst (dec st wt it mem))"

definition loop_inv :: "pb_field list \<Rightarrow> u64 \<Rightarrow> decode_state \<Rightarrow> bool" where
  "loop_inv fs d ds \<longleftrightarrow> (\<exists>j. at_field fs d j (dm_iter ds)) \<and> length (dm_fields_seen ds) = 2"

definition unseen :: "pb_field list \<Rightarrow> nat \<Rightarrow> decode_state \<Rightarrow> bool" where
  "unseen fs k ds \<longleftrightarrow> \<not> seen_bit (dm_fields_seen ds) (required_before fs k)"

lemma redirect_count_simps:
  assumes "redirect_count loc ds = Some ds'"
  shows "dm_fields_seen ds' = dm_fields_seen ds" "at_field fs d j (dm_iter ds) \<Longrightarrow> descriptors fs \<Longrightarrow> at_field fs d j (dm_iter ds')"
proof -
  have it: "dm_iter ds' = dm_iter ds \<or> dm_iter ds' = (dm_iter ds)\<lparr>it_size := loc\<rparr> \<and> PB_HTYPE (fld_type (it_field (dm_iter ds))) = PB_HTYPE_REPEATED"
    and "dm_fields_seen ds' = dm_fields_seen ds"
    using assms by (auto simp: redirect_count_def Let_def split: if_splits)
  then show "dm_fields_seen ds' = dm_fields_seen ds" by simp
  show "at_field fs d j (dm_iter ds')" if "at_field fs d j (dm_iter ds)" "descriptors fs"
    using it that at_field_simps(3) [OF that(2,1)] by (auto simp: at_field_def)
qed

lemma mark_required_simps [simp]:
  "dm_iter (mark_required ds) = dm_iter ds" "dm_memory (mark_required ds) = dm_memory ds"
  "length (dm_fields_seen (mark_required ds)) = length (dm_fields_seen ds)"
  by (simp_all add: mark_required_def Let_def)

lemma mark_required_unseen:
  assumes "descriptors fs" "field_count fs < 2 ^ 32" "at_field fs d j (dm_iter ds)" "length (dm_fields_seen ds) = 2"
    and "k < field_count fs" "is_required (fs ! k)" "required_before fs k < 64" "j \<noteq> k" "unseen fs k ds"
  shows "unseen fs k (mark_required ds)"
proof (cases "is_required (fs ! j) \<and> required_before fs j < 64")
  case True
  have j: "j < field_count fs" using assms(3) by (simp add: at_field_def)
  then have "j < length fs" "k < length fs" using assms(5) by (simp_all add: field_count_def)
  then have "required_before fs j \<noteq> required_before fs k"
    using required_before_inj [of j fs k] True assms(6,8) by auto
  moreover note at = at_field_simps [OF assms(1,3)] unat_it_required [OF assms(1,3,2)]
  ultimately show ?thesis
    using seen_bit_update [OF assms(4), of "it_required (dm_iter ds)" "required_before fs k"] True assms(7,9)
    by (simp add: unseen_def mark_required_def Let_def is_required_def PB_MAX_REQUIRED_FIELDS_def word_less_nat_alt)
next
  case False
  then show ?thesis
    using at_field_simps [OF assms(1,3)] unat_it_required [OF assms(1,3,2)] assms(9)
    by (auto simp: unseen_def mark_required_def Let_def is_required_def PB_MAX_REQUIRED_FIELDS_def word_less_nat_alt)
qed

lemma decode_known_inv:
  assumes "decode_known dec loc st wt ds = (ok, st', ds')" "descriptors fs" "loop_inv fs d ds"
  shows "loop_inv fs d ds'"
    and "\<lbrakk>ok; refuses dec k; field_count fs < 2 ^ 32; k < field_count fs; is_required (fs ! k); required_before fs k < 64;
      unseen fs k ds\<rbrakk> \<Longrightarrow> unseen fs k ds'"
proof -
  obtain j where j: "at_field fs d j (dm_iter ds)" "length (dm_fields_seen ds) = 2" using assms(3) by (auto simp: loop_inv_def)
  have "loop_inv fs d ds' \<and> (ok \<longrightarrow> refuses dec k \<longrightarrow> field_count fs < 2 ^ 32 \<longrightarrow> k < field_count fs \<longrightarrow> is_required (fs ! k) \<longrightarrow>
      required_before fs k < 64 \<longrightarrow> unseen fs k ds \<longrightarrow> unseen fs k ds')"
  proof (cases "redirect_count loc ds")
    case None
    then show ?thesis using assms(1,3) by (auto simp: decode_known_def)
  next
    case (Some ds1)
    note r = redirect_count_simps [OF Some]
    have at: "at_field fs d j (dm_iter ds1)" using r(2) j(1) assms(2) by blast
    obtain mem where dec: "dec st wt (dm_iter ds1) (dm_memory ds1) = (ok, st', mem)" "ds' = (mark_required ds1)\<lparr>dm_memory := mem\<rparr>"
      using assms(1) Some by (auto simp: decode_known_def Let_def split: prod.splits)
    have "loop_inv fs d ds'" using at j(2) r(1) dec(2) by (auto simp: loop_inv_def)
    moreover have "unseen fs k ds'"
      if "ok" "refuses dec k" "field_count fs < 2 ^ 32" "k < field_count fs" "is_required (fs ! k)" "required_before fs k < 64" "unseen fs k ds"
    proof -
      have "j \<noteq> k" using that(1,2) dec(1) at_field_simps(1) [OF assms(2) at] by (metis refuses_def fst_conv)
      then have "unseen fs k (mark_required ds1)"
        using mark_required_unseen [OF assms(2) that(3) at] that j(2) r(1) by (simp add: unseen_def)
      then show ?thesis by (simp add: dec(2) unseen_def)
    qed
    ultimately show ?thesis by blast
  qed
  then show "loop_inv fs d ds'" "\<lbrakk>ok; refuses dec k; field_count fs < 2 ^ 32; k < field_count fs; is_required (fs ! k); required_before fs k < 64;
      unseen fs k ds\<rbrakk> \<Longrightarrow> unseen fs k ds'"
    by blast+
qed

lemma decode_unknown_inv:
  assumes "descriptors fs" "loop_inv fs d ds"
  shows "\<exists>ok st' ds'. decode_unknown ext st tag wt ds = Some (ok, st', ds') \<and> loop_inv fs d ds' \<and> dm_fields_seen ds' = dm_fields_seen ds"
proof -
  obtain j where j: "at_field fs d j (dm_iter ds)" "length (dm_fields_seen ds) = 2" using assms(2) by (auto simp: loop_inv_def)
  then obtain found i it where "find_extension_field (dm_iter ds) = Some (found, it)" "at_field fs d i it"
    using at_field_find [OF assms(1) j(1), of "\<lambda>f. PB_LTYPE (fld_type f) = PB_LTYPE_EXTENSION"]
      at_field_simps(1) [OF assms(1) j(1)] by (auto simp: find_extension_field_def)
  then show ?thesis
    using assms(2) j(2)
    by (auto simp: decode_unknown_def skip_unknown_def Let_def loop_inv_def split: prod.splits)
qed

lemma decode_member_inv:
  assumes "descriptors fs" "loop_inv fs d ds"
  shows "\<exists>ok st' ds'. decode_member dec ext loc st tag wt ds = Some (ok, st', ds') \<and> loop_inv fs d ds' \<and>
    (ok \<longrightarrow> refuses dec k \<longrightarrow> field_count fs < 2 ^ 32 \<longrightarrow> k < field_count fs \<longrightarrow> is_required (fs ! k) \<longrightarrow>
      required_before fs k < 64 \<longrightarrow> unseen fs k ds \<longrightarrow> unseen fs k ds')"
proof -
  obtain j where j: "at_field fs d j (dm_iter ds)" "length (dm_fields_seen ds) = 2" using assms(2) by (auto simp: loop_inv_def)
  then obtain found i it where find: "pb_field_iter_find (dm_iter ds) tag = Some (found, it)" "at_field fs d i it"
    using at_field_find [OF assms(1) j(1), of "\<lambda>f. fld_tag f = tag \<and> PB_LTYPE (fld_type f) \<noteq> PB_LTYPE_EXTENSION"]
      at_field_simps(1) [OF assms(1) j(1)] by (auto simp: pb_field_iter_find_def)
  let ?ds = "ds\<lparr>dm_iter := it\<rparr>"
  have inv: "loop_inv fs d ?ds" using find(2) j(2) by (auto simp: loop_inv_def)
  have un: "unseen fs k ?ds = unseen fs k ds" by (simp add: unseen_def)
  show ?thesis
  proof (cases found)
    case True
    obtain ok st' ds' where known: "decode_known dec loc st wt ?ds = (ok, st', ds')" by (cases "decode_known dec loc st wt ?ds") auto
    then have "decode_member dec ext loc st tag wt ds = Some (ok, st', ds')" using find(1) True by (simp add: decode_member_def)
    then show ?thesis using decode_known_inv(1) [OF known assms(1) inv] decode_known_inv(2) [OF known assms(1) inv, of k] un by blast
  next
    case False
    obtain ok st' ds' where "decode_unknown ext st tag wt ?ds = Some (ok, st', ds')" "loop_inv fs d ds'"
      "dm_fields_seen ds' = dm_fields_seen ?ds"
      using decode_unknown_inv [OF assms(1) inv] by blast
    then show ?thesis using find(1) False by (auto simp: decode_member_def unseen_def)
  qed
qed

text \<open>What every turn of the loop keeps holds when the loop ends.\<close>

lemma decode_loop_rule:
  assumes loop: "decode_loop dec ext loc st ds = Some r" and "fst r" "Inv ds"
    and step: "\<And>st tag wt ds st1 ds1. Inv ds \<Longrightarrow> decode_member dec ext loc st tag wt ds = Some (True, st1, ds1) \<Longrightarrow> Inv ds1"
  shows "Inv (snd (snd r))"
proof -
  have "(dec', ext', loc') = (dec, ext, loc) \<longrightarrow> fst r \<longrightarrow> Inv ds \<longrightarrow> Inv (snd (snd r))"
    if "decode_loop dec' ext' loc' st ds = Some r" for dec' ext' loc'
  proof (rule decode_loop.raw_induct
      [where P = "\<lambda>dec' ext' loc' st ds r. (dec', ext', loc') = (dec, ext, loc) \<longrightarrow> fst r \<longrightarrow> Inv ds \<longrightarrow> Inv (snd (snd r))", OF _ that])
    fix f dec' ext' loc' and st :: "'a pb_istream" and ds r
    assume IH: "\<And>dec' ext' loc' st ds y. f dec' ext' loc' st ds = Some y \<Longrightarrow>
        (dec', ext', loc') = (dec, ext, loc) \<longrightarrow> fst y \<longrightarrow> Inv ds \<longrightarrow> Inv (snd (snd y))"
      and body: "(if is_bytes_left st = 0 then Some (True, st, ds)
        else case pb_decode_tag st of ((r, st'), eof) \<Rightarrow> (case r of None \<Rightarrow> Some (eof, st', ds)
           | Some t \<Rightarrow> (case decode_member dec' ext' loc' st' (snd t) (fst t) ds of None \<Rightarrow> None
             | Some res \<Rightarrow> if fst res then f dec' ext' loc' (fst (snd res)) (snd (snd res)) else Some res))) = Some r"
    show "(dec', ext', loc') = (dec, ext, loc) \<longrightarrow> fst r \<longrightarrow> Inv ds \<longrightarrow> Inv (snd (snd r))"
    proof (intro impI)
      assume eq: "(dec', ext', loc') = (dec, ext, loc)" and "fst r" "Inv ds"
      obtain t st1 eof where tag: "pb_decode_tag st = ((t, st1), eof)" by (metis prod.collapse)
      show "Inv (snd (snd r))"
      proof (cases "is_bytes_left st = 0 \<or> t = None")
        case True
        then show ?thesis using body tag \<open>Inv ds\<close> by (auto split: if_splits)
      next
        case False
        then obtain u where t: "t = Some u" by blast
        obtain res where res: "decode_member dec ext loc st1 (snd u) (fst u) ds = Some res"
          "(if fst res then f dec ext loc (fst (snd res)) (snd (snd res)) else Some res) = Some r"
          using body False tag t eq by (auto split: option.splits)
        then have "fst res" using \<open>fst r\<close> by (auto split: if_splits)
        then have "Inv (snd (snd res))" using step [OF \<open>Inv ds\<close>, of st1 "snd u" "fst u"] res(1) by (metis prod.collapse)
        then show ?thesis using IH [of dec ext loc] res(2) \<open>fst res\<close> \<open>fst r\<close> by simp
      qed
    qed
  qed
  then show ?thesis using assms(1-3) by blast
qed

lemma decode_loop_unseen:
  assumes "decode_loop dec ext loc st ds = Some (True, st', ds')" "descriptors fs" "loop_inv fs d ds"
    and "refuses dec k" "field_count fs < 2 ^ 32" "k < field_count fs" "is_required (fs ! k)" "required_before fs k < 64" "unseen fs k ds"
  shows "loop_inv fs d ds' \<and> unseen fs k ds'"
proof -
  have step: "loop_inv fs d ds2 \<and> unseen fs k ds2"
    if inv: "loop_inv fs d ds1 \<and> unseen fs k ds1" and member: "decode_member dec ext loc st1 tag wt ds1 = Some (True, st2, ds2)"
    for st1 tag wt ds1 st2 ds2
  proof -
    obtain ok st3 ds3 where m: "decode_member dec ext loc st1 tag wt ds1 = Some (ok, st3, ds3)" "loop_inv fs d ds3"
      "ok \<longrightarrow> refuses dec k \<longrightarrow> field_count fs < 2 ^ 32 \<longrightarrow> k < field_count fs \<longrightarrow> is_required (fs ! k) \<longrightarrow>
        required_before fs k < 64 \<longrightarrow> unseen fs k ds1 \<longrightarrow> unseen fs k ds3"
      using decode_member_inv [OF assms(2), of d ds1 dec ext loc st1 tag wt k] inv by blast
    then have "ok" "ds3 = ds2" using member by simp_all
    then show ?thesis using m inv assms(4-8) by blast
  qed
  have "loop_inv fs d (snd (snd (True, st', ds'))) \<and> unseen fs k (snd (snd (True, st', ds')))"
  proof (rule decode_loop_rule [where Inv = "\<lambda>ds. loop_inv fs d ds \<and> unseen fs k ds", OF assms(1)])
    show "fst (True, st', ds')" by simp
    show "loop_inv fs d ds \<and> unseen fs k ds" using assms(3,9) ..
  qed (rule step)
  then show ?thesis by simp
qed

lemma noinit_required:
  assumes "descriptors fs" "field_count fs < 2 ^ 32" "k < field_count fs" "is_required (fs ! k)" "required_before fs k < 64" "refuses dec k"
  shows "pb_decode_noinit dec ext loc st fs dest mem \<noteq> Some (True, st', mem')"
proof
  assume ok: "pb_decode_noinit dec ext loc st fs dest mem = Some (True, st', mem')"
  let ?ds = "\<lparr>dm_iter = snd (pb_field_iter_begin fs dest), dm_memory = mem, dm_fields_seen = [0, 0],
    dm_extension_range_start = 0, dm_fixed_count_field = None\<rparr>"
  obtain st1 ds n where loop: "decode_loop dec ext loc st ?ds = Some (True, st1, ds)" "required_count (dm_iter ds) = Some n"
    "\<not> (0 < n \<and> \<not> required_seen (dm_fields_seen ds) n)"
    using ok by (auto simp: pb_decode_noinit_def split: option.splits if_splits prod.splits)
  have "at_field fs dest 0 (iter_at fs dest 0)" using assms(3) by (simp add: at_field_def)
  then have "loop_inv fs dest ?ds" by (auto simp: loop_inv_def)
  moreover have "unseen fs k ?ds"
    using assms(5) by (cases "required_before fs k div 32") (auto simp: unseen_def seen_bit_def nth_Cons')
  ultimately have inv: "loop_inv fs dest ds" "unseen fs k ds"
    using decode_loop_unseen [OF loop(1) assms(1) _ assms(6,2,3,4,5)] by blast+
  then obtain j where "at_field fs dest j (dm_iter ds)" by (auto simp: loop_inv_def)
  then have n: "unat n = min 64 (required_before fs (field_count fs))"
    using required_count_at [OF assms(1) _ assms(2)] loop(2) by fastforce
  have "required_before fs k < required_before fs (Suc k)"
    using required_before_Suc [of k fs] assms(3,4) by (simp add: field_count_def)
  also have "\<dots> \<le> required_before fs (field_count fs)" using assms(3) by (intro required_before_mono) simp
  finally have less: "required_before fs k < unat n" using n assms(5) by simp
  then have "0 < n" by (simp add: word_less_nat_alt)
  then show False using required_seen_bit [of "dm_fields_seen ds" n] less loop(3) inv(2) by (simp add: unseen_def)
qed

section \<open>Every decoder consumes its input\<close>

definition consumes :: "'s pb_istream \<Rightarrow> 's pb_istream \<Rightarrow> bool" where
  "consumes st st' \<longleftrightarrow> is_bytes_left st' \<le> is_bytes_left st"

lemma consumes_trans [trans]: "consumes st st' \<Longrightarrow> consumes st' st'' \<Longrightarrow> consumes st st''"
  by (simp add: consumes_def)

lemma consumes_error [simp]: "consumes st (snd (is_error st msg))"
  by (simp add: consumes_def is_error_def)

lemma readbyte_consumes: "pb_readbyte st = (r, st') \<Longrightarrow> consumes st st' \<and> (r \<noteq> None \<longrightarrow> is_bytes_left st' < is_bytes_left st)"
  by (auto simp: pb_readbyte_def is_error_def consumes_def split: if_splits prod.splits option.splits)

lemma read_bytes_consumes: "consumes st (snd (read_bytes st n))"
  by (auto simp: read_bytes_def is_error_def consumes_def split: prod.splits option.splits)

lemma skip_bytes_consumes: "consumes st (snd (skip_bytes st n))"
proof (induction st n rule: skip_bytes.induct)
  case (1 st count)
  then show ?case
    using read_bytes_consumes [of st 16] read_bytes_consumes [of st count]
    by (subst skip_bytes.simps) (auto simp: consumes_def split: prod.splits option.splits)
qed

lemma pb_read_consumes: "consumes st (snd (pb_read st null n))"
  using skip_bytes_consumes [of st n] read_bytes_consumes [of st n] by (simp add: pb_read_def consumes_def)

lemma skip_read_consumes: "consumes st (snd (skip_read st n))"
  using pb_read_consumes [of st True n] by (auto simp: skip_read_def split: prod.splits)

lemma varint32_loop_consumes: "consumes st (snd (varint32_loop st result bitpos))"
proof (induction st result bitpos rule: varint32_loop.induct)
  case (1 st result bitpos)
  obtain r st' where r: "pb_readbyte st = (r, st')" by fastforce
  show ?case
  proof (cases r)
    case None
    then show ?thesis using r readbyte_consumes [OF r] by (simp add: varint32_loop.simps [of st])
  next
    case (Some byte)
    then show ?thesis
      using r readbyte_consumes [OF r] 1 [OF r [symmetric] Some refl refl refl]
      by (subst varint32_loop.simps) (auto simp: is_error_def consumes_def Let_def)
  qed
qed

lemma varint32_eof_consumes:
  assumes "pb_decode_varint32_eof st = ((r, st'), eof)"
  shows "consumes st st' \<and> (r \<noteq> None \<longrightarrow> is_bytes_left st' < is_bytes_left st)"
proof -
  obtain b st1 where b: "pb_readbyte st = (b, st1)" by fastforce
  show ?thesis
    using assms b readbyte_consumes [OF b] varint32_loop_consumes [of st1]
    by (auto simp: pb_decode_varint32_eof_def is_error_def consumes_def split: option.splits prod.splits if_splits)
      (metis (no_types, lifting) le_less_trans less_le_trans snd_conv order_trans less_imp_le)+
qed

lemma decode_tag_consumes:
  assumes "pb_decode_tag st = ((r, st'), eof)"
  shows "consumes st st' \<and> (r \<noteq> None \<longrightarrow> is_bytes_left st' < is_bytes_left st)"
proof -
  obtain r1 st1 e1 where b: "pb_decode_varint32_eof st = ((r1, st1), e1)" by (metis prod.collapse)
  show ?thesis using assms varint32_eof_consumes [OF b] b by (auto simp: pb_decode_tag_def split: option.splits if_splits)
qed

lemma skip_varint_consumes: "consumes st (snd (pb_skip_varint st))"
proof (induction st rule: pb_skip_varint.induct)
  case (1 st)
  then show ?case
    using pb_read_consumes [of st False 1]
    by (subst pb_skip_varint.simps) (auto simp: consumes_def split: prod.splits option.splits)
qed

lemma skip_field_consumes: "consumes st (snd (pb_skip_field st wt))"
proof -
  obtain r st1 e where v: "pb_decode_varint32_eof st = ((r, st1), e)" by (metis prod.collapse)
  have "consumes st (snd (pb_skip_string st))"
    using varint32_eof_consumes [OF v] skip_read_consumes [of st1]
    by (auto simp: pb_skip_string_def pb_decode_varint32_def v consumes_def intro: order_trans split: option.splits)
  then show ?thesis
    using skip_varint_consumes [of st] skip_read_consumes [of st] by (simp add: pb_skip_field_def)
qed

definition well_behaved :: "'s field_decoder \<Rightarrow> 's extension_decoder \<Rightarrow> bool" where
  "well_behaved dec ext \<longleftrightarrow>
     (\<forall>st wt it mem. consumes st (fst (snd (dec st wt it mem)))) \<and> (\<forall>st tag wt it mem. consumes st (fst (snd (ext st tag wt it mem))))"

lemma decode_known_consumes:
  assumes "well_behaved dec ext"
  shows "consumes st (fst (snd (decode_known dec loc st wt ds)))"
proof (cases "redirect_count loc ds")
  case (Some ds1)
  then show ?thesis
    using assms by (simp add: decode_known_def Let_def well_behaved_def split: prod.splits) (metis fst_conv snd_conv)
qed (simp add: decode_known_def)

lemma skip_unknown_consumes: "consumes st (fst (snd (skip_unknown st wt ds)))"
  using skip_field_consumes [of st wt] by (auto simp: skip_unknown_def split: prod.splits)

lemma decode_unknown_consumes:
  assumes "well_behaved dec ext" "decode_unknown ext st tag wt ds = Some r"
  shows "consumes st (fst (snd r))"
proof (cases "dm_extension_range_start ds \<le> tag")
  case True
  then obtain found it where f: "find_extension_field (dm_iter ds) = Some (found, it)"
    using assms(2) by (auto simp: decode_unknown_def split: option.splits)
  obtain ok st' mem where e: "ext st tag wt it (dm_memory ds) = (ok, st', mem)" by (metis prod.collapse)
  then have "consumes st st'" using assms(1) by (metis well_behaved_def fst_conv snd_conv)
  then show ?thesis
    using assms(2) True f e consumes_trans [OF _ skip_unknown_consumes, of st st'] skip_unknown_consumes [of st wt]
    by (auto simp: decode_unknown_def Let_def split: if_splits)
next
  case False
  then show ?thesis using assms(2) skip_unknown_consumes [of st wt] by (auto simp: decode_unknown_def)
qed

lemma decode_member_returns:
  assumes "descriptors fs" "loop_inv fs d ds" "well_behaved dec ext"
  shows "\<exists>ok st' ds'. decode_member dec ext loc st tag wt ds = Some (ok, st', ds') \<and> loop_inv fs d ds' \<and> consumes st st'"
proof -
  obtain ok st' ds' where m: "decode_member dec ext loc st tag wt ds = Some (ok, st', ds')" "loop_inv fs d ds'"
    using decode_member_inv [OF assms(1,2), of dec ext loc st tag wt] by blast
  moreover have "consumes st (fst (snd (ok, st', ds')))"
    using m(1) decode_known_consumes [OF assms(3)] decode_unknown_consumes [OF assms(3)]
    by (auto simp: decode_member_def split: option.splits if_splits prod.splits) (metis fst_conv snd_conv)+
  ultimately show ?thesis by auto
qed

lemma decode_loop_returns:
  assumes "descriptors fs" "loop_inv fs d ds" "well_behaved dec ext"
  shows "\<exists>ok st' ds'. decode_loop dec ext loc st ds = Some (ok, st', ds') \<and> loop_inv fs d ds'"
  using assms(2)
proof (induction "is_bytes_left st" arbitrary: st ds rule: less_induct)
  case less
  obtain t st1 eof where tag: "pb_decode_tag st = ((t, st1), eof)" by (metis prod.collapse)
  show ?case
  proof (cases "is_bytes_left st = 0 \<or> t = None")
    case True
    then show ?thesis using less.prems tag by (auto simp: decode_loop.simps [of dec ext loc st ds])
  next
    case False
    then obtain u where t: "t = Some u" by blast
    obtain ok st2 ds2 where m: "decode_member dec ext loc st1 (snd u) (fst u) ds = Some (ok, st2, ds2)" "loop_inv fs d ds2" "consumes st1 st2"
      using decode_member_returns [OF assms(1) less.prems assms(3)] by blast
    have "is_bytes_left st2 < is_bytes_left st"
      using decode_tag_consumes [OF tag] t m(3) by (simp add: consumes_def)
    then show ?thesis
      using False t tag m(1,2) less.hyps [of st2 ds2] by (auto simp: decode_loop.simps [of dec ext loc st ds])
  qed
qed

lemma noinit_returns:
  assumes "descriptors fs" "0 < field_count fs" "field_count fs < 2 ^ 32" "well_behaved dec ext"
  shows "\<exists>ok st' mem'. pb_decode_noinit dec ext loc st fs dest mem = Some (ok, st', mem')"
proof -
  let ?ds = "\<lparr>dm_iter = snd (pb_field_iter_begin fs dest), dm_memory = mem, dm_fields_seen = [0, 0],
    dm_extension_range_start = 0, dm_fixed_count_field = None\<rparr>"
  have "at_field fs dest 0 (iter_at fs dest 0)" using assms(2) by (simp add: at_field_def)
  then have "loop_inv fs dest ?ds" by (auto simp: loop_inv_def)
  then obtain ok st' ds' where loop: "decode_loop dec ext loc st ?ds = Some (ok, st', ds')" "loop_inv fs dest ds'"
    using decode_loop_returns [OF assms(1) _ assms(4)] by blast
  then obtain j where "at_field fs dest j (dm_iter ds')" by (auto simp: loop_inv_def)
  then obtain n where "required_count (dm_iter ds') = Some n" using required_count_at [OF assms(1) _ assms(3)] by blast
  then show ?thesis using loop(1) by (auto simp: pb_decode_noinit_def)
qed

text \<open>The terminator of an empty message type is taken for a member with tag zero, although there is
  no such member.\<close>

lemma iter_find_empty:
  "pb_field_iter_find (snd (pb_field_iter_begin [PB_LAST_FIELD] d)) 0 = Some (True, snd (pb_field_iter_begin [PB_LAST_FIELD] d))"
  unfolding pb_field_iter_find_def
  by (subst find_loop.simps) (simp add: it_field_def PB_LAST_FIELD_def PB_LTYPE_def PB_LTYPE_EXTENSION_def)

section \<open>Properties\<close>

definition sample_message :: "pb_field list" where
  "sample_message =
     [\<lparr>fld_tag = 1, fld_type = 0x00, fld_data_offset = 0, fld_size_offset = 0, fld_data_size = 1, fld_array_size = 0\<rparr>,
      \<lparr>fld_tag = 2, fld_type = 0x12, fld_data_offset = 3, fld_size_offset = - 1, fld_data_size = 4, fld_array_size = 0\<rparr>,
      PB_LAST_FIELD]"

lemma sample_message_simps:
  "descriptors sample_message" "field_count sample_message = 2" "is_required (sample_message ! 0)" "required_before sample_message 0 = 0"
  by (simp_all add: descriptors_def field_count_def sample_message_def PB_LAST_FIELD_def is_required_def PB_HTYPE_def
      PB_HTYPE_REQUIRED_def required_before_def)

text \<open>C26: A search with the field iterator from any position ends. It stops at the first member with the tag, in the order from
  the position to the end of the descriptors and on from their beginning, and otherwise it is back where it started, with
  the pointers it had. The index of required members is the number of required members before the position.\<close>

theorem pb_iter_find_exact:
  assumes "descriptors fs" "k < field_count fs"
  shows "pb_field_iter_find (iter_at fs d k) tag =
      Some (case find (\<lambda>i. fld_tag (fs ! i) = tag \<and> PB_LTYPE (fld_type (fs ! i)) \<noteq> PB_LTYPE_EXTENSION) (search_order (field_count fs) k) of
        None \<Rightarrow> (False, iter_at fs d k) | Some i \<Rightarrow> (True, iter_at fs d i)) \<and>
    it_pos (iter_at fs d k) = k \<and> it_required (iter_at fs d k) = of_nat (required_before fs k)"
proof (intro conjI)
  show "pb_field_iter_find (iter_at fs d k) tag =
      Some (case find (\<lambda>i. fld_tag (fs ! i) = tag \<and> PB_LTYPE (fld_type (fs ! i)) \<noteq> PB_LTYPE_EXTENSION) (search_order (field_count fs) k) of
        None \<Rightarrow> (False, iter_at fs d k) | Some i \<Rightarrow> (True, iter_at fs d i))"
    using find_loop_search [OF assms] iter_at_simps [OF assms, of d] by (simp add: pb_field_iter_find_def)
  show "it_pos (iter_at fs d k) = k" using iter_at_simps [OF assms] by simp
  show "it_required (iter_at fs d k) = of_nat (required_before fs k)"
    using iter_required [OF assms] by (simp add: required_before_def is_required_def [abs_def])
qed

theorem pb_iter_find_exact_witness:
  "pb_field_iter_find (iter_at sample_message 4096 1) 1 = Some (True, iter_at sample_message 4096 0) \<and>
   it_required (iter_at sample_message 4096 1) = 1"
  using pb_iter_find_exact [of sample_message 1 4096 1]
  by (simp add: sample_message_simps search_order_def upt_rec del: iter_at.simps)
     (simp add: sample_message_def PB_LTYPE_def PB_LTYPE_EXTENSION_def required_before_def is_required_def PB_HTYPE_def
      PB_HTYPE_REQUIRED_def del: iter_at.simps)

text \<open>C15: A message is never accepted without its required members (the first 64 of them): if the decoder of members fails
  whenever it is called for some required member, so that a success would have to do without this member, decoding
  returns and fails, whatever the input and the other members are.\<close>

theorem pb_required_enforced:
  assumes "descriptors fs" "field_count fs < 2 ^ 32" "k < field_count fs" "is_required (fs ! k)" "required_before fs k < 64"
    and "refuses dec k" "well_behaved dec ext"
  shows "\<exists>st' mem'. pb_decode_noinit dec ext loc st fs dest mem = Some (False, st', mem')"
proof -
  obtain ok st' mem' where "pb_decode_noinit dec ext loc st fs dest mem = Some (ok, st', mem')"
    using noinit_returns [OF assms(1) _ assms(2,7)] assms(3) by fastforce
  then show ?thesis using noinit_required [OF assms(1-6), of ext loc st dest mem] by (cases ok) auto
qed

theorem pb_required_enforced_witness:
  "\<exists>st' mem'. pb_decode_noinit (\<lambda>st wt it mem. (it_pos it \<noteq> 0, st, mem)) (\<lambda>st tag wt it mem. (True, st, mem)) 64
     (pb_istream_from_buffer [16, 5] 2) sample_message 4096 (\<lambda>_. 0) = Some (False, st', mem')"
  by (rule pb_required_enforced [of sample_message 0])
     (simp_all add: sample_message_simps refuses_def well_behaved_def consumes_def)

text \<open>C27: The loop over the members of a message ends on every input, provided the decoders of members and extensions do not
  give bytes back to the stream.\<close>

theorem pb_decode_returns:
  assumes "descriptors fs" "0 < field_count fs" "field_count fs < 2 ^ 32" "well_behaved dec ext"
  shows "\<exists>ok st' mem'. pb_decode_noinit dec ext loc st fs dest mem = Some (ok, st', mem')"
  using assms by (rule noinit_returns)

theorem pb_decode_returns_witness:
  "\<exists>ok st' mem'. pb_decode_noinit (\<lambda>st wt it mem. (True, st, mem)) (\<lambda>st tag wt it mem. (True, st, mem)) 64
     (pb_istream_from_buffer [16, 5] 2) sample_message 4096 (\<lambda>_. 0) = Some (ok, st', mem')"
  by (rule pb_decode_returns) (simp_all add: sample_message_simps well_behaved_def consumes_def)

end
