(* ===== verification/Spec2Isabelle.thy ===== *)
theory Spec2Isabelle
  imports Unicode Ber Base64 Stack Buf Obj Uv_Timer Uv_Idna Pb_Message
begin

text \<open>
  \<^bold>\<open>What is verified.\<close> The repository is an iOS application written in Swift that links its
  dependencies as pods under \<^verbatim>\<open>src/GenieD/Pods\<close>. The application's own code is glue between views and
  web services; the C code with logic of its own is in the pods. This development models the data
  layer of \<^verbatim>\<open>BoringSSL-GRPC\<close>, the part every certificate, key and handshake message passes through:
  parsing and building byte strings and DER, converting BER to DER, transcoding text and
  Base64, object identifiers, and the containers (stack, growable buffer, hash table) that hold the results; and of
  \<^verbatim>\<open>Libuv-gRPC\<close> the timers that drive its event loop, the text form of addresses and the conversion of host names; and of \<^verbatim>\<open>nanopb\<close>
  the stream layer of protocol buffers.

  \<^bold>\<open>Theories and sources\<close> (paths under \<^verbatim>\<open>BoringSSL-GRPC/src\<close> where no pod is named; definitions carry the names of the C functions).

  \<^item> \<open>Prelude\<close>: machine integers, fallible operations on a state, blocks of memory, bits, big-endian integers, and the
    locales \<open>prefix_codec\<close> and \<open>canonical_codec\<close>, the interface of an encoder with a decoder that reads one value
    from the front of a byte string.
  \<^item> \<open>Mem\<close>: \<^verbatim>\<open>crypto/mem.c\<close>. Memory is granted by a policy, an argument \<open>al\<close> that says which sizes succeed; theorems
    hold for every policy, those that claim success assume that the policy grants what is asked for.
  \<^item> \<open>Der_Spec\<close>: the wire format itself (base-128 integers, identifier and length octets, INTEGER contents), written
    without reference to the code; parser and builder are proved against it separately.
  \<^item> \<open>Cbs\<close>: \<^verbatim>\<open>crypto/bytestring/cbs.c\<close>, the parser. A \<^verbatim>\<open>CBS\<close> is the list of its bytes; a read that fails is
    \<^term>\<open>None\<close>. Every reader of the file is shown to be a canonical codec for its format.
  \<^item> \<open>Cbb\<close>: \<^verbatim>\<open>crypto/bytestring/cbb.c\<close>, the builder. The shared buffer (with capacity, resizability and error flag) and
    the chain of open children form one record; a \<^verbatim>\<open>CBB\<close> is addressed by its depth in the chain. \<open>emits\<close> is
    the contract of an operation that appends bytes; it composes through pending lengths. The second half shows
    that every operation keeps the buffer invariant and never writes outside a fixed buffer.
  \<^item> \<open>Oid\<close>: dotted-decimal identifiers of \<^verbatim>\<open>cbb.c\<close> and \<^verbatim>\<open>cbs.c\<close>, text to DER and back.
  \<^item> \<open>Qsort\<close>: the C library's \<^verbatim>\<open>qsort\<close> as an insertion sort, with the locales \<open>sort_order\<close> and
    \<open>compare_order\<close> for the comparison functions passed to it.
  \<^item> \<open>Set_Of\<close>: \<^verbatim>\<open>CBB_flush_asn1_set_of\<close>, the DER order of a SET OF, and the closure of all builder calls under one
    step relation.
  \<^item> \<open>Ber\<close>: \<^verbatim>\<open>crypto/bytestring/ber.c\<close> and \<^verbatim>\<open>asn1_compat.c\<close>, the search for BER-only forms, the conversion, implicitly
    tagged strings.
  \<^item> \<open>Unicode\<close>: \<^verbatim>\<open>crypto/bytestring/unicode.c\<close>.
  \<^item> \<open>Base64\<close>: \<^verbatim>\<open>crypto/base64/base64.c\<close> with the constant-time helpers of \<^verbatim>\<open>crypto/internal.h\<close>.
  \<^item> \<open>Stack\<close>: \<^verbatim>\<open>crypto/stack/stack.c\<close>; the locale \<open>indexed_list\<close> states what its clients rely on.
  \<^item> \<open>Buf\<close>: \<^verbatim>\<open>crypto/buf/buf.c\<close>.
  \<^item> \<open>Lhash\<close>: \<^verbatim>\<open>crypto/lhash/lhash.c\<close>; the locale \<open>hash_key\<close> is what the table asks of the hash and comparison
    callbacks, \<open>keyed_table\<close> what it promises.
  \<^item> \<open>Obj\<close>: \<^verbatim>\<open>crypto/obj/obj.c\<close> and the constructors of \<^verbatim>\<open>crypto/asn1/a_object.c\<close>, a client of the parser, the builder and
    four hash tables.
  \<^item> \<open>Uv_Heap\<close>: \<^verbatim>\<open>Libuv-gRPC/src/heap-inl.h\<close>, a binary heap of linked nodes in an explicit store. Following a null pointer, or a
    loop that does not end, is \<^term>\<open>None\<close>. The abstraction is the array heap; the locale \<open>heap_order\<close> is what the heap
    asks of its comparison, \<open>min_queue\<close> what it promises.
  \<^item> \<open>Uv_Timer\<close>: \<^verbatim>\<open>Libuv-gRPC/src/timer.c\<close> with the handle macros of \<^verbatim>\<open>uv-common.h\<close> and the closing of a timer in
    \<^verbatim>\<open>unix/core.c\<close>, a client of the heap. \<open>loop_run\<close> is the step relation of a program that works on the timers of a loop.
  \<^item> \<open>Uv_Inet\<close>: \<^verbatim>\<open>Libuv-gRPC/src/inet.c\<close> and \<^verbatim>\<open>strscpy.c\<close>, addresses as text. A C string is the list of its bytes before the zero.
  \<^item> \<open>Uv_Idna\<close>: \<^verbatim>\<open>Libuv-gRPC/src/idna.c\<close> and the preparation of a request in \<^verbatim>\<open>unix/getaddrinfo.c\<close>. The input is read from an
    address space, a function from addresses to bytes, and the output is the list of bytes written. The main loop of the
    encoder is a partial function, proved to return. The specification is the decoder of RFC 3492 (\<open>punycode_decode\<close>).
  \<^item> \<open>Pb_Stream\<close>: the streams and wire values of \<^verbatim>\<open>nanopb/pb_encode.c\<close> and \<^verbatim>\<open>pb_decode.c\<close>. The state of a stream is a type parameter, its
    callback a function on it; the readers are interpretations of \<open>prefix_codec\<close>.
  \<^item> \<open>Pb_Field\<close>: the encoders and decoders of single members and of arrays, from the same files. A member is the list of its bytes.
  \<^item> \<open>Pb_Message\<close>: the iterator of \<^verbatim>\<open>nanopb/pb_common.c\<close> and the loop of \<^verbatim>\<open>pb_decode_noinit\<close>. Pointers are 64-bit addresses; the
    decoders of members and extensions are arguments. Loops that end only on well-formed descriptors are partial functions.
  \<^bold>\<open>What the theorems show.\<close>

  \<^item> Parser: the DER element reader accepts exactly the canonical encodings; the same for INTEGER, base-128 integers and
    UTF-8. Sequences of elements are read back.
  \<^item> Builder: whatever is written to a child is framed as one DER element, at every nesting; no sequence of calls
    overflows a fixed buffer; contents that outgrow a length prefix are an error; SET OF elements are sorted.
  \<^item> Conversions: BER to DER ends on every input and produces DER (but the search before it can miss BER-only forms, a
    finding); identifiers and Base64 survive their round trips, the streams for every way of cutting the data.
  \<^item> Containers: the stack refines a list, the hash table a map with bounded load, the buffer a byte string; binary
    and linear search agree while the sorted flag tells the truth. Two findings: \<^verbatim>\<open>sk_set\<close> leaves the flag stale, and the
    object registry uses tables it failed to allocate.
  \<^item> Timers: the pointer heap refines a set and gives its elements in order; under every sequence of operations it holds exactly
    the active timers; the loop sleeps no longer than the earliest timer allows, and runs every timer that is due once and in
    order, provided the callbacks do not make timers due again, in which case it does not return.
  \<^item> Addresses: IPv4 text is read exactly in the form in which it is printed; IPv6 text survives the round trip in all its forms and
    abbreviates the first longest run of zeros; nothing is written outside the buffer. A finding: size zero is a success for IPv6.
  \<^item> Host names: the conversion returns on every input and stays in its buffer; what it writes for a label decodes, by the RFC, to
    the code points of the label; the decoder of UTF-8 agrees with the one of BoringSSL. The proof runs the encoder and
    the decoder of the RFC in step; labels of up to \<open>label_limit\<close> code points cannot overflow a word. Findings: the decoder
    reads past the end of its input, accepts wrong continuation bytes, and long names are cut off without a terminator.
  \<^item> Protocol buffers: every sequence of wire values is read back from the bytes written for it, a buffer stream stays inside its
    buffer and a sizing stream counts right, unknown fields are skipped exactly,
    and packed arrays of every integer type survive the round trip; the field iterator finds members in cyclic order, the loop over a message ends and never
    accepts one without its required members. Findings: an over-long varint is accepted, and tag zero in an empty message.

  \<^bold>\<open>Fuel and bounds.\<close> \<^verbatim>\<open>size_t\<close> is a natural number with the wrap-around at \<open>2 ^ 64\<close> written out where a sum or product
  may reach it; other integers are words of their width. Recursion is structural or has a termination proof, except that
  the loops of the timer heap and \<^verbatim>\<open>uv__run_timers\<close>, which end only on a well-formed heap, are partial functions, and
  \<^verbatim>\<open>cbs_convert_ber\<close> takes fuel; \<open>ber_convert_terminates\<close> shows that the length of the input is enough,
  so that the result never depends on it. The depth bound of \<^verbatim>\<open>ber.c\<close>, 2048, is kept.

  \<^bold>\<open>Not modelled.\<close> Locks and threads: each call is one step. The tables of \<^verbatim>\<open>obj_dat.h\<close> are generated and are an argument.
  Functions whose only effect is to release or wipe memory have no result to state. A callback that changes a hash table
  while it is traversed. What happens to a host name request after it is handed to the thread pool. A program with timers in several
  loops. The rest of \<^verbatim>\<open>BoringSSL-GRPC\<close> (ciphers, digests, big numbers, elliptic curves, X.509, TLS), of
  \<^verbatim>\<open>Libuv-gRPC\<close> and \<^verbatim>\<open>nanopb\<close> (the encoder of messages, the decoders of submessages, strings and allocated members), and the C++ pods (gRPC, Abseil, LevelDB, Firebase) are outside this development; so is the
  Swift application.
\<close>

section \<open>Builder and parser\<close>

text \<open>C2: The contract of \<^verbatim>\<open>CBB_add_asn1\<close>: if a piece of code writes \<open>body\<close> to the child, then opening the
  child, running the code and flushing the parent appends the DER element with that tag and that
  body to the parent and nothing else, and succeeds whenever there is room. Since the combined code
  again writes to its parent in this sense, the contract covers every nesting.\<close>

theorem cbb_add_asn1_contract:
  assumes "emits al (Suc d) f body" and "length body \<le> 0xfffffffe"
  shows "emits al d (\<lambda>st. and_then (CBB_add_asn1 al d st tag) (\<lambda>st. and_then (f st) (CBB_flush al d)))
    (der_element tag body)"
  using assms by (rule emits_asn1)

theorem cbb_add_asn1_contract_witness:
  "emits (\<lambda>_. True) 0 (\<lambda>st. and_then (CBB_add_asn1 (\<lambda>_. True) 0 st 0x20000010)
      (\<lambda>st. and_then (CBB_add_asn1_octet_string (\<lambda>_. True) 1 st [7]) (CBB_flush (\<lambda>_. True) 0)))
    [0x30, 3, 4, 1, 7]"
proof -
  have inner: "der_element CBS_ASN1_OCTETSTRING [7] = [4, 1, 7]"
    by (simp add: CBS_ASN1_OCTETSTRING_def der_element_def der_header_def der_tag_def der_length_def tag_num_def tag_class_def)
  have outer: "der_element 0x20000010 [4, 1, 7] = [0x30, 3, 4, 1, 7]"
    by (simp add: der_element_def der_header_def der_tag_def der_length_def tag_num_def tag_class_def)
  have "emits (\<lambda>_. True) (Suc 0) (\<lambda>st. CBB_add_asn1_octet_string (\<lambda>_. True) (Suc 0) st [7]) [4, 1, 7]"
    using emits_add_asn1_octet_string [of "[7]" "\<lambda>_. True" "Suc 0"] inner by simp
  from cbb_add_asn1_contract [OF this, where tag = "0x20000010"] outer show ?thesis by simp
qed

text \<open>A signed 64-bit integer written by \<^verbatim>\<open>CBB_add_asn1_int64\<close> is read back by \<^verbatim>\<open>CBS_get_asn1_int64\<close>,
  and what follows it is left for the next read; writing succeeds whenever there is room.\<close>

lemma cbb_int64_roundtrip:
  assumes "cbb_open d st"
  shows "(\<forall>st'. CBB_add_asn1_int64 al d st v = (True, st') \<longrightarrow>
       (\<exists>bs. appended st bs st' \<and> (\<forall>r. CBS_get_asn1_int64 (bs @ r) = Some (v, r)))) \<and>
    (roomy al 20 st \<longrightarrow> (\<exists>st'. CBB_add_asn1_int64 al d st v = (True, st')))"
proof (intro conjI allI impI)
  let ?e = "der_element CBS_ASN1_INTEGER (der_int (sint v))"
  fix st' assume "CBB_add_asn1_int64 al d st v = (True, st')"
  with emits_appended [OF emits_add_asn1_int64 assms] CBS_get_asn1_int64_iff
  show "\<exists>bs. appended st bs st' \<and> (\<forall>r. CBS_get_asn1_int64 (bs @ r) = Some (v, r))" by blast
next
  let ?e = "der_element CBS_ASN1_INTEGER (der_int (sint v))"
  assume r: "roomy al 20 st"
  have "length (der_int (sint v)) \<le> 8"
    using sint_ge [of v] sint_lt [of v] by (intro length_der_int_le_8) simp_all
  then have "length ?e \<le> 20"
    using length_der_header [of "length (der_int (sint v))" CBS_ASN1_INTEGER] by (simp add: der_element_def)
  then show "\<exists>st'. CBB_add_asn1_int64 al d st v = (True, st')"
    using emits_succeeds [OF emits_add_asn1_int64 assms roomy_mono [OF r]] by blast
qed

text \<open>The same for unsigned 64-bit integers.\<close>

lemma cbb_uint64_roundtrip:
  assumes "cbb_open d st" and "CBB_add_asn1_uint64 al d st v = (True, st')"
  shows "\<exists>bs. appended st bs st' \<and> CBS_get_asn1_uint64 (bs @ r) = Some (v, r)"
  using emits_appended [OF emits_add_asn1_uint64 assms] CBS_get_asn1_uint64_iff by blast

text \<open>A child with a \<open>k\<close>-byte length prefix whose contents outgrow the prefix makes the flush fail
  and sets the error flag; a length that fits is written in front of the contents.\<close>

lemma cbb_length_prefix_overflow:
  assumes "cbb_open d st" and "cbb_add_length_prefixed al d st k = (True, st1)" and "0 < k" and "k \<le> 8"
    and "emits al (Suc d) f body" and "f st1 = (True, st2)"
  shows "if length body < 256 ^ k
    then \<exists>st3. CBB_flush al d st2 = (True, st3) \<and> appended st (be_bytes k (length body) @ body) st3
    else \<exists>st3. CBB_flush al d st2 = (False, st3) \<and> cb_error st3"
proof -
  have k: "k < SIZE_MAX_1" using assms(4) by (rule small_size)
  have c: "child_opened st [] k False st1"
    using opens_length_prefixed [OF k, of al d] assms(1,2) by (simp add: opens_def)
  then have "cbb_open (Suc d) st1" using assms(1) by (auto simp: cbb_open_def child_opened_def)
  with assms(5,6) have a: "appended st1 body st2" by (blast intro: emits_appended)
  note b = opened_body [OF assms(1) c a]
  have "CBB_flush al d st2 = flush_child al d st2" using flush_open_child b(7,9) assms(3) by simp
  also have "\<dots> = (if length body < 256 ^ k
      then (True, st2\<lparr>cb_buf := cb_buf st @ be_bytes k (length body) @ body, cb_frames := cb_frames st\<rparr>)
      else cbb_fail (st2\<lparr>cb_buf := cb_buf st @ be_bytes k (length body) @ body\<rparr>))"
    using flush_child_prefixed [of st2 "cb_buf st" "replicate k 0" body "cb_frames st" k d al] b assms(4) by simp
  finally show ?thesis
    using b by (auto simp: cbb_fail_def appended_def)
qed

end
